theory Spec2Isabelle
  imports Main "HOL-Library.Word"
begin

unbundle bit_operations_syntax

section \<open>The IR store: Varnodes, PcodeOps and basic blocks\<close>

text \<open>
  The classes Varnode, PcodeOp, BlockBasic, Address, VarnodeBank and PcodeOpBank are
  declared in headers that are not part of the sources at hand (varnode.hh, op.hh,
  block.hh, address.hh).  Their fields are taken from the way the members of Funcdata
  in funcdata\_op.cc and funcdata\_varnode.cc use them.  Objects live in an arena:
  a pointer to a Varnode, a PcodeOp or a block is an index, a null pointer is
  \<open>None\<close>.
\<close>

type_synonym vref = nat
type_synonym opref = nat
type_synonym blref = nat
type_synonym uintb = "64 word"

datatype error = InvariantViolation | LowlevelError | BadAccess

datatype spacetype =
  IPTR_CONSTANT | IPTR_PROCESSOR | IPTR_SPACEBASE | IPTR_INTERNAL
  | IPTR_FSPEC | IPTR_IOP | IPTR_JOIN

datatype AddrSpace = AddrSpace (getType: spacetype) (getIndex: nat)

datatype Address = Address (getSpace: AddrSpace) (getOffset: uintb)

datatype OpCode =
  CPUI_COPY | CPUI_LOAD | CPUI_STORE | CPUI_BRANCH | CPUI_CBRANCH | CPUI_BRANCHIND
  | CPUI_CALL | CPUI_CALLIND | CPUI_CALLOTHER | CPUI_RETURN
  | CPUI_INT_EQUAL | CPUI_INT_NOTEQUAL | CPUI_INT_SLESS | CPUI_INT_SLESSEQUAL
  | CPUI_INT_LESS | CPUI_INT_LESSEQUAL | CPUI_INT_ADD | CPUI_INT_REM | CPUI_INT_SREM
  | CPUI_BOOL_NEGATE | CPUI_MULTIEQUAL | CPUI_INDIRECT | CPUI_PIECE | CPUI_SUBPIECE
  | CPUI_SEGMENTOP

datatype VnFlag =
  vn_mark | vn_constant | vn_annotation | vn_input | vn_insert | vn_typelock | vn_namelock
  | vn_persist | vn_addrtied | vn_addrforce | vn_unaffected | vn_spacebase
  | vn_indirect_creation | vn_incidental_copy | vn_readonly | vn_externref | vn_auto_live
  | vn_volatil | vn_mapped | vn_return_address | vn_directwrite

datatype OpFlag =
  op_startbasic | op_dead | op_indirect_source | op_startmark | op_mark | op_warning | op_halt
  | op_badinstruction | op_unimplemented | op_noreturn | op_missing | op_special
  | op_indirect_creation

datatype Datatype = TYPE_UNKNOWN int | TYPE_CODE | TYPE_OTHER nat

datatype EffectType = unaffected | killedbycall | return_address | unknown_effect

record SymbolEntry =
  entry_id :: nat
  entry_type :: "Datatype option"
  entry_typelocked :: bool

record Varnode =
  vn_size :: int
  vn_loc :: Address
  vn_type :: Datatype
  vn_def :: "opref option"
  vn_descend :: "opref list"
  vn_flags :: "VnFlag set"
  vn_cover :: "nat option"
  vn_mapentry :: "SymbolEntry option"
  vn_high :: "vref option"

record PcodeOp =
  op_opcode :: "OpCode option"
  op_flags :: "OpFlag set"
  op_output :: "vref option"
  op_inrefs :: "vref option list"
  op_parent :: "blref option"
  op_addr :: Address
  op_time :: nat

record BlockBasic =
  bl_op :: "opref list"
  bl_intothis :: "blref list"
  bl_outofthis :: "blref list"
  bl_dead :: bool
  bl_start :: Address

text \<open>
  A parameter trial (ParamTrial, fspec.hh, not part of the sources at hand): the input
  slot of the call it belongs to and the properties that the ancestry walks read and
  set.
\<close>

datatype TrialFlag =
  pt_checked | pt_used | pt_active | pt_killedbycall | pt_rem_formed | pt_indcreate_formed
  | pt_condexe_effect

record ParamTrial =
  pt_flags :: "TrialFlag set"
  pt_slot :: nat

text \<open>
  The function under analysis.  \<open>localmap\<close>, \<open>calcCover\<close> and \<open>hasEffect\<close>
  stand for the symbol database, the cover computation and the prototype of the
  function, which are collaborators of the store: they are parameters of the model.
  So is \<open>callDoubleUse\<close>, the verdict of Funcdata::checkCallDoubleUse on a first call,
  a second call, the Varnode read by the second call and a trial: that function reads
  the call specifications (FuncCallSpecs, fspec.hh), has no loop and changes nothing.
\<close>

record Funcdata =
  vbank :: "vref \<Rightarrow> Varnode"
  create_index :: nat
  uniqid :: uintb
  obank :: "opref \<Rightarrow> PcodeOp"
  op_count :: nat
  op_uniqid :: nat
  bblocks :: "blref \<Rightarrow> BlockBasic"
  highlevel_on :: bool
  baseaddr :: Address
  localmap :: "Address \<Rightarrow> int \<Rightarrow> Address \<Rightarrow> SymbolEntry option \<times> VnFlag set"
  calcCover :: "vref \<Rightarrow> nat"
  hasEffect :: "Address \<Rightarrow> int \<Rightarrow> EffectType"
  callDoubleUse :: "opref \<Rightarrow> opref \<Rightarrow> vref \<Rightarrow> ParamTrial \<Rightarrow> bool"

definition constant_space :: AddrSpace where
  "constant_space = AddrSpace IPTR_CONSTANT 0"

definition unique_space :: AddrSpace where
  "unique_space = AddrSpace IPTR_INTERNAL 1"

subsection \<open>Members of Varnode and PcodeOp used by the store\<close>

definition isConstant :: "Varnode \<Rightarrow> bool" where
  "isConstant vn = (vn_constant \<in> vn_flags vn)"

definition isSpacebase :: "Varnode \<Rightarrow> bool" where
  "isSpacebase vn = (vn_spacebase \<in> vn_flags vn)"

definition isInput :: "Varnode \<Rightarrow> bool" where
  "isInput vn = (vn_input \<in> vn_flags vn)"

definition isWritten :: "Varnode \<Rightarrow> bool" where
  "isWritten vn = (vn_def vn \<noteq> None)"

definition isMapped :: "Varnode \<Rightarrow> bool" where
  "isMapped vn = (vn_mapped \<in> vn_flags vn)"

definition isAnnotation :: "Varnode \<Rightarrow> bool" where
  "isAnnotation vn = (vn_annotation \<in> vn_flags vn)"

definition hasNoDescend :: "Varnode \<Rightarrow> bool" where
  "hasNoDescend vn = (vn_descend vn = [])"

definition numInput :: "PcodeOp \<Rightarrow> nat" where
  "numInput op = length (op_inrefs op)"

definition getIn :: "PcodeOp \<Rightarrow> nat \<Rightarrow> vref option" where
  "getIn op slot = (if slot < numInput op then op_inrefs op ! slot else None)"

text \<open>Varnode::addDescend appends the reading op to the list of descendants.\<close>

definition addDescend :: "opref \<Rightarrow> Varnode \<Rightarrow> Varnode" where
  "addDescend op vn = vn\<lparr>vn_descend := vn_descend vn @ [op]\<rparr>"

text \<open>
  Varnode::eraseDescend removes the first entry of the reading op from the list of
  descendants.  An op that is not in the list is the invariant violation of the
  specification (a reader-list entry cannot be found on unset).
\<close>

definition eraseDescend :: "opref \<Rightarrow> Varnode \<Rightarrow> error + Varnode" where
  "eraseDescend op vn =
     (if op \<in> set (vn_descend vn)
      then Inr (vn\<lparr>vn_descend := remove1 op (vn_descend vn)\<rparr>)
      else Inl InvariantViolation)"

text \<open>Varnode::copySymbol takes over the data-type, the symbol and the lock flags.\<close>

definition copySymbol :: "Varnode \<Rightarrow> Varnode \<Rightarrow> Varnode" where
  "copySymbol src vn =
     vn\<lparr>vn_type := vn_type src, vn_mapentry := vn_mapentry src,
        vn_flags := (vn_flags vn - {vn_typelock, vn_namelock})
                    \<union> ({vn_typelock, vn_namelock} \<inter> vn_flags src)\<rparr>"

text \<open>
  The Varnode constructor: a Varnode in the constant space is a constant, a Varnode in
  the fspec or iop space an annotation.
\<close>

definition initial_flags :: "Address \<Rightarrow> VnFlag set" where
  "initial_flags m =
     (case getType (getSpace m) of
        IPTR_CONSTANT \<Rightarrow> {vn_constant}
      | IPTR_FSPEC \<Rightarrow> {vn_annotation}
      | IPTR_IOP \<Rightarrow> {vn_annotation}
      | _ \<Rightarrow> {})"

definition new_varnode :: "int \<Rightarrow> Address \<Rightarrow> Datatype \<Rightarrow> Varnode" where
  "new_varnode s m ct =
     \<lparr>vn_size = s, vn_loc = m, vn_type = ct, vn_def = None, vn_descend = [],
      vn_flags = initial_flags m, vn_cover = None, vn_mapentry = None, vn_high = None\<rparr>"

text \<open>VarnodeBank::create allocates a free Varnode under the next creation index.\<close>

definition vbank_create :: "int \<Rightarrow> Address \<Rightarrow> Datatype \<Rightarrow> Funcdata \<Rightarrow> vref \<times> Funcdata" where
  "vbank_create s m ct fd =
     (let v = create_index fd
      in (v, fd\<lparr>vbank := (vbank fd)(v := new_varnode s m ct), create_index := Suc v\<rparr>))"

text \<open>VarnodeBank::createDef allocates a Varnode that is already the output of an op.\<close>

definition vbank_createDef ::
  "int \<Rightarrow> Address \<Rightarrow> Datatype \<Rightarrow> opref \<Rightarrow> Funcdata \<Rightarrow> vref \<times> Funcdata" where
  "vbank_createDef s m ct op fd =
     (let v = create_index fd
      in (v, fd\<lparr>vbank := (vbank fd)(v := (new_varnode s m ct)\<lparr>vn_def := Some op\<rparr>),
               create_index := Suc v\<rparr>))"

text \<open>
  VarnodeBank::makeFree, modelled from the specification (unsetting the output of an op
  makes the output free but does not destroy it): the Varnode loses its defining op and
  the properties of a bound Varnode, and stays in the bank.
\<close>

definition makeFree :: "vref \<Rightarrow> Funcdata \<Rightarrow> Funcdata" where
  "makeFree v fd =
     fd\<lparr>vbank := (vbank fd)
          (v := (vbank fd v)\<lparr>vn_def := None,
                 vn_flags := vn_flags (vbank fd v) - {vn_insert, vn_input, vn_indirect_creation}\<rparr>)\<rparr>"

text \<open>Varnode::clearCover drops the cover of the Varnode.\<close>

definition clearCover :: "vref \<Rightarrow> Funcdata \<Rightarrow> Funcdata" where
  "clearCover v fd = fd\<lparr>vbank := (vbank fd)(v := (vbank fd v)\<lparr>vn_cover := None\<rparr>)\<rparr>"

text \<open>
  VarnodeBank::setDef, modelled from the specification (the store fails with an
  invariant violation when an output variable is assigned while already bound).
\<close>

definition setDef :: "vref \<Rightarrow> opref \<Rightarrow> Funcdata \<Rightarrow> error + Funcdata" where
  "setDef v op fd =
     (if vn_def (vbank fd v) \<noteq> None then Inl InvariantViolation
      else Inr (fd\<lparr>vbank := (vbank fd)(v := (vbank fd v)\<lparr>vn_def := Some op\<rparr>)\<rparr>))"

definition op_setOutput :: "opref \<Rightarrow> vref option \<Rightarrow> Funcdata \<Rightarrow> Funcdata" where
  "op_setOutput op v fd = fd\<lparr>obank := (obank fd)(op := (obank fd op)\<lparr>op_output := v\<rparr>)\<rparr>"

definition op_setInput :: "opref \<Rightarrow> vref option \<Rightarrow> nat \<Rightarrow> Funcdata \<Rightarrow> Funcdata" where
  "op_setInput op v slot fd =
     fd\<lparr>obank := (obank fd)(op := (obank fd op)\<lparr>op_inrefs := (op_inrefs (obank fd op))[slot := v]\<rparr>)\<rparr>"

definition getUsePoint :: "Funcdata \<Rightarrow> Varnode \<Rightarrow> Address" where
  "getUsePoint fd vn =
     (case vn_def vn of
        Some d \<Rightarrow> op_addr (obank fd d)
      | None \<Rightarrow> Address (getSpace (baseaddr fd)) (getOffset (baseaddr fd) - 1))"

subsection \<open>Funcdata members on Varnodes (funcdata\_varnode.cc)\<close>

definition setVarnodeProperties :: "vref \<Rightarrow> Funcdata \<Rightarrow> Funcdata" where
  "setVarnodeProperties v fd =
     (let vn = vbank fd v;
          vn1 = (if \<not> isMapped vn
                 then (case localmap fd (vn_loc vn) (vn_size vn) (getUsePoint fd vn) of
                         (entry, vflags) \<Rightarrow>
                           (let vn2 = (case entry of
                                         None \<Rightarrow> vn
                                       | Some e \<Rightarrow>
                                           (let vn3 = (case entry_type e of
                                                         None \<Rightarrow> vn
                                                       | Some dt \<Rightarrow> vn\<lparr>vn_type := dt\<rparr>)
                                            in if entry_typelocked e
                                               then vn3\<lparr>vn_mapentry := Some e\<rparr> else vn3))
                            in vn2\<lparr>vn_flags := vn_flags vn2 \<union> (vflags - {vn_typelock})\<rparr>))
                 else vn);
          vn4 = (if vn_cover vn1 = None \<and> highlevel_on fd
                 then vn1\<lparr>vn_cover := Some (calcCover fd v)\<rparr> else vn1)
      in fd\<lparr>vbank := (vbank fd)(v := vn4)\<rparr>)"

definition assignHigh :: "vref \<Rightarrow> Funcdata \<Rightarrow> Funcdata" where
  "assignHigh v fd =
     (if highlevel_on fd
      then (let vn = vbank fd v;
                vn1 = (if vn_cover vn \<noteq> None then vn\<lparr>vn_cover := Some (calcCover fd v)\<rparr> else vn);
                vn2 = (if \<not> isAnnotation vn1 then vn1\<lparr>vn_high := Some v\<rparr> else vn1)
            in fd\<lparr>vbank := (vbank fd)(v := vn2)\<rparr>)
      else fd)"

definition newConstant :: "int \<Rightarrow> uintb \<Rightarrow> Funcdata \<Rightarrow> vref \<times> Funcdata" where
  "newConstant s constant_val fd =
     (case vbank_create s (Address constant_space constant_val) (TYPE_UNKNOWN s) fd of
        (v, fd1) \<Rightarrow> (v, assignHigh v fd1))"

subsection \<open>Linkage edits (funcdata\_op.cc)\<close>

definition opUnsetOutput :: "opref \<Rightarrow> Funcdata \<Rightarrow> Funcdata" where
  "opUnsetOutput op fd =
     (case op_output (obank fd op) of
        None \<Rightarrow> fd
      | Some vn \<Rightarrow> clearCover vn (makeFree vn (op_setOutput op None fd)))"

definition opSetOutput :: "opref \<Rightarrow> vref \<Rightarrow> Funcdata \<Rightarrow> error + Funcdata" where
  "opSetOutput op vn fd =
     (if Some vn = op_output (obank fd op) then Inr fd
      else
        (let fd1 = (if op_output (obank fd op) \<noteq> None then opUnsetOutput op fd else fd);
             fd2 = (case vn_def (vbank fd1 vn) of
                      Some d \<Rightarrow> opUnsetOutput d fd1
                    | None \<Rightarrow> fd1)
         in case setDef vn op fd2 of
              Inl e \<Rightarrow> Inl e
            | Inr fd3 \<Rightarrow> Inr (op_setOutput op (Some vn) (setVarnodeProperties vn fd3))))"

definition opUnsetInput :: "opref \<Rightarrow> nat \<Rightarrow> Funcdata \<Rightarrow> error + Funcdata" where
  "opUnsetInput op slot fd =
     (if numInput (obank fd op) \<le> slot then Inl BadAccess
      else case getIn (obank fd op) slot of
        None \<Rightarrow> Inl BadAccess
      | Some vn \<Rightarrow>
          (case eraseDescend op (vbank fd vn) of
             Inl e \<Rightarrow> Inl e
           | Inr vn' \<Rightarrow> Inr (op_setInput op None slot (fd\<lparr>vbank := (vbank fd)(vn := vn')\<rparr>))))"

definition opSetInput :: "opref \<Rightarrow> vref \<Rightarrow> nat \<Rightarrow> Funcdata \<Rightarrow> error + Funcdata" where
  "opSetInput op vn slot fd =
     (if numInput (obank fd op) \<le> slot then Inl BadAccess
      else if Some vn = getIn (obank fd op) slot then Inr fd
      else
        (case (if isConstant (vbank fd vn) \<and> \<not> hasNoDescend (vbank fd vn)
                  \<and> \<not> isSpacebase (vbank fd vn)
               then (case newConstant (vn_size (vbank fd vn)) (getOffset (vn_loc (vbank fd vn))) fd of
                       (cvn, fd1) \<Rightarrow>
                         (cvn, fd1\<lparr>vbank := (vbank fd1)(cvn := copySymbol (vbank fd1 vn) (vbank fd1 cvn))\<rparr>))
               else (vn, fd)) of
           (vn1, fd2) \<Rightarrow>
             (case (if getIn (obank fd2 op) slot \<noteq> None then opUnsetInput op slot fd2 else Inr fd2) of
                Inl e \<Rightarrow> Inl e
              | Inr fd3 \<Rightarrow>
                  Inr (op_setInput op (Some vn1) slot
                        (fd3\<lparr>vbank := (vbank fd3)(vn1 := addDescend op (vbank fd3 vn1))\<rparr>)))))"


subsection \<open>Opcodes, flags and creation of ops\<close>

definition code :: "PcodeOp \<Rightarrow> OpCode option" where
  "code op = op_opcode op"

text \<open>
  The properties an op has through its opcode (PcodeOp::isMarker, isFlowBreak and
  isCall test flag bits that the opcode sets; op.hh and typeop.cc are not part of the
  sources at hand): MULTIEQUAL and INDIRECT are the marker ops, branches and returns
  break the flow, CALL and CALLIND are calls.  They are read off the opcode here.
\<close>

definition isMarker :: "PcodeOp \<Rightarrow> bool" where
  "isMarker op = (code op = Some CPUI_MULTIEQUAL \<or> code op = Some CPUI_INDIRECT)"

definition isFlowBreak :: "PcodeOp \<Rightarrow> bool" where
  "isFlowBreak op =
     (code op = Some CPUI_BRANCH \<or> code op = Some CPUI_CBRANCH
      \<or> code op = Some CPUI_BRANCHIND \<or> code op = Some CPUI_RETURN)"

definition isCall :: "PcodeOp \<Rightarrow> bool" where
  "isCall op = (code op = Some CPUI_CALL \<or> code op = Some CPUI_CALLIND)"

definition isDead :: "PcodeOp \<Rightarrow> bool" where
  "isDead op = (op_dead \<in> op_flags op)"

text \<open>
  PcodeOpBank::create, modelled from the specification (operations are created
  detached, with n inputs at a given instruction address): the new op is on the dead
  list, has no opcode yet, no output, n empty input slots and no block.
\<close>

definition obank_create :: "nat \<Rightarrow> Address \<Rightarrow> nat \<Rightarrow> Funcdata \<Rightarrow> opref \<times> Funcdata" where
  "obank_create inputs pc tm fd =
     (let op = op_count fd
      in (op, fd\<lparr>obank := (obank fd)
                  (op := \<lparr>op_opcode = None, op_flags = {op_dead}, op_output = None,
                          op_inrefs = replicate inputs None, op_parent = None,
                          op_addr = pc, op_time = tm\<rparr>),
                op_count := Suc op,
                op_uniqid := (if op_uniqid fd \<le> tm then Suc tm else op_uniqid fd)\<rparr>))"

definition newOp :: "nat \<Rightarrow> Address \<Rightarrow> Funcdata \<Rightarrow> opref \<times> Funcdata" where
  "newOp inputs pc fd = obank_create inputs pc (op_uniqid fd) fd"

definition newOp_seq :: "nat \<Rightarrow> Address \<times> nat \<Rightarrow> Funcdata \<Rightarrow> opref \<times> Funcdata" where
  "newOp_seq inputs sq fd = obank_create inputs (fst sq) (snd sq) fd"

definition opSetOpcode :: "opref \<Rightarrow> OpCode \<Rightarrow> Funcdata \<Rightarrow> Funcdata" where
  "opSetOpcode op opc fd =
     fd\<lparr>obank := (obank fd)
          (op := (obank fd op)\<lparr>op_opcode := Some opc\<rparr>)\<rparr>"

definition opSetFlag :: "opref \<Rightarrow> OpFlag set \<Rightarrow> Funcdata \<Rightarrow> Funcdata" where
  "opSetFlag op fl fd =
     fd\<lparr>obank := (obank fd)(op := (obank fd op)\<lparr>op_flags := op_flags (obank fd op) \<union> fl\<rparr>)\<rparr>"

text \<open>VarnodeBank::createDefUnique takes the storage from the unique space.\<close>

definition newUniqueOut :: "int \<Rightarrow> opref \<Rightarrow> Funcdata \<Rightarrow> vref \<times> Funcdata" where
  "newUniqueOut s op fd =
     (case vbank_createDef s (Address unique_space (uniqid fd)) (TYPE_UNKNOWN s) op
             (fd\<lparr>uniqid := uniqid fd + word_of_int s\<rparr>) of
        (v, fd1) \<Rightarrow> (v, assignHigh v (op_setOutput op (Some v) fd1)))"

definition cloneVarnode :: "Varnode \<Rightarrow> Funcdata \<Rightarrow> vref \<times> Funcdata" where
  "cloneVarnode vn fd =
     (case vbank_create (vn_size vn) (vn_loc vn) (vn_type vn) fd of
        (newvn, fd1) \<Rightarrow>
          (let vflags = vn_flags vn \<inter>
                 {vn_annotation, vn_externref, vn_readonly, vn_persist, vn_addrtied,
                  vn_addrforce, vn_auto_live, vn_indirect_creation, vn_incidental_copy,
                   vn_volatil, vn_mapped}
           in (newvn, fd1\<lparr>vbank := (vbank fd1)
                 (newvn := (vbank fd1 newvn)\<lparr>vn_flags := vn_flags (vbank fd1 newvn) \<union> vflags\<rparr>)\<rparr>)))"

text \<open>
  The loop of cloneOp over the input slots.  The op to clone is read from the function
  \<open>src\<close> it belongs to, which can be another function than the one that receives the
  clone.  An empty input slot of the op is a null pointer handed to cloneVarnode.
\<close>

fun cloneOp_inputs :: "Funcdata \<Rightarrow> PcodeOp \<Rightarrow> opref \<Rightarrow> nat list \<Rightarrow> Funcdata \<Rightarrow> error + Funcdata" where
  "cloneOp_inputs src op newop [] fd = Inr fd"
| "cloneOp_inputs src op newop (i # rest) fd =
     (case getIn op i of
        None \<Rightarrow> Inl BadAccess
      | Some v \<Rightarrow>
          (case cloneVarnode (vbank src v) fd of
             (nv, fd1) \<Rightarrow>
               (case opSetInput newop nv i fd1 of
                  Inl e \<Rightarrow> Inl e
                | Inr fd2 \<Rightarrow> cloneOp_inputs src op newop rest fd2)))"

definition cloneOp :: "Funcdata \<Rightarrow> opref \<Rightarrow> Address \<times> nat \<Rightarrow> Funcdata \<Rightarrow> error + opref \<times> Funcdata" where
  "cloneOp src opr seq fd =
     (let op = obank src opr
      in case newOp_seq (numInput op) seq fd of
        (newop, fd1) \<Rightarrow>
          (case code op of
             None \<Rightarrow> Inl BadAccess
           | Some opc \<Rightarrow>
               (let fd2 = opSetOpcode newop opc fd1;
                    flags = op_flags op \<inter> {op_startmark, op_startbasic};
                    fd3 = opSetFlag newop flags fd2
                in case (case op_output op of
                           None \<Rightarrow> Inr fd3
                         | Some out \<Rightarrow>
                             (case cloneVarnode (vbank src out) fd3 of
                                (nv, fd4) \<Rightarrow> opSetOutput newop nv fd4)) of
                     Inl e \<Rightarrow> Inl e
                   | Inr fd5 \<Rightarrow>
                       (case cloneOp_inputs src op newop [0..<numInput op] fd5 of
                          Inl e \<Rightarrow> Inl e
                        | Inr fd6 \<Rightarrow> Inr (newop, fd6)))))"

subsection \<open>Insertion into basic blocks (funcdata\_op.cc)\<close>

text \<open>
  PcodeOpBank::markAlive and BlockBasic::insert: the op leaves the dead list, gets the
  block as parent and enters the list of the block at the position of the iterator.
  An iterator into the list of a block is an index, the end iterator the length.
\<close>

definition markAlive :: "opref \<Rightarrow> Funcdata \<Rightarrow> Funcdata" where
  "markAlive op fd =
     fd\<lparr>obank := (obank fd)(op := (obank fd op)\<lparr>op_flags := op_flags (obank fd op) - {op_dead}\<rparr>)\<rparr>"

definition block_insert :: "blref \<Rightarrow> nat \<Rightarrow> opref \<Rightarrow> Funcdata \<Rightarrow> Funcdata" where
  "block_insert bl iter op fd =
     fd\<lparr>obank := (obank fd)(op := (obank fd op)\<lparr>op_parent := Some bl\<rparr>),
        bblocks := (bblocks fd)
          (bl := (bblocks fd bl)\<lparr>bl_op := take iter (bl_op (bblocks fd bl)) @ [op]
                                          @ drop iter (bl_op (bblocks fd bl))\<rparr>)\<rparr>"

definition opInsert :: "opref \<Rightarrow> blref \<Rightarrow> nat \<Rightarrow> Funcdata \<Rightarrow> Funcdata" where
  "opInsert op bl iter fd = block_insert bl iter op (markAlive op fd)"

text \<open>The loop of opInsertBegin and opInsertAfter: step over the MULTIEQUALs.\<close>

fun skipMultiequal :: "Funcdata \<Rightarrow> opref list \<Rightarrow> nat \<Rightarrow> nat" where
  "skipMultiequal fd [] iter = iter"
| "skipMultiequal fd (nextop # rest) iter =
     (if code (obank fd nextop) \<noteq> Some CPUI_MULTIEQUAL then iter
      else skipMultiequal fd rest (Suc iter))"

text \<open>The loop of opInsertBefore: step back over the INDIRECTs in front of the op.\<close>

fun backOverIndirect :: "Funcdata \<Rightarrow> opref list \<Rightarrow> nat \<Rightarrow> nat" where
  "backOverIndirect fd ops 0 = 0"
| "backOverIndirect fd ops (Suc iter) =
     (if code (obank fd (ops ! iter)) \<noteq> Some CPUI_INDIRECT then Suc iter
      else backOverIndirect fd ops iter)"

text \<open>PcodeOp::getBasicIter: the position of the op in the list of its block.\<close>

fun getBasicIter :: "opref list \<Rightarrow> opref \<Rightarrow> nat" where
  "getBasicIter [] op = 0"
| "getBasicIter (x # xs) op = (if x = op then 0 else Suc (getBasicIter xs op))"

definition opInsertBegin :: "opref \<Rightarrow> blref \<Rightarrow> Funcdata \<Rightarrow> Funcdata" where
  "opInsertBegin op bl fd =
     (let iter = (if code (obank fd op) \<noteq> Some CPUI_MULTIEQUAL
                  then skipMultiequal fd (bl_op (bblocks fd bl)) 0 else 0)
      in opInsert op bl iter fd)"

definition opInsertEnd :: "opref \<Rightarrow> blref \<Rightarrow> Funcdata \<Rightarrow> Funcdata" where
  "opInsertEnd op bl fd =
     (let ops = bl_op (bblocks fd bl);
          iter = length ops;
          iter1 = (if iter \<noteq> 0
                   then (if \<not> isFlowBreak (obank fd (ops ! (iter - 1))) then iter else iter - 1)
                   else iter)
      in opInsert op bl iter1 fd)"

definition opInsertBefore :: "opref \<Rightarrow> opref \<Rightarrow> Funcdata \<Rightarrow> error + Funcdata" where
  "opInsertBefore op follow fd =
     (case op_parent (obank fd follow) of
        None \<Rightarrow> Inl BadAccess
      | Some parent \<Rightarrow>
          (let ops = bl_op (bblocks fd parent);
               iter = getBasicIter ops follow;
               iter1 = (if code (obank fd op) \<noteq> Some CPUI_INDIRECT
                        then backOverIndirect fd ops iter else iter)
           in Inr (opInsert op parent iter1 fd)))"

text \<open>PcodeOp::getOpFromConst: the op an iop annotation points to.\<close>

definition getOpFromConst :: "Address \<Rightarrow> opref" where
  "getOpFromConst a = unat (getOffset a)"

definition opInsertAfter :: "opref \<Rightarrow> opref \<Rightarrow> Funcdata \<Rightarrow> error + Funcdata" where
  "opInsertAfter op prev0 fd =
     (case (if isMarker (obank fd prev0) \<and> code (obank fd prev0) = Some CPUI_INDIRECT
            then (case getIn (obank fd prev0) 1 of
                    None \<Rightarrow> Inl BadAccess
                  | Some invn \<Rightarrow>
                      if getType (getSpace (vn_loc (vbank fd invn))) = IPTR_IOP
                      then Inr (getOpFromConst (vn_loc (vbank fd invn))) else Inr prev0)
            else Inr prev0) of
        Inl e \<Rightarrow> Inl e
      | Inr prev \<Rightarrow>
          (case op_parent (obank fd prev) of
             None \<Rightarrow> Inl BadAccess
           | Some parent \<Rightarrow>
               (let ops = bl_op (bblocks fd parent);
                    iter = Suc (getBasicIter ops prev);
                    iter1 = (if code (obank fd op) \<noteq> Some CPUI_MULTIEQUAL
                             then skipMultiequal fd (drop iter ops) iter else iter)
                in Inr (opInsert op parent iter1 fd))))"

text \<open>
  The ordering rule of a block: the MULTIEQUALs come first, and an op that breaks the
  flow (a branch or a return) is the last op.
\<close>

definition phisFirst :: "Funcdata \<Rightarrow> opref list \<Rightarrow> bool" where
  "phisFirst fd ops =
     list_all (\<lambda>op. code (obank fd op) \<noteq> Some CPUI_MULTIEQUAL)
       (dropWhile (\<lambda>op. code (obank fd op) = Some CPUI_MULTIEQUAL) ops)"

definition branchLast :: "Funcdata \<Rightarrow> opref list \<Rightarrow> bool" where
  "branchLast fd ops = list_all (\<lambda>op. \<not> isFlowBreak (obank fd op)) (butlast ops)"

definition blockOrdered :: "Funcdata \<Rightarrow> blref \<Rightarrow> bool" where
  "blockOrdered fd bl =
     (phisFirst fd (bl_op (bblocks fd bl)) \<and> branchLast fd (bl_op (bblocks fd bl)))"

text \<open>
  What it means for slot \<open>i\<close> of the clone to hold a clone of a Varnode: the slot holds
  a Varnode created at or after creation index \<open>lo\<close>, with the storage address and
  the size of the original, and the clone is its only reader.
\<close>

definition clonedInto :: "Funcdata \<Rightarrow> opref \<Rightarrow> nat \<Rightarrow> Varnode \<Rightarrow> nat \<Rightarrow> bool" where
  "clonedInto fd' newop i srcvn lo =
     (case getIn (obank fd' newop) i of
        None \<Rightarrow> False
      | Some v \<Rightarrow> lo \<le> v \<and> v < create_index fd'
           \<and> vn_loc (vbank fd' v) = vn_loc srcvn \<and> vn_size (vbank fd' v) = vn_size srcvn
           \<and> vn_descend (vbank fd' v) = [newop])"

subsection \<open>Normalising less-or-equal comparisons (funcdata\_op.cc)\<close>

text \<open>
  sign\_extend and calc\_mask are declared in address.hh, which is not part of the
  sources at hand.  sign\_extend(val, bit) copies bit number \<open>bit\<close> of the 64-bit
  value into all bits above it; calc\_mask(size) is the mask of the low size bytes,
  all ones from 8 bytes on.  The type intb is a signed and uintb an unsigned 64-bit
  integer: both are 64-bit words here, read as signed by \<open><s\<close>.
\<close>

definition sign_extend :: "uintb \<Rightarrow> int \<Rightarrow> uintb" where
  "sign_extend val b =
     (let m = push_bit (nat b) (NOT 0)
      in if bit val (nat b) then val OR m else val AND NOT m)"

definition calc_mask :: "int \<Rightarrow> uintb" where
  "calc_mask sz = mask (8 * nat (if sz < 8 then sz else 8))"

text \<open>The common end of replaceLessequal: the new constant replaces the old one.\<close>

definition replaceLessequal_finish ::
  "opref \<Rightarrow> vref \<Rightarrow> uintb \<Rightarrow> uintb \<Rightarrow> nat \<Rightarrow> Funcdata \<Rightarrow> error + bool \<times> Funcdata" where
  "replaceLessequal_finish op vn val diff i fd =
     (let res = (val + diff) AND calc_mask (vn_size (vbank fd vn))
      in case newConstant (vn_size (vbank fd vn)) res fd of
           (newvn, fd1) \<Rightarrow>
             (case opSetInput op newvn i
                     (fd1\<lparr>vbank := (vbank fd1)(newvn := copySymbol (vbank fd1 vn) (vbank fd1 newvn))\<rparr>) of
                Inl e \<Rightarrow> Inl e
              | Inr fd2 \<Rightarrow> Inr (True, fd2)))"

definition replaceLessequal :: "opref \<Rightarrow> Funcdata \<Rightarrow> error + bool \<times> Funcdata" where
  "replaceLessequal op fd =
     (case getIn (obank fd op) 0 of
        None \<Rightarrow> Inl BadAccess
      | Some vn0 \<Rightarrow>
          (case (if isConstant (vbank fd vn0) then Inr (Some (vn0, - 1, 0))
                 else (case getIn (obank fd op) 1 of
                         None \<Rightarrow> Inl BadAccess
                       | Some vn1 \<Rightarrow>
                           if isConstant (vbank fd vn1) then Inr (Some (vn1, 1, 1))
                           else Inr None)) of
             Inl e \<Rightarrow> Inl e
           | Inr None \<Rightarrow> Inr (False, fd)
           | Inr (Some (vn, diff, i)) \<Rightarrow>
               (let val = sign_extend (getOffset (vn_loc (vbank fd vn)))
                            (8 * vn_size (vbank fd vn) - 1)
                in if code (obank fd op) = Some CPUI_INT_SLESSEQUAL
                   then (if val <s 0 \<and> 0 <s val + diff then Inr (False, fd)
                         else if 0 <s val \<and> val + diff <s 0 then Inr (False, fd)
                         else replaceLessequal_finish op vn val diff i
                                (opSetOpcode op CPUI_INT_SLESS fd))
                   else (if diff = - 1 \<and> val = 0 then Inr (False, fd)
                         else if diff = 1 \<and> val = - 1 then Inr (False, fd)
                         else replaceLessequal_finish op vn val diff i
                                (opSetOpcode op CPUI_INT_LESS fd)))))"

text \<open>
  The truth value of a comparison op on operands of \<open>sz\<close> bytes (the behaviour of
  the opcodes is not part of the sources at hand): INT\_LESS and INT\_LESSEQUAL compare
  the operands as unsigned, INT\_SLESS and INT\_SLESSEQUAL as two's complement values
  of that size.
\<close>

definition compareValue :: "OpCode \<Rightarrow> int \<Rightarrow> uintb \<Rightarrow> uintb \<Rightarrow> bool" where
  "compareValue opc sz a b =
     (let ua = a AND calc_mask sz; ub = b AND calc_mask sz;
          sa = sign_extend ua (8 * sz - 1); sb = sign_extend ub (8 * sz - 1)
      in if opc = CPUI_INT_LESS then ua < ub
         else if opc = CPUI_INT_LESSEQUAL then ua \<le> ub
         else if opc = CPUI_INT_SLESS then sa <s sb
         else if opc = CPUI_INT_SLESSEQUAL then sa \<le>s sb
         else False)"

text \<open>
  The truth value of the comparison \<open>op\<close> of the store when its operand that is not
  the constant has the value \<open>x\<close>; \<open>i\<close> is the slot of the constant.
\<close>

definition truthValue :: "Funcdata \<Rightarrow> opref \<Rightarrow> nat \<Rightarrow> uintb \<Rightarrow> bool" where
  "truthValue fd op i x =
     (let c = vbank fd (the (getIn (obank fd op) i));
          opc = the (code (obank fd op))
      in if i = 0 then compareValue opc (vn_size c) (getOffset (vn_loc c)) x
         else compareValue opc (vn_size c) x (getOffset (vn_loc c)))"

subsection \<open>Replacing the reads of a Varnode (funcdata\_varnode.cc)\<close>

text \<open>PcodeOp::getSlot: the first slot that holds the Varnode.\<close>

definition getSlot :: "PcodeOp \<Rightarrow> vref \<Rightarrow> nat" where
  "getSlot op vn = length (takeWhile (\<lambda>r. r \<noteq> Some vn) (op_inrefs op))"

text \<open>
  The body of the loop of descend2Undef for one reading op.  The loop runs over the
  descendants of the Varnode and moves the iterator on before the body unlinks the
  read, so it visits the readers the Varnode has at the start, in their order.
\<close>

definition descend2Undef_copy ::
  "int \<Rightarrow> vref \<Rightarrow> Address \<Rightarrow> Funcdata \<Rightarrow> error + (opref \<times> vref) \<times> Funcdata" where
  "descend2Undef_copy sz badconst pc fd =
     (case newOp 1 pc fd of
        (copyop, fd2) \<Rightarrow>
          (case newUniqueOut sz copyop fd2 of
             (inputvn, fd3) \<Rightarrow>
               (case opSetInput copyop badconst 0 (opSetOpcode copyop CPUI_COPY fd3) of
                  Inl e \<Rightarrow> Inl e
                | Inr fd5 \<Rightarrow> Inr ((copyop, inputvn), fd5))))"

definition descend2Undef_step ::
  "vref \<Rightarrow> int \<Rightarrow> opref \<Rightarrow> bool \<times> Funcdata \<Rightarrow> error + bool \<times> Funcdata" where
  "descend2Undef_step vn sz op st =
     (case st of (res, fd) \<Rightarrow>
      (case op_parent (obank fd op) of
         None \<Rightarrow> Inl BadAccess
       | Some parent \<Rightarrow>
           if bl_dead (bblocks fd parent) then Inr (res, fd)
           else
             (let res1 = (if length (bl_intothis (bblocks fd parent)) \<noteq> 0 then True else res);
                  i = getSlot (obank fd op) vn
              in case newConstant sz 0xBADDEF fd of
                (badconst, fd1) \<Rightarrow>
                  if code (obank fd1 op) = Some CPUI_MULTIEQUAL
                  then (if length (bl_intothis (bblocks fd1 parent)) \<le> i then Inl BadAccess
                        else
                          (let inbl = bl_intothis (bblocks fd1 parent) ! i
                           in case descend2Undef_copy sz badconst (bl_start (bblocks fd1 inbl)) fd1 of
                                Inl e \<Rightarrow> Inl e
                              | Inr ((copyop, inputvn), fd5) \<Rightarrow>
                                  (case opSetInput op inputvn i (opInsertEnd copyop inbl fd5) of
                                     Inl e \<Rightarrow> Inl e
                                   | Inr fd7 \<Rightarrow> Inr (res1, fd7))))
                  else if code (obank fd1 op) = Some CPUI_INDIRECT
                  then (case descend2Undef_copy sz badconst (op_addr (obank fd1 op)) fd1 of
                          Inl e \<Rightarrow> Inl e
                        | Inr ((copyop, inputvn), fd5) \<Rightarrow>
                            (case opInsertBefore copyop op fd5 of
                               Inl e \<Rightarrow> Inl e
                             | Inr fd6 \<Rightarrow>
                                 (case opSetInput op inputvn i fd6 of
                                    Inl e \<Rightarrow> Inl e
                                  | Inr fd7 \<Rightarrow> Inr (res1, fd7))))
                  else (case opSetInput op badconst i fd1 of
                          Inl e \<Rightarrow> Inl e
                        | Inr fd7 \<Rightarrow> Inr (res1, fd7)))))"

fun descend2Undef_loop ::
  "vref \<Rightarrow> int \<Rightarrow> opref list \<Rightarrow> bool \<times> Funcdata \<Rightarrow> error + bool \<times> Funcdata" where
  "descend2Undef_loop vn sz [] st = Inr st"
| "descend2Undef_loop vn sz (op # rest) st =
     (case descend2Undef_step vn sz op st of
        Inl e \<Rightarrow> Inl e
      | Inr st1 \<Rightarrow> descend2Undef_loop vn sz rest st1)"

definition descend2Undef :: "vref \<Rightarrow> Funcdata \<Rightarrow> error + bool \<times> Funcdata" where
  "descend2Undef vn fd =
     descend2Undef_loop vn (vn_size (vbank fd vn)) (vn_descend (vbank fd vn)) (False, fd)"

text \<open>
  The body of the loop of totalReplaceConstant.  The state of the loop holds the COPY
  that was created for the marker ops, if any.  The COPY is built in the same way
  whether the Varnode is written or not (totalReplaceConstant\_newcopy); the two cases
  differ in the address of the COPY and in where it is inserted.
\<close>

definition totalReplaceConstant_newcopy ::
  "vref \<Rightarrow> uintb \<Rightarrow> Address \<Rightarrow> Funcdata \<Rightarrow> error + (opref \<times> vref) \<times> Funcdata" where
  "totalReplaceConstant_newcopy vn val pc fd =
     (case newOp 1 pc fd of
        (copyop, fd1) \<Rightarrow>
          (case newUniqueOut (vn_size (vbank fd1 vn)) copyop (opSetOpcode copyop CPUI_COPY fd1) of
             (newrep, fd3) \<Rightarrow>
               (case newConstant (vn_size (vbank fd3 vn)) val fd3 of
                  (c, fd4) \<Rightarrow>
                    (case opSetInput copyop c 0 fd4 of
                       Inl e \<Rightarrow> Inl e
                     | Inr fd5 \<Rightarrow> Inr ((copyop, newrep), fd5)))))"

definition totalReplaceConstant_copy ::
  "vref \<Rightarrow> uintb \<Rightarrow> Funcdata \<Rightarrow> error + (opref \<times> vref) \<times> Funcdata" where
  "totalReplaceConstant_copy vn val fd =
     (case vn_def (vbank fd vn) of
        Some d \<Rightarrow>
          (case totalReplaceConstant_newcopy vn val (op_addr (obank fd d)) fd of
             Inl e \<Rightarrow> Inl e
           | Inr ((copyop, newrep), fd5) \<Rightarrow>
               (case opInsertAfter copyop d fd5 of
                  Inl e \<Rightarrow> Inl e
                | Inr fd6 \<Rightarrow> Inr ((copyop, newrep), fd6)))
      | None \<Rightarrow>
          (case totalReplaceConstant_newcopy vn val (bl_start (bblocks fd 0)) fd of
             Inl e \<Rightarrow> Inl e
           | Inr ((copyop, newrep), fd5) \<Rightarrow>
               Inr ((copyop, newrep), opInsertBegin copyop 0 fd5)))"

definition totalReplaceConstant_step ::
  "vref \<Rightarrow> uintb \<Rightarrow> opref \<Rightarrow> opref option \<times> Funcdata \<Rightarrow> error + opref option \<times> Funcdata" where
  "totalReplaceConstant_step vn val op st =
     (case st of (copyop, fd) \<Rightarrow>
      (let i = getSlot (obank fd op) vn
       in case (if isMarker (obank fd op)
                then (case copyop of
                        None \<Rightarrow>
                          (case totalReplaceConstant_copy vn val fd of
                             Inl e \<Rightarrow> Inl e
                           | Inr ((c, newrep), fd6) \<Rightarrow> Inr (Some c, newrep, fd6))
                      | Some c \<Rightarrow>
                          (case op_output (obank fd c) of
                             None \<Rightarrow> Inl BadAccess
                           | Some newrep \<Rightarrow> Inr (Some c, newrep, fd)))
                else (case newConstant (vn_size (vbank fd vn)) val fd of
                        (newrep, fd1) \<Rightarrow> Inr (copyop, newrep, fd1))) of
            Inl e \<Rightarrow> Inl e
          | Inr (copyop1, newrep, fd7) \<Rightarrow>
              (case opSetInput op newrep i fd7 of
                 Inl e \<Rightarrow> Inl e
               | Inr fd8 \<Rightarrow> Inr (copyop1, fd8))))"

fun totalReplaceConstant_loop ::
  "vref \<Rightarrow> uintb \<Rightarrow> opref list \<Rightarrow> opref option \<times> Funcdata \<Rightarrow> error + opref option \<times> Funcdata" where
  "totalReplaceConstant_loop vn val [] st = Inr st"
| "totalReplaceConstant_loop vn val (op # rest) st =
     (case totalReplaceConstant_step vn val op st of
        Inl e \<Rightarrow> Inl e
      | Inr st1 \<Rightarrow> totalReplaceConstant_loop vn val rest st1)"

definition totalReplaceConstant :: "vref \<Rightarrow> uintb \<Rightarrow> Funcdata \<Rightarrow> error + Funcdata" where
  "totalReplaceConstant vn val fd =
     (case totalReplaceConstant_loop vn val (vn_descend (vbank fd vn)) (None, fd) of
        Inl e \<Rightarrow> Inl e
      | Inr (copyop, fd1) \<Rightarrow> Inr fd1)"

text \<open>
  The read of an op through a COPY: slot \<open>i\<close> of \<open>op\<close> holds the Varnode \<open>u\<close>,
  which is not a constant, lies in the unique space, has \<open>sz\<close> bytes and is the output
  of the op \<open>c\<close>; \<open>c\<close> is a COPY whose only input is \<open>k\<close>, the constant
  \<open>val\<close> of \<open>sz\<close> bytes.
\<close>

definition markerReadsCopy ::
  "Funcdata \<Rightarrow> opref \<Rightarrow> nat \<Rightarrow> opref \<Rightarrow> vref \<Rightarrow> vref \<Rightarrow> uintb \<Rightarrow> int \<Rightarrow> bool" where
  "markerReadsCopy fd' op i c u k val sz =
     (getIn (obank fd' op) i = Some u
      \<and> \<not> isConstant (vbank fd' u)
      \<and> getType (getSpace (vn_loc (vbank fd' u))) = IPTR_INTERNAL
      \<and> vn_size (vbank fd' u) = sz
      \<and> vn_def (vbank fd' u) = Some c
      \<and> code (obank fd' c) = Some CPUI_COPY
      \<and> op_output (obank fd' c) = Some u
      \<and> op_inrefs (obank fd' c) = [Some k]
      \<and> isConstant (vbank fd' k)
      \<and> vn_loc (vbank fd' k) = Address constant_space val
      \<and> vn_size (vbank fd' k) = sz)"

text \<open>
  What the two routines keep, and where they put a COPY.  For two elements of the list
  of a block, \<open>follows P l a b\<close> says that \<open>b\<close> comes after \<open>a\<close> with
  only elements that satisfy \<open>P\<close> in between, and \<open>allAfter P l a\<close> that
  \<open>a\<close> is in the list and only elements that satisfy \<open>P\<close> come after it.
\<close>

fun reaches :: "('a \<Rightarrow> bool) \<Rightarrow> 'a list \<Rightarrow> 'a \<Rightarrow> bool" where
  "reaches P [] b = False"
| "reaches P (x # xs) b = (x = b \<or> (P x \<and> reaches P xs b))"

fun follows :: "('a \<Rightarrow> bool) \<Rightarrow> 'a list \<Rightarrow> 'a \<Rightarrow> 'a \<Rightarrow> bool" where
  "follows P [] a b = False"
| "follows P (x # xs) a b = ((x = a \<and> reaches P xs b) \<or> follows P xs a b)"

fun allAfter :: "('a \<Rightarrow> bool) \<Rightarrow> 'a list \<Rightarrow> 'a \<Rightarrow> bool" where
  "allAfter P [] a = False"
| "allAfter P (x # xs) a = (if x = a then list_all P xs else allAfter P xs a)"

text \<open>
  The state \<open>fd1\<close> has the ops, the Varnodes and the blocks of \<open>fd\<close>, and
  beyond them only COPY ops: an op of \<open>fd\<close> keeps its opcode, its output, its
  block and the number of its inputs, a Varnode of \<open>fd\<close> its flags, storage, size
  and defining op, and a block its in-edges and its ops in their order, with ops created
  since then in between.
\<close>

definition opsKept :: "Funcdata \<Rightarrow> Funcdata \<Rightarrow> bool" where
  "opsKept fd fd1 =
     (op_count fd \<le> op_count fd1 \<and> create_index fd \<le> create_index fd1
      \<and> (\<forall>x. x < op_count fd \<longrightarrow>
             code (obank fd1 x) = code (obank fd x)
             \<and> op_output (obank fd1 x) = op_output (obank fd x)
             \<and> op_parent (obank fd1 x) = op_parent (obank fd x)
             \<and> numInput (obank fd1 x) = numInput (obank fd x))
      \<and> (\<forall>x. op_count fd \<le> x \<and> x < op_count fd1 \<longrightarrow> code (obank fd1 x) = Some CPUI_COPY)
      \<and> (\<forall>w. w < create_index fd \<longrightarrow>
             vn_flags (vbank fd1 w) = vn_flags (vbank fd w)
             \<and> vn_loc (vbank fd1 w) = vn_loc (vbank fd w)
             \<and> vn_size (vbank fd1 w) = vn_size (vbank fd w)
             \<and> vn_def (vbank fd1 w) = vn_def (vbank fd w))
      \<and> (\<forall>b. bl_intothis (bblocks fd1 b) = bl_intothis (bblocks fd b)
             \<and> bl_dead (bblocks fd1 b) = bl_dead (bblocks fd b)
             \<and> filter (\<lambda>y. y < op_count fd) (bl_op (bblocks fd1 b)) = bl_op (bblocks fd b)
             \<and> (\<forall>y \<in> set (bl_op (bblocks fd1 b)). y < op_count fd1)))"

text \<open>
  The op behind which opInsertAfter inserts: the given op, or, if that is an INDIRECT
  whose input 1 is an iop annotation, the op that the annotation points to.
\<close>

definition insertAfterTarget :: "Funcdata \<Rightarrow> opref \<Rightarrow> opref option" where
  "insertAfterTarget fd prev0 =
     (if code (obank fd prev0) = Some CPUI_INDIRECT
      then (case getIn (obank fd prev0) 1 of
              None \<Rightarrow> None
            | Some invn \<Rightarrow>
                if getType (getSpace (vn_loc (vbank fd invn))) = IPTR_IOP
                then Some (getOpFromConst (vn_loc (vbank fd invn))) else Some prev0)
      else Some prev0)"

text \<open>
  One pass of either loop rewrites one read: slot \<open>i\<close> of \<open>op\<close> gets the
  Varnode \<open>new\<close>, \<open>op\<close> leaves the readers of \<open>vn\<close>, and no other
  input of an op changes.
\<close>

definition rewritesRead :: "vref \<Rightarrow> opref \<Rightarrow> nat \<Rightarrow> vref \<Rightarrow> Funcdata \<Rightarrow> Funcdata \<Rightarrow> bool" where
  "rewritesRead vn op i new fd fd1 =
     (opsKept fd fd1
      \<and> (\<forall>x. x < op_count fd \<longrightarrow> x \<noteq> op \<longrightarrow> op_inrefs (obank fd1 x) = op_inrefs (obank fd x))
      \<and> op_inrefs (obank fd1 op) = (op_inrefs (obank fd op))[i := Some new]
      \<and> vn_descend (vbank fd1 vn) = remove1 op (vn_descend (vbank fd vn)))"

text \<open>
  The place of the COPY \<open>c\<close> that descend2Undef makes for the read in slot
  \<open>i\<close> of the marker op \<open>x\<close>.  For a MULTIEQUAL it is in the block of in-edge
  \<open>i\<close>, after every op the block had that does not break the flow, and only ops
  that break the flow and COPYs made by the routine come after it.  For an INDIRECT it
  is in the block of the op and in front of the op, with only INDIRECTs and COPYs made
  by the routine in between.
\<close>

definition copyPlaced :: "Funcdata \<Rightarrow> Funcdata \<Rightarrow> opref \<Rightarrow> nat \<Rightarrow> opref \<Rightarrow> bool" where
  "copyPlaced fd fd1 x i c =
     (\<exists>p. op_parent (obank fd x) = Some p
        \<and> (code (obank fd x) = Some CPUI_MULTIEQUAL \<longrightarrow>
             i < length (bl_intothis (bblocks fd p))
             \<and> op_parent (obank fd1 c) = Some (bl_intothis (bblocks fd p) ! i)
             \<and> (\<forall>y \<in> set (bl_op (bblocks fd (bl_intothis (bblocks fd p) ! i))).
                   \<not> isFlowBreak (obank fd y)
                   \<longrightarrow> follows (\<lambda>z. True) (bl_op (bblocks fd1 (bl_intothis (bblocks fd p) ! i))) y c)
             \<and> allAfter (\<lambda>y. op_count fd \<le> y \<or> isFlowBreak (obank fd y))
                  (bl_op (bblocks fd1 (bl_intothis (bblocks fd p) ! i))) c)
        \<and> (code (obank fd x) = Some CPUI_INDIRECT \<longrightarrow>
             op_parent (obank fd1 c) = Some p
             \<and> c \<in> set (bl_op (bblocks fd1 p))
             \<and> (x \<in> set (bl_op (bblocks fd p)) \<longrightarrow>
                  follows (\<lambda>y. op_count fd \<le> y \<or> code (obank fd y) = Some CPUI_INDIRECT)
                    (bl_op (bblocks fd1 p)) c x)))"

text \<open>
  What has become of the reads of \<open>vn\<close> on the way from \<open>fd\<close> to
  \<open>fd1\<close>: a slot of an op of \<open>fd\<close> holds what it held, or it held
  \<open>vn\<close> and now, in a marker op, holds the output of a COPY of the constant made
  since then (a COPY out of \<open>S\<close>, placed as copyPlaced says if \<open>pl\<close> is
  set), and in any other op a constant made since then.
\<close>

definition readsVia ::
  "vref \<Rightarrow> uintb \<Rightarrow> int \<Rightarrow> opref set \<Rightarrow> bool \<Rightarrow> Funcdata \<Rightarrow> Funcdata \<Rightarrow> bool" where
  "readsVia vn val sz S pl fd fd1 =
     (\<forall>x i. x < op_count fd \<longrightarrow>
        getIn (obank fd1 x) i = getIn (obank fd x) i
        \<or> (getIn (obank fd x) i = Some vn
           \<and> (if isMarker (obank fd x)
              then (\<exists>c u k. c \<in> S \<and> op_count fd \<le> c \<and> c < op_count fd1
                      \<and> create_index fd \<le> u \<and> u < create_index fd1
                      \<and> create_index fd \<le> k \<and> k < create_index fd1
                      \<and> markerReadsCopy fd1 x i c u k val sz
                      \<and> (pl \<longrightarrow> copyPlaced fd fd1 x i c))
              else (\<exists>k. getIn (obank fd1 x) i = Some k
                      \<and> create_index fd \<le> k \<and> k < create_index fd1
                      \<and> isConstant (vbank fd1 k)
                      \<and> vn_loc (vbank fd1 k) = Address constant_space val
                      \<and> vn_size (vbank fd1 k) = sz))))"

text \<open>
  The reads that are still to be rewritten when the loop has the readers \<open>rest\<close>
  before it: an op has \<open>vn\<close> in as many slots as it is listed among the readers of
  \<open>vn\<close>, and an op the loop does not skip is listed as often as it is in
  \<open>rest\<close>.
\<close>

definition pendingReads :: "vref \<Rightarrow> (opref \<Rightarrow> bool) \<Rightarrow> opref list \<Rightarrow> nat \<Rightarrow> Funcdata \<Rightarrow> bool" where
  "pendingReads vn live rest n fd =
     ((\<forall>x \<in> set rest. x < n)
      \<and> (\<forall>x. x < n \<longrightarrow>
             count_list (op_inrefs (obank fd x)) (Some vn) = count_list (vn_descend (vbank fd vn)) x
             \<and> count_list rest x \<le> count_list (vn_descend (vbank fd vn)) x
             \<and> (live x \<longrightarrow> count_list (vn_descend (vbank fd vn)) x = count_list rest x)))"

text \<open>
  The hypotheses of the two routines on the store.  The Varnode and its readers exist,
  every op in the list of a block exists, and an op has \<open>vn\<close> in as many slots as
  it is listed among the readers of \<open>vn\<close> (readersLinked).  For descend2Undef every
  reader is in a block, and a MULTIEQUAL in a block that is not dead has no more inputs
  than its block has in-edges (undefReady).  The loop of descend2Undef skips the readers
  in dead blocks (inLiveBlock).
\<close>

definition readersLinked :: "vref \<Rightarrow> Funcdata \<Rightarrow> bool" where
  "readersLinked vn fd =
     (vn < create_index fd
      \<and> (\<forall>op \<in> set (vn_descend (vbank fd vn)). op < op_count fd)
      \<and> (\<forall>op. op < op_count fd \<longrightarrow>
             count_list (op_inrefs (obank fd op)) (Some vn) = count_list (vn_descend (vbank fd vn)) op)
      \<and> (\<forall>b. \<forall>y \<in> set (bl_op (bblocks fd b)). y < op_count fd))"

definition inLiveBlock :: "Funcdata \<Rightarrow> opref \<Rightarrow> bool" where
  "inLiveBlock fd op =
     (case op_parent (obank fd op) of
        None \<Rightarrow> False
      | Some p \<Rightarrow> \<not> bl_dead (bblocks fd p))"

definition undefReady :: "vref \<Rightarrow> Funcdata \<Rightarrow> bool" where
  "undefReady vn fd =
     (\<forall>op \<in> set (vn_descend (vbank fd vn)).
        case op_parent (obank fd op) of
          None \<Rightarrow> False
        | Some p \<Rightarrow>
            code (obank fd op) = Some CPUI_MULTIEQUAL \<longrightarrow> \<not> bl_dead (bblocks fd p)
            \<longrightarrow> numInput (obank fd op) \<le> length (bl_intothis (bblocks fd p)))"

text \<open>
  The place of the one COPY \<open>c\<close> that totalReplaceConstant makes.  If \<open>vn\<close>
  has a defining op, the COPY is in the block of the op behind which opInsertAfter
  inserts, behind that op and the MULTIEQUALs that follow it directly; if \<open>vn\<close> has
  no defining op, it is in block 0 behind the leading MULTIEQUALs.  No other list of a
  block changes.
\<close>

definition copyAfterDef :: "Funcdata \<Rightarrow> Funcdata \<Rightarrow> vref \<Rightarrow> opref \<Rightarrow> bool" where
  "copyAfterDef fd fd1 vn c =
     (case vn_def (vbank fd vn) of
        None \<Rightarrow>
          op_parent (obank fd1 c) = Some 0
          \<and> (\<forall>b. bl_op (bblocks fd1 b) =
                 (if b = 0
                  then takeWhile (\<lambda>x. code (obank fd x) = Some CPUI_MULTIEQUAL) (bl_op (bblocks fd 0))
                       @ [c]
                       @ dropWhile (\<lambda>x. code (obank fd x) = Some CPUI_MULTIEQUAL) (bl_op (bblocks fd 0))
                  else bl_op (bblocks fd b)))
      | Some d \<Rightarrow>
          (\<exists>prev pd. insertAfterTarget fd d = Some prev
             \<and> op_parent (obank fd prev) = Some pd
             \<and> op_parent (obank fd1 c) = Some pd
             \<and> (\<forall>b. bl_op (bblocks fd1 b) =
                    (if b = pd
                     then (let ops = bl_op (bblocks fd pd);
                               n = Suc (getBasicIter ops prev);
                               j = skipMultiequal fd (drop n ops) n
                           in take j ops @ [c] @ drop j ops)
                     else bl_op (bblocks fd b)))))"

text \<open>
  The hypothesis of totalReplaceConstant on the defining op of \<open>vn\<close>, needed when
  a marker op reads \<open>vn\<close>: the defining op exists, the op behind which opInsertAfter
  inserts exists and is in a block, and input 1 of a defining INDIRECT exists.
\<close>

definition copyReady :: "vref \<Rightarrow> Funcdata \<Rightarrow> bool" where
  "copyReady vn fd =
     (case vn_def (vbank fd vn) of
        None \<Rightarrow> True
      | Some d \<Rightarrow>
          d < op_count fd
          \<and> (code (obank fd d) = Some CPUI_INDIRECT \<longrightarrow>
               (\<forall>invn. getIn (obank fd d) 1 = Some invn \<longrightarrow> invn < create_index fd))
          \<and> (case insertAfterTarget fd d of
                None \<Rightarrow> False
              | Some prev \<Rightarrow> prev < op_count fd \<and> op_parent (obank fd prev) \<noteq> None))"

definition replaceReady :: "vref \<Rightarrow> Funcdata \<Rightarrow> bool" where
  "replaceReady vn fd =
     ((\<exists>op \<in> set (vn_descend (vbank fd vn)). isMarker (obank fd op)) \<longrightarrow> copyReady vn fd)"

text \<open>
  The variable copyop of totalReplaceConstant in the state \<open>fd1\<close> of a run from
  \<open>fd\<close>: no op has been made yet, or the one COPY of the constant has been made, is
  in its place, and a marker op of \<open>fd\<close> reads its output.
\<close>

definition singleCopy :: "vref \<Rightarrow> uintb \<Rightarrow> Funcdata \<Rightarrow> Funcdata \<Rightarrow> opref option \<Rightarrow> bool" where
  "singleCopy vn val fd fd1 cp =
     (case cp of
        None \<Rightarrow> op_count fd1 = op_count fd
      | Some c \<Rightarrow>
          c = op_count fd \<and> op_count fd1 = Suc (op_count fd) \<and> copyAfterDef fd fd1 vn c
          \<and> (\<exists>x i u k. x < op_count fd
                \<and> create_index fd \<le> u \<and> u < create_index fd1
                \<and> create_index fd \<le> k \<and> k < create_index fd1
                \<and> markerReadsCopy fd1 x i c u k val (vn_size (vbank fd vn))))"

subsection \<open>Input Varnodes (funcdata\_varnode.cc)\<close>

text \<open>
  Addresses are ordered by the index of their space and then by their offset;
  adding to an address wraps around (the spaces of the model are 64 bits wide).
\<close>

definition addr_less :: "Address \<Rightarrow> Address \<Rightarrow> bool" where
  "addr_less a b =
     (getIndex (getSpace a) < getIndex (getSpace b)
      \<or> (getIndex (getSpace a) = getIndex (getSpace b) \<and> getOffset a < getOffset b))"

definition addr_add :: "Address \<Rightarrow> int \<Rightarrow> Address" where
  "addr_add a n = Address (getSpace a) (getOffset a + word_of_int n)"

text \<open>
  Varnode::overlap (varnode.hh, address.cc; not part of the sources at hand): the
  number of bytes from the start of \<open>b\<close> to the first byte of \<open>a\<close> when that byte
  lies in \<open>b\<close>, and -1 otherwise; Varnodes of different spaces and constants never
  overlap.
\<close>

definition overlap :: "Varnode \<Rightarrow> Varnode \<Rightarrow> int" where
  "overlap a b =
     (if getSpace (vn_loc a) \<noteq> getSpace (vn_loc b) then - 1
      else if getType (getSpace (vn_loc a)) = IPTR_CONSTANT then - 1
      else (let dist = getOffset (vn_loc a) - getOffset (vn_loc b)
            in if vn_size b \<le> uint dist then - 1 else uint dist))"

text \<open>
  The bank keeps its Varnodes in a set ordered by definition: the inputs come first,
  ordered by address and then size.  \<open>beginDef(input, addr)\<close> is the first Varnode of
  that set that is not an input before \<open>addr\<close>; when it is not the first of the set,
  the Varnode in front of it is the last input before \<open>addr\<close>.
\<close>

definition defKeyLess :: "Varnode \<Rightarrow> Varnode \<Rightarrow> bool" where
  "defKeyLess a b =
     (addr_less (vn_loc a) (vn_loc b)
      \<or> (\<not> addr_less (vn_loc b) (vn_loc a) \<and> vn_size a < vn_size b))"

definition inputsBefore :: "Funcdata \<Rightarrow> Address \<Rightarrow> vref list" where
  "inputsBefore fd bound =
     filter (\<lambda>v. isInput (vbank fd v) \<and> addr_less (vn_loc (vbank fd v)) bound)
       [0..<create_index fd]"

fun lastByKey :: "Funcdata \<Rightarrow> vref list \<Rightarrow> vref \<Rightarrow> vref" where
  "lastByKey fd [] best = best"
| "lastByKey fd (v # vs) best =
     lastByKey fd vs (if defKeyLess (vbank fd best) (vbank fd v) then v else best)"

definition defPredecessor :: "Funcdata \<Rightarrow> Address \<Rightarrow> vref option" where
  "defPredecessor fd bound =
     (case inputsBefore fd bound of
        [] \<Rightarrow> None
      | v # vs \<Rightarrow> Some (lastByKey fd vs v))"

text \<open>
  VarnodeBank::setInput, modelled from the specification (the variable factories create
  inputs): the Varnode gets the input property.  Varnode::setUnaffected and
  setReturnAddress set the properties of these names.
\<close>

definition vbank_setInput :: "vref \<Rightarrow> Funcdata \<Rightarrow> Funcdata" where
  "vbank_setInput v fd =
     fd\<lparr>vbank := (vbank fd)(v := (vbank fd v)\<lparr>vn_flags := insert vn_input (vn_flags (vbank fd v))\<rparr>)\<rparr>"

definition setFlag :: "VnFlag \<Rightarrow> vref \<Rightarrow> Funcdata \<Rightarrow> Funcdata" where
  "setFlag fl v fd =
     fd\<lparr>vbank := (vbank fd)(v := (vbank fd v)\<lparr>vn_flags := insert fl (vn_flags (vbank fd v))\<rparr>)\<rparr>"

definition setInputVarnode :: "vref \<Rightarrow> Funcdata \<Rightarrow> error + vref \<times> Funcdata" where
  "setInputVarnode vn fd =
     (if isInput (vbank fd vn) then Inr (vn, fd)
      else
        (case (case defPredecessor fd (addr_add (vn_loc (vbank fd vn)) (vn_size (vbank fd vn))) of
                 None \<Rightarrow> Inr None
               | Some invn \<Rightarrow>
                   if isInput (vbank fd invn)
                   then (if - 1 \<noteq> overlap (vbank fd vn) (vbank fd invn)
                            \<or> - 1 \<noteq> overlap (vbank fd invn) (vbank fd vn)
                         then (if vn_size (vbank fd vn) = vn_size (vbank fd invn)
                                  \<and> vn_loc (vbank fd vn) = vn_loc (vbank fd invn)
                               then Inr (Some invn)
                               else Inl LowlevelError)
                         else Inr None)
                   else Inr None) of
           Inl e \<Rightarrow> Inl e
         | Inr (Some invn) \<Rightarrow> Inr (invn, fd)
         | Inr None \<Rightarrow>
             (let fd1 = setVarnodeProperties vn (vbank_setInput vn fd);
                  effecttype = hasEffect fd1 (vn_loc (vbank fd1 vn)) (vn_size (vbank fd1 vn));
                  fd2 = (if effecttype = unaffected then setFlag vn_unaffected vn fd1 else fd1);
                  fd3 = (if effecttype = return_address
                         then setFlag vn_return_address vn (setFlag vn_unaffected vn fd2)
                         else fd2)
              in Inr (vn, fd3))))"

text \<open>
  Well-formed inputs of the bank, with respect to a Varnode \<open>vn\<close> that is to become an
  input: \<open>vn\<close> and every input have a positive size and do not wrap around the end of
  their space, a space is determined by its index, and no two inputs share a byte.
\<close>

definition rangeOk :: "Varnode \<Rightarrow> bool" where
  "rangeOk v = (0 < vn_size v \<and> uint (getOffset (vn_loc v)) + vn_size v < 2 ^ 64
                \<and> getType (getSpace (vn_loc v)) \<noteq> IPTR_CONSTANT)"

definition sharesByte :: "Varnode \<Rightarrow> Varnode \<Rightarrow> bool" where
  "sharesByte a b =
     (getSpace (vn_loc a) = getSpace (vn_loc b)
      \<and> uint (getOffset (vn_loc a)) < uint (getOffset (vn_loc b)) + vn_size b
      \<and> uint (getOffset (vn_loc b)) < uint (getOffset (vn_loc a)) + vn_size a)"

definition inputsOf :: "Funcdata \<Rightarrow> vref list" where
  "inputsOf fd = filter (\<lambda>v. isInput (vbank fd v)) [0..<create_index fd]"

definition inputsWellFormed :: "Funcdata \<Rightarrow> vref \<Rightarrow> bool" where
  "inputsWellFormed fd vn =
     (rangeOk (vbank fd vn)
      \<and> list_all (\<lambda>v. rangeOk (vbank fd v)
             \<and> (getIndex (getSpace (vn_loc (vbank fd v))) = getIndex (getSpace (vn_loc (vbank fd vn)))
                  \<longrightarrow> getSpace (vn_loc (vbank fd v)) = getSpace (vn_loc (vbank fd vn)))
             \<and> list_all (\<lambda>w. v \<noteq> w \<longrightarrow> \<not> sharesByte (vbank fd v) (vbank fd w)) (inputsOf fd))
          (inputsOf fd))"

subsection \<open>Uses and ancestors of a trial Varnode (funcdata\_varnode.cc)\<close>

definition isMark :: "Varnode \<Rightarrow> bool" where
  "isMark vn = (vn_mark \<in> vn_flags vn)"

definition isPersist :: "Varnode \<Rightarrow> bool" where
  "isPersist vn = (vn_persist \<in> vn_flags vn)"

definition isTypeLock :: "Varnode \<Rightarrow> bool" where
  "isTypeLock vn = (vn_typelock \<in> vn_flags vn)"

definition isAddrForce :: "Varnode \<Rightarrow> bool" where
  "isAddrForce vn = (vn_addrforce \<in> vn_flags vn)"

definition isUnaffected :: "Varnode \<Rightarrow> bool" where
  "isUnaffected vn = (vn_unaffected \<in> vn_flags vn)"

definition isDirectWrite :: "Varnode \<Rightarrow> bool" where
  "isDirectWrite vn = (vn_directwrite \<in> vn_flags vn)"

definition isIncidentalCopy :: "Varnode \<Rightarrow> bool" where
  "isIncidentalCopy vn = (vn_incidental_copy \<in> vn_flags vn)"

definition isReturnAddress :: "Varnode \<Rightarrow> bool" where
  "isReturnAddress vn = (vn_return_address \<in> vn_flags vn)"

text \<open>Varnode::isIndirectZero: a constant created by an INDIRECT.\<close>

definition isIndirectZero :: "Varnode \<Rightarrow> bool" where
  "isIndirectZero vn = (vn_indirect_creation \<in> vn_flags vn \<and> vn_constant \<in> vn_flags vn)"

definition isIndirectCreation :: "PcodeOp \<Rightarrow> bool" where
  "isIndirectCreation op = (op_indirect_creation \<in> op_flags op)"

definition setMark :: "vref \<Rightarrow> Funcdata \<Rightarrow> Funcdata" where
  "setMark v fd = setFlag vn_mark v fd"

definition clearMark :: "vref \<Rightarrow> Funcdata \<Rightarrow> Funcdata" where
  "clearMark v fd =
     fd\<lparr>vbank := (vbank fd)(v := (vbank fd v)\<lparr>vn_flags := vn_flags (vbank fd v) - {vn_mark}\<rparr>)\<rparr>"

definition setRemFormed :: "ParamTrial \<Rightarrow> ParamTrial" where
  "setRemFormed t = t\<lparr>pt_flags := insert pt_rem_formed (pt_flags t)\<rparr>"

definition setIndCreateFormed :: "ParamTrial \<Rightarrow> ParamTrial" where
  "setIndCreateFormed t = t\<lparr>pt_flags := insert pt_indcreate_formed (pt_flags t)\<rparr>"

definition setCondExeEffect :: "ParamTrial \<Rightarrow> ParamTrial" where
  "setCondExeEffect t = t\<lparr>pt_flags := insert pt_condexe_effect (pt_flags t)\<rparr>"


definition isKilledByCall :: "ParamTrial \<Rightarrow> bool" where
  "isKilledByCall t = (pt_killedbycall \<in> pt_flags t)"

text \<open>
  Funcdata::onlyOpUse.  The switch on the reading op \<open>op\<close> of \<open>vn\<close> either goes on to
  the next reader (continue), or sets the result to false, or falls through to the
  output of the reader.
\<close>

datatype UseKind = use_continue | use_reject | use_follow

definition onlyOpUse_switch ::
  "Funcdata \<Rightarrow> opref \<Rightarrow> ParamTrial \<Rightarrow> vref \<Rightarrow> opref \<Rightarrow> UseKind" where
  "onlyOpUse_switch fd opmatch trial vn op =
     (if op = opmatch \<and> getIn (obank fd op) (pt_slot trial) = Some vn then use_continue
      else (case code (obank fd op) of
              Some CPUI_BRANCH \<Rightarrow> use_reject
            | Some CPUI_CBRANCH \<Rightarrow> use_reject
            | Some CPUI_BRANCHIND \<Rightarrow> use_reject
            | Some CPUI_LOAD \<Rightarrow> use_reject
            | Some CPUI_STORE \<Rightarrow> use_reject
            | Some CPUI_CALL \<Rightarrow>
                if callDoubleUse fd opmatch op vn trial then use_continue else use_reject
            | Some CPUI_CALLIND \<Rightarrow>
                if callDoubleUse fd opmatch op vn trial then use_continue else use_reject
            | Some CPUI_RETURN \<Rightarrow>
                if code (obank fd opmatch) = Some CPUI_RETURN
                   \<and> getIn (obank fd op) (pt_slot trial) = Some vn
                then use_continue else use_reject
            | _ \<Rightarrow> use_follow))"

text \<open>
  The body of the loop over the readers of \<open>vn\<close>: the result so far, the work list and
  the store (which holds the marks) after one reader.
\<close>

definition onlyOpUse_op ::
  "opref \<Rightarrow> ParamTrial \<Rightarrow> vref \<Rightarrow> opref \<Rightarrow> vref list \<Rightarrow> Funcdata
     \<Rightarrow> bool \<times> vref list \<times> Funcdata" where
  "onlyOpUse_op opmatch trial vn op varlist fd =
     (case onlyOpUse_switch fd opmatch trial vn op of
        use_continue \<Rightarrow> (True, varlist, fd)
      | use_reject \<Rightarrow> (False, varlist, fd)
      | use_follow \<Rightarrow>
          (case op_output (obank fd op) of
             None \<Rightarrow> (True, varlist, fd)
           | Some subvn \<Rightarrow>
               if isPersist (vbank fd subvn) then (False, varlist, fd)
               else if \<not> isMark (vbank fd subvn)
               then (True, varlist @ [subvn], setMark subvn fd)
               else (True, varlist, fd)))"

fun onlyOpUse_descend ::
  "opref \<Rightarrow> ParamTrial \<Rightarrow> vref \<Rightarrow> opref list \<Rightarrow> vref list \<Rightarrow> Funcdata
     \<Rightarrow> bool \<times> vref list \<times> Funcdata" where
  "onlyOpUse_descend opmatch trial vn [] varlist fd = (True, varlist, fd)"
| "onlyOpUse_descend opmatch trial vn (op # ops) varlist fd =
     (case onlyOpUse_op opmatch trial vn op varlist fd of
        (res, varlist1, fd1) \<Rightarrow>
          if res then onlyOpUse_descend opmatch trial vn ops varlist1 fd1
          else (False, varlist1, fd1))"

text \<open>
  The loop over the work list, from index \<open>i\<close>.  It ends when the list is exhausted
  or a use is found; a run that does not end has the value \<open>None\<close>.
\<close>

partial_function (option) onlyOpUse_loop ::
  "opref \<Rightarrow> ParamTrial \<Rightarrow> nat \<Rightarrow> vref list \<Rightarrow> Funcdata
     \<Rightarrow> (bool \<times> vref list \<times> Funcdata) option" where
  "onlyOpUse_loop opmatch trial i varlist fd =
     (if i < length varlist
      then (case onlyOpUse_descend opmatch trial (varlist ! i)
                   (vn_descend (vbank fd (varlist ! i))) varlist fd of
              (res, varlist1, fd1) \<Rightarrow>
                if res then onlyOpUse_loop opmatch trial (i + 1) varlist1 fd1
                else Some (False, varlist1, fd1))
      else Some (True, varlist, fd))"

declare onlyOpUse_loop.simps [code]

definition onlyOpUse ::
  "vref \<Rightarrow> opref \<Rightarrow> ParamTrial \<Rightarrow> Funcdata \<Rightarrow> (bool \<times> Funcdata) option" where
  "onlyOpUse invn opmatch trial fd =
     (case onlyOpUse_loop opmatch trial 0 [invn] (setMark invn fd) of
        None \<Rightarrow> None
      | Some (res, varlist, fd1) \<Rightarrow> Some (res, fold clearMark varlist fd1))"

text \<open>
  Funcdata::ancestorOpUse.  \<open>maxlevel\<close> is a 32-bit integer.  The first argument of the
  model is the number of nested recursive calls that are still allowed: a run that
  needs a deeper recursion has the value \<open>None\<close>, as has a run in which onlyOpUse
  does not return.  The result is the verdict, the trial and the store; reading through
  a null pointer is the error \<open>BadAccess\<close>.
\<close>

type_synonym int4 = "32 word"

definition subpieceOfRem :: "Funcdata \<Rightarrow> opref \<Rightarrow> error + bool" where
  "subpieceOfRem fd d =
     (case getIn (obank fd d) 1 of
        None \<Rightarrow> Inl BadAccess
      | Some in1 \<Rightarrow>
          if getOffset (vn_loc (vbank fd in1)) = 0
          then (case getIn (obank fd d) 0 of
                  None \<Rightarrow> Inl BadAccess
                | Some vn \<Rightarrow>
                    (case vn_def (vbank fd vn) of
                       None \<Rightarrow> Inr False
                     | Some remop \<Rightarrow>
                         Inr (code (obank fd remop) = Some CPUI_INT_REM
                              \<or> code (obank fd remop) = Some CPUI_INT_SREM)))
          else Inr False)"

definition onlyOpUse_result ::
  "vref \<Rightarrow> opref \<Rightarrow> ParamTrial \<Rightarrow> Funcdata \<Rightarrow> (error + bool \<times> ParamTrial \<times> Funcdata) option" where
  "onlyOpUse_result invn op trial fd =
     (case onlyOpUse invn op trial fd of
        None \<Rightarrow> None
      | Some (res, fd1) \<Rightarrow> Some (Inr (res, trial, fd1)))"

fun ancestorOpUse ::
  "nat \<Rightarrow> int4 \<Rightarrow> vref \<Rightarrow> opref \<Rightarrow> ParamTrial \<Rightarrow> Funcdata
     \<Rightarrow> (error + bool \<times> ParamTrial \<times> Funcdata) option"
and ancestorOpUse_inputs ::
  "nat \<Rightarrow> int4 \<Rightarrow> vref option list \<Rightarrow> opref \<Rightarrow> ParamTrial \<Rightarrow> Funcdata
     \<Rightarrow> (error + bool \<times> ParamTrial \<times> Funcdata) option" where
  "ancestorOpUse depth maxlevel invn op trial fd =
     (if maxlevel = 0 then Some (Inr (False, trial, fd))
      else (case vn_def (vbank fd invn) of
              None \<Rightarrow>
                if \<not> isInput (vbank fd invn) then Some (Inr (False, trial, fd))
                else if \<not> isTypeLock (vbank fd invn) then Some (Inr (False, trial, fd))
                else onlyOpUse_result invn op trial fd
            | Some d \<Rightarrow>
                (case code (obank fd d) of
                   Some CPUI_INDIRECT \<Rightarrow>
                     if isIndirectCreation (obank fd d) then Some (Inr (False, trial, fd))
                     else ancestorOpUse_inputs depth maxlevel (op_inrefs (obank fd d)) op trial fd
                 | Some CPUI_MULTIEQUAL \<Rightarrow>
                     ancestorOpUse_inputs depth maxlevel (op_inrefs (obank fd d)) op trial fd
                 | Some CPUI_COPY \<Rightarrow>
                     if getType (getSpace (vn_loc (vbank fd invn))) = IPTR_INTERNAL
                        \<or> isAddrForce (vbank fd invn)
                     then (case getIn (obank fd d) 0 of
                             None \<Rightarrow> Some (Inl BadAccess)
                           | Some in0 \<Rightarrow>
                               (case depth of
                                  0 \<Rightarrow> None
                                | Suc depth1 \<Rightarrow>
                                    ancestorOpUse depth1 (maxlevel - 1) in0 op trial fd))
                     else onlyOpUse_result invn op trial fd
                 | Some CPUI_PIECE \<Rightarrow>
                     (case getIn (obank fd d) 1 of
                        None \<Rightarrow> Some (Inl BadAccess)
                      | Some in1 \<Rightarrow>
                          (case depth of
                             0 \<Rightarrow> None
                           | Suc depth1 \<Rightarrow>
                               ancestorOpUse depth1 (maxlevel - 1) in1 op trial fd))
                 | Some CPUI_SUBPIECE \<Rightarrow>
                     (case subpieceOfRem fd d of
                        Inl e \<Rightarrow> Some (Inl e)
                      | Inr rem \<Rightarrow>
                          onlyOpUse_result invn op (if rem then setRemFormed trial else trial) fd)
                 | Some CPUI_CALL \<Rightarrow> Some (Inr (False, trial, fd))
                 | Some CPUI_CALLIND \<Rightarrow> Some (Inr (False, trial, fd))
                 | _ \<Rightarrow> onlyOpUse_result invn op trial fd)))"
| "ancestorOpUse_inputs depth maxlevel [] op trial fd = Some (Inr (False, trial, fd))"
| "ancestorOpUse_inputs depth maxlevel (x # xs) op trial fd =
     (case x of
        None \<Rightarrow> Some (Inl BadAccess)
      | Some v \<Rightarrow>
          (case depth of
             0 \<Rightarrow> None
           | Suc depth1 \<Rightarrow>
               (case ancestorOpUse depth1 (maxlevel - 1) v op trial fd of
                  None \<Rightarrow> None
                | Some (Inl e) \<Rightarrow> Some (Inl e)
                | Some (Inr (res, trial1, fd1)) \<Rightarrow>
                    if res then Some (Inr (True, trial1, fd1))
                    else ancestorOpUse_inputs depth maxlevel xs op trial1 fd1)))"

text \<open>
  The store is closed when the Varnodes that the ops around a Varnode of the bank refer
  to are Varnodes of the bank: the output of every reader, and the inputs of the
  defining op.
\<close>

definition closedStore :: "Funcdata \<Rightarrow> bool" where
  "closedStore fd =
     list_all (\<lambda>v.
         list_all (\<lambda>op. case op_output (obank fd op) of
                          None \<Rightarrow> True | Some w \<Rightarrow> w < create_index fd)
           (vn_descend (vbank fd v))
         \<and> (case vn_def (vbank fd v) of
               None \<Rightarrow> True
             | Some d \<Rightarrow> list_all (\<lambda>r. case r of None \<Rightarrow> True | Some w \<Rightarrow> w < create_index fd)
                           (op_inrefs (obank fd d))))
       [0..<create_index fd]"

text \<open>
  Two stores have the same links when they agree on the ops, on the allocation counter
  and on the readers and the defining op of every Varnode: they differ in properties of
  Varnodes only.
\<close>

definition sameLinks :: "Funcdata \<Rightarrow> Funcdata \<Rightarrow> bool" where
  "sameLinks fd fd1 =
     (obank fd1 = obank fd \<and> create_index fd1 = create_index fd
      \<and> (\<forall>v. vn_descend (vbank fd1 v) = vn_descend (vbank fd v)
              \<and> vn_def (vbank fd1 v) = vn_def (vbank fd v)))"

text \<open>
  The work list of onlyOpUse holds marked Varnodes of the bank, each of them once.
\<close>

definition worklistOk :: "vref list \<Rightarrow> Funcdata \<Rightarrow> bool" where
  "worklistOk varlist fd =
     (distinct varlist
      \<and> list_all (\<lambda>v. v < create_index fd \<and> isMark (vbank fd v)) varlist)"

subsection \<open>AncestorRealistic (funcdata.hh, funcdata\_varnode.cc)\<close>

text \<open>
  The commands of the depth-first traversal and the node of the traversal stack
  (AncestorRealistic::State).  The constructor reads the Varnode of the slot.
\<close>

datatype Command = enter_node | pop_success | pop_solid | pop_fail | pop_failkill

datatype StateFlag = seen_solid0 | seen_solid1 | seen_kill

record State =
  st_op :: opref
  st_vn :: "vref option"
  st_slot :: nat
  st_flags :: "StateFlag set"

definition new_State :: "Funcdata \<Rightarrow> opref \<Rightarrow> nat \<Rightarrow> State" where
  "new_State fd op slot =
     \<lparr>st_op = op, st_vn = getIn (obank fd op) slot, st_slot = slot, st_flags = {}\<rparr>"

definition getSolidSlot :: "State \<Rightarrow> nat" where
  "getSolidSlot st = (if seen_solid0 \<in> st_flags st then 0 else 1)"

definition markSolid :: "nat \<Rightarrow> State \<Rightarrow> State" where
  "markSolid slot st =
     st\<lparr>st_flags := insert (if slot = 0 then seen_solid0 else seen_solid1) (st_flags st)\<rparr>"

definition markKill :: "State \<Rightarrow> State" where
  "markKill st = st\<lparr>st_flags := insert seen_kill (st_flags st)\<rparr>"

definition seenSolid :: "State \<Rightarrow> bool" where
  "seenSolid st = (seen_solid0 \<in> st_flags st \<or> seen_solid1 \<in> st_flags st)"

definition seenKill :: "State \<Rightarrow> bool" where
  "seenKill st = (seen_kill \<in> st_flags st)"

text \<open>
  The fields of AncestorRealistic.  The head of the list \<open>stateStack\<close> is the back of
  the vector, that is the top of the stack; the element \<open>stateStack[size - 2]\<close> is the
  second of the list.
\<close>

record AncestorRealistic =
  ar_trial :: ParamTrial
  stateStack :: "State list"
  markedVn :: "vref list"
  multiDepth :: int
  allowFailingPath :: bool

definition mark :: "vref \<Rightarrow> AncestorRealistic \<Rightarrow> Funcdata \<Rightarrow> AncestorRealistic \<times> Funcdata" where
  "mark vn ar fd = (ar\<lparr>markedVn := markedVn ar @ [vn]\<rparr>, setMark vn fd)"

definition checkConditionalExe :: "Funcdata \<Rightarrow> State \<Rightarrow> error + bool" where
  "checkConditionalExe fd state =
     (case op_parent (obank fd (st_op state)) of
        None \<Rightarrow> Inl BadAccess
      | Some bl \<Rightarrow>
          if length (bl_intothis (bblocks fd bl)) \<noteq> 2 then Inr False
          else (let solidBlock = bl_intothis (bblocks fd bl) ! getSolidSlot state
                in if length (bl_outofthis (bblocks fd solidBlock)) \<noteq> 1 then Inr False
                   else Inr True))"

text \<open>
  The loop of enterNode over a chain of COPY and SUBPIECE ops, from the op \<open>op\<close>: it
  fails on an input that is unaffected or not written directly, and reports a solid
  movement at the end of the chain.
\<close>

partial_function (option) enterNode_chain :: "Funcdata \<Rightarrow> opref \<Rightarrow> (error + Command) option" where
  "enterNode_chain fd op =
     (case getIn (obank fd op) 0 of
        None \<Rightarrow> Some (Inl BadAccess)
      | Some vn \<Rightarrow>
          if \<not> isMark (vbank fd vn) \<and> isInput (vbank fd vn)
             \<and> (isUnaffected (vbank fd vn) \<or> \<not> isDirectWrite (vbank fd vn))
          then Some (Inr pop_fail)
          else (case vn_def (vbank fd vn) of
                  None \<Rightarrow> Some (Inr pop_solid)
                | Some op1 \<Rightarrow>
                    if code (obank fd op1) = Some CPUI_COPY
                       \<or> code (obank fd op1) = Some CPUI_SUBPIECE
                    then enterNode_chain fd op1
                    else Some (Inr pop_solid)))"

declare enterNode_chain.simps [code]

definition push_State :: "opref \<Rightarrow> AncestorRealistic \<Rightarrow> Funcdata \<Rightarrow> AncestorRealistic" where
  "push_State op ar fd = ar\<lparr>stateStack := new_State fd op 0 # stateStack ar\<rparr>"

definition enterNode_indirect ::
  "opref \<Rightarrow> AncestorRealistic \<Rightarrow> Funcdata \<Rightarrow> error + Command \<times> AncestorRealistic \<times> Funcdata" where
  "enterNode_indirect op ar fd =
     (if isIndirectCreation (obank fd op)
      then (let ar1 = ar\<lparr>ar_trial := setIndCreateFormed (ar_trial ar)\<rparr>
            in case getIn (obank fd op) 0 of
                 None \<Rightarrow> Inl BadAccess
               | Some in0 \<Rightarrow>
                   if isIndirectZero (vbank fd in0) then Inr (pop_failkill, ar1, fd)
                   else Inr (pop_success, ar1, fd))
      else (case getIn (obank fd op) 1 of
              None \<Rightarrow> Inl BadAccess
            | Some in1 \<Rightarrow>
                (let indop = getOpFromConst (vn_loc (vbank fd in1))
                 in if isCall (obank fd indop)
                    then (case op_output (obank fd op) of
                            None \<Rightarrow> Inl BadAccess
                          | Some out \<Rightarrow>
                              if isReturnAddress (vbank fd out) then Inr (pop_fail, ar, fd)
                              else if isKilledByCall (ar_trial ar) then Inr (pop_fail, ar, fd)
                              else Inr (enter_node, push_State op ar fd, fd))
                    else Inr (enter_node, push_State op ar fd, fd))))"

definition enterNode_copy ::
  "opref \<Rightarrow> AncestorRealistic \<Rightarrow> Funcdata
     \<Rightarrow> (error + Command \<times> AncestorRealistic \<times> Funcdata) option" where
  "enterNode_copy op ar fd =
     (case op_output (obank fd op) of
        None \<Rightarrow> Some (Inl BadAccess)
      | Some out \<Rightarrow>
          if getType (getSpace (vn_loc (vbank fd out))) = IPTR_INTERNAL
          then Some (Inr (enter_node, push_State op ar fd, fd))
          else (case getIn (obank fd op) 0 of
                  None \<Rightarrow> Some (Inl BadAccess)
                | Some in0 \<Rightarrow>
                    if vn_loc (vbank fd out) = vn_loc (vbank fd in0)
                       \<or> isIncidentalCopy (vbank fd in0)
                    then Some (Inr (enter_node, push_State op ar fd, fd))
                    else (case enterNode_chain fd op of
                            None \<Rightarrow> None
                          | Some (Inl e) \<Rightarrow> Some (Inl e)
                          | Some (Inr c) \<Rightarrow> Some (Inr (c, ar, fd)))))"

text \<open>
  AncestorRealistic::enterNode, on the node on top of the stack.  The marks are
  properties of the Varnodes, so the store is part of the result.
\<close>

definition enterNode ::
  "AncestorRealistic \<Rightarrow> Funcdata \<Rightarrow> (error + Command \<times> AncestorRealistic \<times> Funcdata) option" where
  "enterNode ar fd =
     (case stateStack ar of
        [] \<Rightarrow> Some (Inl BadAccess)
      | state # rest \<Rightarrow>
          (case st_vn state of
             None \<Rightarrow> Some (Inl BadAccess)
           | Some vn \<Rightarrow>
               if isMark (vbank fd vn) then Some (Inr (pop_success, ar, fd))
               else (case vn_def (vbank fd vn) of
                       None \<Rightarrow>
                         if isInput (vbank fd vn)
                         then (if isUnaffected (vbank fd vn) then Some (Inr (pop_fail, ar, fd))
                               else if isPersist (vbank fd vn) then Some (Inr (pop_success, ar, fd))
                               else if \<not> isDirectWrite (vbank fd vn) then Some (Inr (pop_fail, ar, fd))
                               else Some (Inr (pop_success, ar, fd)))
                         else Some (Inr (pop_success, ar, fd))
                     | Some op \<Rightarrow>
                         (case mark vn ar fd of
                            (ar1, fd1) \<Rightarrow>
                              (case code (obank fd1 op) of
                                 Some CPUI_INDIRECT \<Rightarrow> Some (enterNode_indirect op ar1 fd1)
                               | Some CPUI_SUBPIECE \<Rightarrow> enterNode_copy op ar1 fd1
                               | Some CPUI_COPY \<Rightarrow> enterNode_copy op ar1 fd1
                               | Some CPUI_MULTIEQUAL \<Rightarrow>
                                   Some (Inr (enter_node,
                                     push_State op (ar1\<lparr>multiDepth := multiDepth ar1 + 1\<rparr>) fd1,
                                     fd1))
                               | _ \<Rightarrow> Some (Inr (pop_solid, ar1, fd1)))))))"

text \<open>
  The verdict of a MULTIEQUAL node once all its inputs have been traversed, from the
  flags of the node below it on the stack.
\<close>

definition uponPop_resolve ::
  "State \<Rightarrow> State \<Rightarrow> AncestorRealistic \<Rightarrow> Funcdata \<Rightarrow> error + Command \<times> ParamTrial" where
  "uponPop_resolve state prevstate ar fd =
     (if seenSolid prevstate
      then (if seenKill prevstate
            then (if allowFailingPath ar
                  then (case checkConditionalExe fd state of
                          Inl e \<Rightarrow> Inl e
                        | Inr ok \<Rightarrow>
                            if \<not> ok then Inr (pop_fail, ar_trial ar)
                            else Inr (pop_success, setCondExeEffect (ar_trial ar)))
                  else Inr (pop_fail, ar_trial ar))
            else Inr (pop_success, ar_trial ar))
      else if seenKill prevstate then Inr (pop_failkill, ar_trial ar)
      else Inr (pop_success, ar_trial ar))"

text \<open>AncestorRealistic::uponPop, on the node on top of the stack.\<close>

definition uponPop ::
  "Command \<Rightarrow> AncestorRealistic \<Rightarrow> Funcdata \<Rightarrow> error + Command \<times> AncestorRealistic" where
  "uponPop pop_command ar fd =
     (case stateStack ar of
        [] \<Rightarrow> Inl BadAccess
      | state # rest \<Rightarrow>
          if code (obank fd (st_op state)) = Some CPUI_MULTIEQUAL
          then (if pop_command = pop_fail
                then Inr (pop_command, ar\<lparr>multiDepth := multiDepth ar - 1, stateStack := rest\<rparr>)
                else (case rest of
                        [] \<Rightarrow> Inl BadAccess
                      | prevstate # below \<Rightarrow>
                          (let prev1 =
                                 (if pop_command = pop_solid \<and> multiDepth ar = 1
                                     \<and> numInput (obank fd (st_op state)) = 2
                                  then markSolid (st_slot state) prevstate
                                  else if pop_command = pop_failkill then markKill prevstate
                                  else prevstate);
                               state1 = state\<lparr>st_slot := st_slot state + 1\<rparr>
                           in if st_slot state1 = numInput (obank fd (st_op state))
                              then (case uponPop_resolve state1 prev1 ar fd of
                                      Inl e \<Rightarrow> Inl e
                                    | Inr (c, t) \<Rightarrow>
                                        Inr (c, ar\<lparr>ar_trial := t, multiDepth := multiDepth ar - 1,
                                                   stateStack := prev1 # below\<rparr>))
                              else Inr (enter_node,
                                     ar\<lparr>stateStack :=
                                          state1\<lparr>st_vn := getIn (obank fd (st_op state))
                                                             (st_slot state1)\<rparr>
                                            # prev1 # below\<rparr>))))
          else Inr (pop_command, ar\<lparr>stateStack := rest\<rparr>))"

text \<open>
  One round of the loop of AncestorRealistic::execute, the loop, and execute itself:
  the verdict, the trial and the store with the marks of the walk cleared.
\<close>

definition execute_step ::
  "Command \<Rightarrow> AncestorRealistic \<Rightarrow> Funcdata
     \<Rightarrow> (error + Command \<times> AncestorRealistic \<times> Funcdata) option" where
  "execute_step command ar fd =
     (if command = enter_node then enterNode ar fd
      else (case uponPop command ar fd of
              Inl e \<Rightarrow> Some (Inl e)
            | Inr (c, ar1) \<Rightarrow> Some (Inr (c, ar1, fd))))"



definition execute_start ::
  "opref \<Rightarrow> nat \<Rightarrow> ParamTrial \<Rightarrow> bool \<Rightarrow> Funcdata \<Rightarrow> AncestorRealistic" where
  "execute_start op slot t allowFail fd =
     \<lparr>ar_trial = t, stateStack = [new_State fd op slot], markedVn = [], multiDepth = 0,
      allowFailingPath = allowFail\<rparr>"


text \<open>
  The first \<open>n\<close> rounds of the loop of execute, for following a walk round by round.
\<close>

fun execute_rounds ::
  "nat \<Rightarrow> Command \<Rightarrow> AncestorRealistic \<Rightarrow> Funcdata
     \<Rightarrow> (error + Command \<times> AncestorRealistic \<times> Funcdata) option" where
  "execute_rounds 0 command ar fd = Some (Inr (command, ar, fd))"
| "execute_rounds (Suc n) command ar fd =
     (if stateStack ar = [] then Some (Inr (command, ar, fd))
      else (case execute_step command ar fd of
              None \<Rightarrow> None
            | Some (Inl e) \<Rightarrow> Some (Inl e)
            | Some (Inr (c, ar1, fd1)) \<Rightarrow> execute_rounds n c ar1 fd1))"


text \<open>
  An invariant of the walk of execute, for the trial \<open>t0\<close> the walk started with.  The
  counter \<open>multiDepth\<close> is the number of MULTIEQUAL nodes above the bottom node of the
  stack.  A node that records a solid move lies directly below the lowest MULTIEQUAL
  node, or is on top of the stack while a pop is being passed down.  Once the trial
  has been slated for retesting, a success is being passed down through nodes that are
  not MULTIEQUAL nodes.
\<close>

definition isMulti :: "Funcdata \<Rightarrow> State \<Rightarrow> bool" where
  "isMulti fd s = (code (obank fd (st_op s)) = Some CPUI_MULTIEQUAL)"

definition multiAbove :: "Funcdata \<Rightarrow> State list \<Rightarrow> nat" where
  "multiAbove fd stk = length (filter (isMulti fd) (butlast stk))"



section \<open>Example states\<close>

definition ram_space :: AddrSpace where
  "ram_space = AddrSpace IPTR_PROCESSOR 2"

definition register_space :: AddrSpace where
  "register_space = AddrSpace IPTR_PROCESSOR 3"

definition empty_op :: PcodeOp where
  "empty_op = \<lparr>op_opcode = None, op_flags = {op_dead}, op_output = None, op_inrefs = [],
     op_parent = None, op_addr = Address ram_space 0, op_time = 0\<rparr>"

definition empty_block :: BlockBasic where
  "empty_block = \<lparr>bl_op = [], bl_intothis = [], bl_outofthis = [], bl_dead = False,
     bl_start = Address ram_space 0\<rparr>"

definition empty_fd :: Funcdata where
  "empty_fd = \<lparr>vbank = (\<lambda>_. new_varnode 0 (Address ram_space 0) (TYPE_UNKNOWN 0)),
     create_index = 0, uniqid = 0x10000000,
     obank = (\<lambda>_. empty_op), op_count = 0, op_uniqid = 0, bblocks = (\<lambda>_. empty_block),
     highlevel_on = False, baseaddr = Address ram_space 0x1000,
     localmap = (\<lambda>_ _ _. (None, {})), calcCover = (\<lambda>_. 0),
     hasEffect = (\<lambda>_ _. unknown_effect), callDoubleUse = (\<lambda>_ _ _ _. False)\<rparr>"

text \<open>One COPY op whose output is a 4-byte register Varnode with a cover.\<close>

definition fd_bound :: Funcdata where
  "fd_bound = empty_fd\<lparr>
     vbank := (vbank empty_fd)
       (0 := (new_varnode 4 (Address register_space 0x10) (TYPE_UNKNOWN 4))
               \<lparr>vn_def := Some 0, vn_cover := Some 7\<rparr>),
     create_index := 1,
     obank := (obank empty_fd)
       (0 := empty_op\<lparr>op_opcode := Some CPUI_COPY, op_output := Some 0\<rparr>),
     op_count := 1, op_uniqid := 1\<rparr>"

text \<open>
  The single-reader rule as a predicate on the store: every constant Varnode of the bank
  that is not a spacebase has at most one reading op.
\<close>

definition constSingleReader :: "Funcdata \<Rightarrow> bool" where
  "constSingleReader fd =
     list_all (\<lambda>v. isConstant (vbank fd v) \<and> \<not> isSpacebase (vbank fd v)
                    \<longrightarrow> length (vn_descend (vbank fd v)) \<le> 1) [0..<create_index fd]"

text \<open>A spacebase constant read by op 0; op 1 has an empty slot.\<close>

definition fd_sb :: Funcdata where
  "fd_sb = empty_fd\<lparr>
     vbank := (vbank empty_fd)
       (0 := (new_varnode 4 (Address constant_space 0) (TYPE_UNKNOWN 4))
               \<lparr>vn_descend := [0], vn_flags := {vn_constant, vn_spacebase}\<rparr>),
     create_index := 1,
     obank := (obank empty_fd)
       (0 := empty_op\<lparr>op_opcode := Some CPUI_LOAD, op_inrefs := [Some 0]\<rparr>,
        1 := empty_op\<lparr>op_opcode := Some CPUI_LOAD, op_inrefs := [None]\<rparr>),
     op_count := 2, op_uniqid := 2\<rparr>"

text \<open>The constant 7 read by op 0; op 1 has an empty slot.\<close>

definition fd_const :: Funcdata where
  "fd_const = empty_fd\<lparr>
     vbank := (vbank empty_fd)
       (0 := (new_varnode 4 (Address constant_space 7) (TYPE_UNKNOWN 4))
               \<lparr>vn_descend := [0]\<rparr>),
     create_index := 1,
     obank := (obank empty_fd)
       (0 := empty_op\<lparr>op_opcode := Some CPUI_COPY, op_inrefs := [Some 0]\<rparr>,
        1 := empty_op\<lparr>op_opcode := Some CPUI_COPY, op_inrefs := [None]\<rparr>),
     op_count := 2, op_uniqid := 2\<rparr>"

text \<open>The state \<open>fd_bound\<close> with a second op that has no output.\<close>

definition fd_two :: Funcdata where
  "fd_two = fd_bound\<lparr>
     obank := (obank fd_bound)(1 := empty_op\<lparr>op_opcode := Some CPUI_INT_ADD\<rparr>),
     op_count := 2, op_uniqid := 2\<rparr>"

definition mk_op :: "OpCode \<Rightarrow> vref option list \<Rightarrow> blref option \<Rightarrow> PcodeOp" where
  "mk_op opc ins par =
     \<lparr>op_opcode = Some opc, op_flags = (if par = None then {op_dead} else {}),
      op_output = None, op_inrefs = ins, op_parent = par,
      op_addr = Address ram_space 0, op_time = 0\<rparr>"

text \<open>
  Block 0 holds a MULTIEQUAL, a COPY and a BRANCH, block 1 a COPY; ops 3 (INT\_ADD),
  4 (BRANCH) and 5 (MULTIEQUAL) are detached.
\<close>

definition fd_block :: Funcdata where
  "fd_block = empty_fd\<lparr>
     obank := (obank empty_fd)
       (0 := mk_op CPUI_MULTIEQUAL [] (Some 0),
        1 := mk_op CPUI_COPY [] (Some 0),
        2 := mk_op CPUI_BRANCH [] (Some 0),
        3 := mk_op CPUI_INT_ADD [] None,
        4 := mk_op CPUI_BRANCH [] None,
        5 := mk_op CPUI_MULTIEQUAL [] None,
        6 := mk_op CPUI_COPY [] (Some 1)),
     op_count := 7, op_uniqid := 7,
     bblocks := (bblocks empty_fd)
       (0 := empty_block\<lparr>bl_op := [0, 1, 2]\<rparr>,
        1 := empty_block\<lparr>bl_op := [6]\<rparr>)\<rparr>"

text \<open>
  A COPY in block 0 with the flags startbasic and mark, reading the constant 7 and
  writing a register.
\<close>

definition fd_copy :: Funcdata where
  "fd_copy = empty_fd\<lparr>
     vbank := (vbank empty_fd)
       (0 := (new_varnode 4 (Address constant_space 7) (TYPE_UNKNOWN 4))\<lparr>vn_descend := [0]\<rparr>,
        1 := (new_varnode 4 (Address register_space 0x10) (TYPE_UNKNOWN 4))\<lparr>vn_def := Some 0\<rparr>),
     create_index := 2,
     obank := (obank empty_fd)
       (0 := (mk_op CPUI_COPY [Some 0] (Some 0))
               \<lparr>op_flags := {op_startbasic, op_mark}, op_output := Some 1\<rparr>),
     op_count := 1, op_uniqid := 1,
     bblocks := (bblocks empty_fd)(0 := empty_block\<lparr>bl_op := [0]\<rparr>)\<rparr>"

text \<open>
  The comparison \<open>x \<le>s 0x7f\<close> on one byte: op 0 is INT\_SLESSEQUAL, its first input a
  register of one byte, its second input the one-byte constant 0x7f.  The state
  \<open>fd_sle0\<close> has the constant 0x80 as first and the register as second input.
\<close>

definition fd_sle :: Funcdata where
  "fd_sle = empty_fd\<lparr>
     vbank := (vbank empty_fd)
       (0 := (new_varnode 1 (Address register_space 0x10) (TYPE_UNKNOWN 1))\<lparr>vn_descend := [0]\<rparr>,
        1 := (new_varnode 1 (Address constant_space 0x7f) (TYPE_UNKNOWN 1))\<lparr>vn_descend := [0]\<rparr>),
     create_index := 2,
     obank := (obank empty_fd)(0 := mk_op CPUI_INT_SLESSEQUAL [Some 0, Some 1] (Some 0)),
     op_count := 1, op_uniqid := 1,
     bblocks := (bblocks empty_fd)(0 := empty_block\<lparr>bl_op := [0]\<rparr>)\<rparr>"

definition fd_sle0 :: Funcdata where
  "fd_sle0 = empty_fd\<lparr>
     vbank := (vbank empty_fd)
       (0 := (new_varnode 1 (Address constant_space 0x80) (TYPE_UNKNOWN 1))\<lparr>vn_descend := [0]\<rparr>,
        1 := (new_varnode 1 (Address register_space 0x10) (TYPE_UNKNOWN 1))\<lparr>vn_descend := [0]\<rparr>),
     create_index := 2,
     obank := (obank empty_fd)(0 := mk_op CPUI_INT_SLESSEQUAL [Some 0, Some 1] (Some 0)),
     op_count := 1, op_uniqid := 1,
     bblocks := (bblocks empty_fd)(0 := empty_block\<lparr>bl_op := [0]\<rparr>)\<rparr>"

text \<open>The comparison \<open>x \<le> 5\<close> on four bytes, unsigned.\<close>

definition fd_le5 :: Funcdata where
  "fd_le5 = empty_fd\<lparr>
     vbank := (vbank empty_fd)
       (0 := (new_varnode 4 (Address register_space 0x10) (TYPE_UNKNOWN 4))\<lparr>vn_descend := [0]\<rparr>,
        1 := (new_varnode 4 (Address constant_space 5) (TYPE_UNKNOWN 4))\<lparr>vn_descend := [0]\<rparr>),
     create_index := 2,
     obank := (obank empty_fd)(0 := mk_op CPUI_INT_LESSEQUAL [Some 0, Some 1] (Some 0)),
     op_count := 1, op_uniqid := 1,
     bblocks := (bblocks empty_fd)(0 := empty_block\<lparr>bl_op := [0]\<rparr>)\<rparr>"

text \<open>
  Three blocks: block 0 holds a LOAD that writes Varnode 0, a STORE and a CBRANCH;
  block 2 an INT\_ADD that writes Varnode 1; block 1, entered from the blocks 0 and 2,
  a MULTIEQUAL of the Varnodes 0 and 1.
\<close>

definition fd_phi :: Funcdata where
  "fd_phi = empty_fd\<lparr>
     vbank := (vbank empty_fd)
       (0 := (new_varnode 4 (Address register_space 0x10) (TYPE_UNKNOWN 4))
                \<lparr>vn_def := Some 0, vn_descend := [2]\<rparr>,
        1 := (new_varnode 4 (Address register_space 0x10) (TYPE_UNKNOWN 4))
                \<lparr>vn_def := Some 3, vn_descend := [2]\<rparr>,
        2 := (new_varnode 4 (Address register_space 0x10) (TYPE_UNKNOWN 4))
                \<lparr>vn_def := Some 2\<rparr>),
     create_index := 3,
     obank := (obank empty_fd)
       (0 := (mk_op CPUI_LOAD [] (Some 0))\<lparr>op_output := Some 0\<rparr>,
        1 := mk_op CPUI_CBRANCH [] (Some 0),
        2 := (mk_op CPUI_MULTIEQUAL [Some 0, Some 1] (Some 1))\<lparr>op_output := Some 2\<rparr>,
        3 := (mk_op CPUI_INT_ADD [] (Some 2))\<lparr>op_output := Some 1\<rparr>,
        4 := mk_op CPUI_STORE [] (Some 0)),
     op_count := 5, op_uniqid := 5,
     bblocks := (bblocks empty_fd)
       (0 := empty_block\<lparr>bl_op := [0, 4, 1], bl_outofthis := [1, 2]\<rparr>,
        1 := empty_block\<lparr>bl_op := [2], bl_intothis := [0, 2]\<rparr>,
        2 := empty_block\<lparr>bl_op := [3], bl_intothis := [0], bl_outofthis := [1]\<rparr>)\<rparr>"

definition iop_space :: AddrSpace where
  "iop_space = AddrSpace IPTR_IOP 4"

text \<open>
  Varnode 0 is written by an INDIRECT (op 0) that stands in front of its CALL (op 6) in
  block 0, and is read by a MULTIEQUAL (op 2, through the in-edge from block 0), by an
  INDIRECT (op 5) in front of its STORE (op 8) and twice by an INT\_ADD (op 7), all in
  block 1.  Varnodes 3 and 6 are the iop annotations of the two INDIRECTs.
\<close>

definition fd_reads :: Funcdata where
  "fd_reads = empty_fd\<lparr>
     vbank := (vbank empty_fd)
       (0 := (new_varnode 4 (Address register_space 0x10) (TYPE_UNKNOWN 4))
                \<lparr>vn_def := Some 0, vn_descend := [2, 5, 7, 7]\<rparr>,
        1 := (new_varnode 4 (Address register_space 0x10) (TYPE_UNKNOWN 4))
                \<lparr>vn_def := Some 3, vn_descend := [2]\<rparr>,
        2 := (new_varnode 4 (Address register_space 0x10) (TYPE_UNKNOWN 4))
                \<lparr>vn_def := Some 2\<rparr>,
        3 := (new_varnode 4 (Address iop_space 6) (TYPE_UNKNOWN 4))\<lparr>vn_descend := [0]\<rparr>,
        4 := (new_varnode 4 (Address register_space 0x10) (TYPE_UNKNOWN 4))
                \<lparr>vn_descend := [0]\<rparr>,
        5 := (new_varnode 4 (Address register_space 0x10) (TYPE_UNKNOWN 4))
                \<lparr>vn_def := Some 5\<rparr>,
        6 := (new_varnode 4 (Address iop_space 8) (TYPE_UNKNOWN 4))\<lparr>vn_descend := [5]\<rparr>,
        7 := (new_varnode 4 (Address register_space 0x20) (TYPE_UNKNOWN 4))
                \<lparr>vn_def := Some 7\<rparr>),
     create_index := 8,
     obank := (obank empty_fd)
       (0 := (mk_op CPUI_INDIRECT [Some 4, Some 3] (Some 0))\<lparr>op_output := Some 0\<rparr>,
        1 := mk_op CPUI_CBRANCH [] (Some 0),
        2 := (mk_op CPUI_MULTIEQUAL [Some 0, Some 1] (Some 1))\<lparr>op_output := Some 2\<rparr>,
        3 := (mk_op CPUI_INT_ADD [] (Some 2))\<lparr>op_output := Some 1\<rparr>,
        5 := (mk_op CPUI_INDIRECT [Some 0, Some 6] (Some 1))\<lparr>op_output := Some 5\<rparr>,
        6 := mk_op CPUI_CALL [] (Some 0),
        7 := (mk_op CPUI_INT_ADD [Some 0, Some 0] (Some 1))\<lparr>op_output := Some 7\<rparr>,
        8 := mk_op CPUI_STORE [] (Some 1)),
     op_count := 9, op_uniqid := 9,
     bblocks := (bblocks empty_fd)
       (0 := empty_block\<lparr>bl_op := [0, 6, 1], bl_outofthis := [1, 2]\<rparr>,
        1 := empty_block\<lparr>bl_op := [2, 5, 8, 7], bl_intothis := [0, 2]\<rparr>,
        2 := empty_block\<lparr>bl_op := [3], bl_intothis := [0], bl_outofthis := [1]\<rparr>)\<rparr>"

text \<open>
  An input Varnode on the bytes 0x10 to 0x13 of the register space, and three free
  Varnodes: one on the same bytes, one on the bytes 0x12 to 0x15, one on 0x20 to 0x23.
\<close>

definition fd_in :: Funcdata where
  "fd_in = empty_fd\<lparr>
     vbank := (vbank empty_fd)
       (0 := (new_varnode 4 (Address register_space 0x10) (TYPE_UNKNOWN 4))
                \<lparr>vn_flags := {vn_input}\<rparr>,
        1 := new_varnode 4 (Address register_space 0x10) (TYPE_UNKNOWN 4),
        2 := new_varnode 4 (Address register_space 0x12) (TYPE_UNKNOWN 4),
        3 := new_varnode 4 (Address register_space 0x20) (TYPE_UNKNOWN 4)),
     create_index := 4\<rparr>"

text \<open>
  A loop in the data-flow: Varnode 0 is written by a MULTIEQUAL of itself and of the
  type-locked input Varnode 1, and is read by that MULTIEQUAL and, in slot 1, by the
  CALL op 1.
\<close>

definition fd_cycle :: Funcdata where
  "fd_cycle = empty_fd\<lparr>
     vbank := (vbank empty_fd)
       (0 := (new_varnode 4 (Address register_space 0x10) (TYPE_UNKNOWN 4))
                \<lparr>vn_def := Some 0, vn_descend := [0, 1]\<rparr>,
        1 := (new_varnode 4 (Address register_space 0x10) (TYPE_UNKNOWN 4))
                \<lparr>vn_descend := [0], vn_flags := {vn_input, vn_typelock}\<rparr>,
        2 := (new_varnode 4 (Address constant_space 0x400) (TYPE_UNKNOWN 4))
                \<lparr>vn_descend := [1]\<rparr>),
     create_index := 3,
     obank := (obank empty_fd)
       (0 := (mk_op CPUI_MULTIEQUAL [Some 0, Some 1] (Some 0))\<lparr>op_output := Some 0\<rparr>,
        1 := mk_op CPUI_CALL [Some 2, Some 0] (Some 0)),
     op_count := 2, op_uniqid := 2,
     bblocks := (bblocks empty_fd)(0 := empty_block\<lparr>bl_op := [0, 1]\<rparr>)\<rparr>"

definition trial1 :: ParamTrial where
  "trial1 = \<lparr>pt_flags = {}, pt_slot = 1\<rparr>"

definition indirect_zero :: Varnode where
  "indirect_zero = (new_varnode 4 (Address constant_space 0) (TYPE_UNKNOWN 4))
      \<lparr>vn_flags := {vn_constant, vn_indirect_creation}\<rparr>"

definition reg_varnode :: "uintb \<Rightarrow> Varnode" where
  "reg_varnode off = new_varnode 4 (Address register_space off) (TYPE_UNKNOWN 4)"

text \<open>
  A conditional definition: the MULTIEQUAL op 0 in block 2 joins an INDIRECT creation
  of the zero constant (block 0) and the result of an INT\_ADD (block 1, which only
  flows into block 2) on the input Varnode 5; its output is read by the CALL op 3 in
  slot 1.
\<close>

definition fd_cond :: Funcdata where
  "fd_cond = empty_fd\<lparr>
     vbank := (vbank empty_fd)
       (0 := (reg_varnode 0x10)\<lparr>vn_def := Some 0, vn_descend := [3]\<rparr>,
        1 := (reg_varnode 0x10)\<lparr>vn_def := Some 1, vn_descend := [0]\<rparr>,
        2 := (reg_varnode 0x10)\<lparr>vn_def := Some 2, vn_descend := [0]\<rparr>,
        3 := indirect_zero\<lparr>vn_descend := [1]\<rparr>,
        4 := (new_varnode 4 (Address constant_space 0x400) (TYPE_UNKNOWN 4))\<lparr>vn_descend := [3]\<rparr>,
        5 := (reg_varnode 0x14)\<lparr>vn_descend := [2], vn_flags := {vn_input}\<rparr>),
     create_index := 6,
     obank := (obank empty_fd)
       (0 := (mk_op CPUI_MULTIEQUAL [Some 1, Some 2] (Some 2))\<lparr>op_output := Some 0\<rparr>,
        1 := (mk_op CPUI_INDIRECT [Some 3] (Some 0))
               \<lparr>op_output := Some 1, op_flags := {op_indirect_creation}\<rparr>,
        2 := (mk_op CPUI_INT_ADD [Some 5] (Some 1))\<lparr>op_output := Some 2\<rparr>,
        3 := mk_op CPUI_CALL [Some 4, Some 0] (Some 2)),
     op_count := 4, op_uniqid := 4,
     bblocks := (bblocks empty_fd)
       (0 := empty_block\<lparr>bl_op := [1], bl_outofthis := [2, 1]\<rparr>,
        1 := empty_block\<lparr>bl_op := [2], bl_intothis := [0], bl_outofthis := [2]\<rparr>,
        2 := empty_block\<lparr>bl_op := [0, 3], bl_intothis := [0, 1]\<rparr>)\<rparr>"


text \<open>
  The walk of execute on the conditional definition, for the CALL op 3 and its slot 1,
  after the first round: the node of the MULTIEQUAL is on top of the node of the CALL.
\<close>

definition ar_cond :: AncestorRealistic where
  "ar_cond = \<lparr>ar_trial = trial1, stateStack = [new_State fd_cond 0 0, new_State fd_cond 3 1],
     markedVn = [0], multiDepth = 1, allowFailingPath = True\<rparr>"

(*DEFS_END*)

section \<open>Properties of the linkage edits\<close>

text \<open>
  Claim C6.  When the output of \<open>op\<close> is bound to \<open>vn\<close>, opUnsetOutput leaves
  \<open>op\<close> without output and makes \<open>vn\<close> free: it has no defining op and no cover.
  The Varnode is not destroyed: the bank allocates no and frees no index, and the
  storage, data-type and readers of \<open>vn\<close> are as before.  Of \<open>op\<close> only the output
  field changes (opcode, inputs, flags and block stay), every other op and every other
  Varnode is unchanged, and so are the blocks.
\<close>

theorem C6_opUnsetOutput:
  assumes "op_output (obank fd op) = Some vn"
  shows "op_output (obank (opUnsetOutput op fd) op) = None
     \<and> vn_def (vbank (opUnsetOutput op fd) vn) = None
     \<and> vn_cover (vbank (opUnsetOutput op fd) vn) = None
     \<and> create_index (opUnsetOutput op fd) = create_index fd
     \<and> vn_size (vbank (opUnsetOutput op fd) vn) = vn_size (vbank fd vn)
     \<and> vn_loc (vbank (opUnsetOutput op fd) vn) = vn_loc (vbank fd vn)
     \<and> vn_type (vbank (opUnsetOutput op fd) vn) = vn_type (vbank fd vn)
     \<and> vn_descend (vbank (opUnsetOutput op fd) vn) = vn_descend (vbank fd vn)
     \<and> obank (opUnsetOutput op fd) = (obank fd)(op := (obank fd op)\<lparr>op_output := None\<rparr>)
     \<and> vbank (opUnsetOutput op fd) = (vbank fd)(vn := vbank (opUnsetOutput op fd) vn)
     \<and> bblocks (opUnsetOutput op fd) = bblocks fd"
  using assms
  by (simp add: opUnsetOutput_def clearCover_def makeFree_def op_setOutput_def)

theorem C6_opUnsetOutput_witness:
  "op_output (obank fd_bound 0) = Some 0
   \<and> op_output (obank (opUnsetOutput 0 fd_bound) 0) = None
   \<and> vn_def (vbank (opUnsetOutput 0 fd_bound) 0) = None
   \<and> vn_cover (vbank (opUnsetOutput 0 fd_bound) 0) = None
   \<and> op_opcode (obank (opUnsetOutput 0 fd_bound) 0) = Some CPUI_COPY"
proof -
  have h: "op_output (obank fd_bound 0) = Some 0"
    by (simp add: fd_bound_def empty_fd_def empty_op_def)
  have o: "op_opcode (obank fd_bound 0) = Some CPUI_COPY"
    by (simp add: fd_bound_def empty_fd_def empty_op_def)
  from C6_opUnsetOutput [OF h] h o show ?thesis by simp
qed


subsection \<open>opSetOutput\<close>

lemma setVarnodeProperties_def_unchanged [simp]:
  "vn_def (vbank (setVarnodeProperties v fd) w) = vn_def (vbank fd w)"
  by (simp add: setVarnodeProperties_def Let_def split: prod.splits option.splits)

lemma setVarnodeProperties_obank [simp]:
  "obank (setVarnodeProperties v fd) = obank fd"
  by (simp add: setVarnodeProperties_def Let_def split: prod.splits option.splits)

lemma opSetOutput_rebinds:
  assumes "vn_def (vbank fd vn) = Some d"
      and "op_output (obank fd d) = Some vn"
      and "d \<noteq> op"
      and "op_output (obank fd op) \<noteq> Some vn"
  shows "\<exists>fd'. opSetOutput op vn fd = Inr fd'
           \<and> op_output (obank fd' op) = Some vn
           \<and> vn_def (vbank fd' vn) = Some op
           \<and> op_output (obank fd' d) = None
           \<and> (case op_output (obank fd op) of
                 None \<Rightarrow> True
               | Some w \<Rightarrow> vn_def (vbank fd' w) = None)"
  using assms
  by (auto simp add: opSetOutput_def opUnsetOutput_def clearCover_def makeFree_def
      op_setOutput_def setDef_def Let_def split: option.splits)

lemma fd_two_facts:
  "vn_def (vbank fd_two 0) = Some 0" "op_output (obank fd_two 0) = Some 0"
  "op_output (obank fd_two 1) = None"
  by (simp_all add: fd_two_def fd_bound_def empty_fd_def empty_op_def)

text \<open>
  Claim C4, as the code has it.  A Varnode \<open>vn\<close> that is bound as the output of
  another op \<open>d\<close> (and \<open>d\<close> has \<open>vn\<close> as its output) can be assigned as the
  output of \<open>op\<close>: opSetOutput does not fail.  It unsets the output of \<open>d\<close>, frees
  the former output of \<open>op\<close>, if any, and binds \<open>vn\<close> to \<open>op\<close>.
\<close>

theorem C4_opSetOutput_rebinds:
  assumes "vn_def (vbank fd vn) = Some d"
      and "op_output (obank fd d) = Some vn"
      and "d \<noteq> op"
      and "op_output (obank fd op) \<noteq> Some vn"
  shows "\<exists>fd'. opSetOutput op vn fd = Inr fd'
           \<and> op_output (obank fd' op) = Some vn
           \<and> vn_def (vbank fd' vn) = Some op
           \<and> op_output (obank fd' d) = None
           \<and> (case op_output (obank fd op) of
                 None \<Rightarrow> True
               | Some w \<Rightarrow> vn_def (vbank fd' w) = None)"
  using assms by (rule opSetOutput_rebinds)

theorem C4_opSetOutput_rebinds_witness:
  "vn_def (vbank fd_two 0) = Some 0 \<and> op_output (obank fd_two 0) = Some 0
   \<and> op_output (obank fd_two 1) \<noteq> Some 0
   \<and> op_output (obank (projr (opSetOutput 1 0 fd_two)) 1) = Some 0
   \<and> vn_def (vbank (projr (opSetOutput 1 0 fd_two)) 0) = Some 1
   \<and> op_output (obank (projr (opSetOutput 1 0 fd_two)) 0) = None"
proof -
  have "\<exists>fd'. opSetOutput 1 0 fd_two = Inr fd'
           \<and> op_output (obank fd' 1) = Some 0
           \<and> vn_def (vbank fd' 0) = Some 1
           \<and> op_output (obank fd' 0) = None
           \<and> (case op_output (obank fd_two 1) of
                 None \<Rightarrow> True
               | Some w \<Rightarrow> vn_def (vbank fd' w) = None)"
    by (rule C4_opSetOutput_rebinds) (insert fd_two_facts, simp_all)
  then show ?thesis using fd_two_facts by auto
qed

text \<open>
  The claim as stated fails: in \<open>fd_two\<close> Varnode 0 is the output of op 0, and
  assigning it as the output of op 1 returns a state, not an error, in which op 1 has
  the output and op 0 has lost it.
\<close>

theorem C4_bound_output_counterexample:
  "vn_def (vbank fd_two 0) = Some 0
   \<and> \<not> isl (opSetOutput 1 0 fd_two)
   \<and> op_output (obank (projr (opSetOutput 1 0 fd_two)) 1) = Some 0
   \<and> op_output (obank (projr (opSetOutput 1 0 fd_two)) 0) = None
   \<and> vn_def (vbank (projr (opSetOutput 1 0 fd_two)) 0) = Some 1"
proof -
  have "\<exists>fd'. opSetOutput 1 0 fd_two = Inr fd'
           \<and> op_output (obank fd' 1) = Some 0
           \<and> vn_def (vbank fd' 0) = Some 1
           \<and> op_output (obank fd' 0) = None
           \<and> (case op_output (obank fd_two 1) of
                 None \<Rightarrow> True
               | Some w \<Rightarrow> vn_def (vbank fd' w) = None)"
    by (rule opSetOutput_rebinds) (insert fd_two_facts, simp_all)
  then show ?thesis using fd_two_facts by auto
qed

subsection \<open>opSetInput and the single-reader rule\<close>

lemma assignHigh_simps [simp]:
  "obank (assignHigh v fd) = obank fd"
  "create_index (assignHigh v fd) = create_index fd"
  "w \<noteq> v \<Longrightarrow> vbank (assignHigh v fd) w = vbank fd w"
  "vn_flags (vbank (assignHigh v fd) w) = vn_flags (vbank fd w)"
  "vn_descend (vbank (assignHigh v fd) w) = vn_descend (vbank fd w)"
  "vn_size (vbank (assignHigh v fd) w) = vn_size (vbank fd w)"
  "vn_loc (vbank (assignHigh v fd) w) = vn_loc (vbank fd w)"
  "vn_def (vbank (assignHigh v fd) w) = vn_def (vbank fd w)"
  by (simp_all add: assignHigh_def Let_def)

lemma newConstant_facts:
  assumes "newConstant s c fd = (v, fd1)"
  shows "v = create_index fd" "create_index fd1 = Suc (create_index fd)"
    "obank fd1 = obank fd" "\<And>w. w \<noteq> v \<Longrightarrow> vbank fd1 w = vbank fd w"
    "vn_flags (vbank fd1 v) = {vn_constant}" "vn_descend (vbank fd1 v) = []"
    "vn_size (vbank fd1 v) = s" "vn_loc (vbank fd1 v) = Address constant_space c"
    "vn_def (vbank fd1 v) = None"
  using assms
  by (auto simp add: newConstant_def vbank_create_def Let_def new_varnode_def
      initial_flags_def constant_space_def split: prod.splits)

lemma opSetInput_duplicates:
  assumes slot: "slot < numInput (obank fd op)"
      and new: "getIn (obank fd op) slot \<noteq> Some vn"
      and c: "isConstant (vbank fd vn)" and d: "\<not> hasNoDescend (vbank fd vn)"
      and sb: "\<not> isSpacebase (vbank fd vn)"
      and ex: "vn < create_index fd"
      and rd: "case getIn (obank fd op) slot of None \<Rightarrow> True
               | Some old \<Rightarrow> op \<in> set (vn_descend (vbank fd old)) \<and> old < create_index fd"
  shows "\<exists>fd'. opSetInput op vn slot fd = Inr fd'
          \<and> getIn (obank fd' op) slot = Some (create_index fd)
          \<and> create_index fd \<noteq> vn
          \<and> isConstant (vbank fd' (create_index fd))
          \<and> vn_size (vbank fd' (create_index fd)) = vn_size (vbank fd vn)
          \<and> getOffset (vn_loc (vbank fd' (create_index fd))) = getOffset (vn_loc (vbank fd vn))
          \<and> vn_descend (vbank fd' (create_index fd)) = [op]
          \<and> vn_descend (vbank fd' vn) = vn_descend (vbank fd vn)"
proof -
  obtain cvn fd1 where nc: "newConstant (vn_size (vbank fd vn)) (getOffset (vn_loc (vbank fd vn))) fd = (cvn, fd1)"
    by (cases "newConstant (vn_size (vbank fd vn)) (getOffset (vn_loc (vbank fd vn))) fd") auto
  note f = newConstant_facts [OF nc]
  show ?thesis
    using slot new c d sb ex rd f
    apply (simp add: opSetInput_def nc opUnsetInput_def)
    apply (auto simp add: getIn_def numInput_def eraseDescend_def op_setInput_def addDescend_def
          copySymbol_def isConstant_def split: option.splits)
    done
qed


lemma constSingleReader_iff:
  "constSingleReader fd \<longleftrightarrow>
     (\<forall>v < create_index fd. isConstant (vbank fd v) \<and> \<not> isSpacebase (vbank fd v)
          \<longrightarrow> length (vn_descend (vbank fd v)) \<le> 1)"
  by (auto simp add: constSingleReader_def list_all_iff)

lemma length_remove1_le: "length (remove1 x xs) \<le> length xs"
  by (induction xs) auto

lemma opUnsetInput_facts:
  assumes "opUnsetInput op slot fd = Inr fd'"
  shows "create_index fd' = create_index fd"
    "vn_flags (vbank fd' v) = vn_flags (vbank fd v)"
    "length (vn_descend (vbank fd' v)) \<le> length (vn_descend (vbank fd v))"
  using assms
  by (auto simp add: opUnsetInput_def eraseDescend_def op_setInput_def length_remove1_le
      split: if_splits option.splits)

lemma opSetInput_keeps_single_reader:
  assumes inv: "constSingleReader fd"
      and run: "opSetInput op vn slot fd = Inr fd'"
  shows "constSingleReader fd'"
proof (cases "numInput (obank fd op) \<le> slot \<or> Some vn = getIn (obank fd op) slot")
  case True
  with run inv show ?thesis by (auto simp add: opSetInput_def split: if_splits)
next
  case False
  then have n1: "\<not> numInput (obank fd op) \<le> slot"
    and n2: "Some vn \<noteq> getIn (obank fd op) slot" by simp_all
  show ?thesis
  proof (cases "isConstant (vbank fd vn) \<and> \<not> hasNoDescend (vbank fd vn) \<and> \<not> isSpacebase (vbank fd vn)")
    case True
    obtain cvn fd1 where nc: "newConstant (vn_size (vbank fd vn)) (getOffset (vn_loc (vbank fd vn))) fd = (cvn, fd1)"
      by (cases "newConstant (vn_size (vbank fd vn)) (getOffset (vn_loc (vbank fd vn))) fd") auto
    note f = newConstant_facts [OF nc]
    define fd2 where "fd2 = fd1\<lparr>vbank := (vbank fd1)(cvn := copySymbol (vbank fd1 vn) (vbank fd1 cvn))\<rparr>"
    let ?u = "if getIn (obank fd2 op) slot \<noteq> None then opUnsetInput op slot fd2 else Inr fd2"
    have run': "(case ?u of Inl e \<Rightarrow> Inl e
                 | Inr fd3 \<Rightarrow> Inr (op_setInput op (Some cvn) slot
                       (fd3\<lparr>vbank := (vbank fd3)(cvn := addDescend op (vbank fd3 cvn))\<rparr>))) = Inr fd'"
      using run unfolding opSetInput_def fd2_def
      by (simp only: n1 n2 True nc if_True if_False prod.case simp_thms)
    obtain fd3 where u: "?u = Inr fd3"
      and r: "fd' = op_setInput op (Some cvn) slot (fd3\<lparr>vbank := (vbank fd3)(cvn := addDescend op (vbank fd3 cvn))\<rparr>)"
      using run' by (cases ?u) auto
    have "create_index fd3 = create_index fd2
        \<and> (\<forall>v. vn_flags (vbank fd3 v) = vn_flags (vbank fd2 v))
        \<and> (\<forall>v. length (vn_descend (vbank fd3 v)) \<le> length (vn_descend (vbank fd2 v)))"
    proof (cases "getIn (obank fd2 op) slot \<noteq> None")
      case True
      with u have "opUnsetInput op slot fd2 = Inr fd3" by simp
      from opUnsetInput_facts [OF this] show ?thesis by simp
    next
      case False
      with u have "fd3 = fd2" by simp
      then show ?thesis by simp
    qed
    moreover have "create_index fd2 = Suc (create_index fd)" using f(2) by (simp add: fd2_def)
    ultimately have ci: "create_index fd3 = Suc (create_index fd)"
      and fl: "\<And>v. vn_flags (vbank fd3 v) = vn_flags (vbank fd2 v)"
      and ln: "\<And>v. length (vn_descend (vbank fd3 v)) \<le> length (vn_descend (vbank fd2 v))"
      by simp_all
    have d2: "vn_descend (vbank fd2 cvn) = []"
      using f by (simp add: fd2_def copySymbol_def)
    show ?thesis
      unfolding constSingleReader_iff
    proof (intro allI impI)
      fix v assume lt: "v < create_index fd'" and cs: "isConstant (vbank fd' v) \<and> \<not> isSpacebase (vbank fd' v)"
      show "length (vn_descend (vbank fd' v)) \<le> 1"
      proof (cases "v = cvn")
        case True
        have "length (vn_descend (vbank fd3 cvn)) = 0" using ln [of cvn] d2 by simp
        then show ?thesis using True by (simp add: r op_setInput_def addDescend_def)
      next
        case False
        then have "v < create_index fd" using lt ci f(1) by (simp add: r op_setInput_def)
        moreover have "vbank fd2 v = vbank fd v" using False f(4) by (simp add: fd2_def)
        moreover have "vn_flags (vbank fd' v) = vn_flags (vbank fd3 v)"
          and "vn_descend (vbank fd' v) = vn_descend (vbank fd3 v)"
          using False by (simp_all add: r op_setInput_def)
        ultimately show ?thesis
          using inv cs fl [of v] ln [of v]
          by (auto simp add: constSingleReader_iff isConstant_def isSpacebase_def)
      qed
    qed
  next
    case False
    let ?u = "if getIn (obank fd op) slot \<noteq> None then opUnsetInput op slot fd else Inr fd"
    have run': "(case ?u of Inl e \<Rightarrow> Inl e
                 | Inr fd3 \<Rightarrow> Inr (op_setInput op (Some vn) slot
                       (fd3\<lparr>vbank := (vbank fd3)(vn := addDescend op (vbank fd3 vn))\<rparr>))) = Inr fd'"
      using run unfolding opSetInput_def
      by (simp only: n1 n2 False if_True if_False prod.case simp_thms)
    obtain fd3 where u: "?u = Inr fd3"
      and r: "fd' = op_setInput op (Some vn) slot (fd3\<lparr>vbank := (vbank fd3)(vn := addDescend op (vbank fd3 vn))\<rparr>)"
      using run' by (cases ?u) auto
    have "create_index fd3 = create_index fd
        \<and> (\<forall>v. vn_flags (vbank fd3 v) = vn_flags (vbank fd v))
        \<and> (\<forall>v. length (vn_descend (vbank fd3 v)) \<le> length (vn_descend (vbank fd v)))"
    proof (cases "getIn (obank fd op) slot \<noteq> None")
      case True
      with u have "opUnsetInput op slot fd = Inr fd3" by simp
      from opUnsetInput_facts [OF this] show ?thesis by simp
    next
      case False
      with u have "fd3 = fd" by simp
      then show ?thesis by simp
    qed
    then have ci: "create_index fd3 = create_index fd"
      and fl: "\<And>v. vn_flags (vbank fd3 v) = vn_flags (vbank fd v)"
      and ln: "\<And>v. length (vn_descend (vbank fd3 v)) \<le> length (vn_descend (vbank fd v))"
      by simp_all
    show ?thesis
      unfolding constSingleReader_iff
    proof (intro allI impI)
      fix v assume lt: "v < create_index fd'" and cs: "isConstant (vbank fd' v) \<and> \<not> isSpacebase (vbank fd' v)"
      show "length (vn_descend (vbank fd' v)) \<le> 1"
      proof (cases "v = vn")
        case True
        have "isConstant (vbank fd vn) \<and> \<not> isSpacebase (vbank fd vn)"
          using cs True fl [of vn] by (simp add: r op_setInput_def addDescend_def isConstant_def isSpacebase_def)
        then have "vn_descend (vbank fd vn) = []" using False by (simp add: hasNoDescend_def)
        then have "length (vn_descend (vbank fd3 vn)) = 0" using ln [of vn] by simp
        then show ?thesis using True by (simp add: r op_setInput_def addDescend_def)
      next
        case False
        then have "v < create_index fd" using lt ci by (simp add: r op_setInput_def)
        moreover have "vn_flags (vbank fd' v) = vn_flags (vbank fd3 v)"
          and "vn_descend (vbank fd' v) = vn_descend (vbank fd3 v)"
          using False by (simp_all add: r op_setInput_def)
        ultimately show ?thesis
          using inv cs fl [of v] ln [of v]
          by (auto simp add: constSingleReader_iff isConstant_def isSpacebase_def)
      qed
    qed
  qed
qed


lemma fd_sb_run:
  "opSetInput 1 0 0 fd_sb = Inr (fd_sb\<lparr>
     vbank := (vbank fd_sb)(0 := (vbank fd_sb 0)\<lparr>vn_descend := [0, 1]\<rparr>),
     obank := (obank fd_sb)(1 := (obank fd_sb 1)\<lparr>op_inrefs := [Some 0]\<rparr>)\<rparr>)"
  by (simp add: opSetInput_def fd_sb_def empty_fd_def empty_op_def numInput_def getIn_def
      isConstant_def isSpacebase_def hasNoDescend_def op_setInput_def addDescend_def)

text \<open>
  Claim C1, as the code has it.  Let \<open>vn\<close> be a constant Varnode of the bank that has
  a reader, is not a spacebase and is not already the input of \<open>op\<close> in the slot; let the
  slot be empty or hold a Varnode that lists \<open>op\<close> as a reader.  Then opSetInput
  succeeds and links a fresh Varnode (the next creation index, so not \<open>vn\<close>): it is
  a constant of the size and value of \<open>vn\<close>, its only reader is \<open>op\<close>, and the
  readers of \<open>vn\<close> are unchanged.  Whatever Varnode is set, a successful opSetInput
  maintains the single-reader rule for the constants that are not spacebases.
\<close>

theorem C1_opSetInput_duplicates_constant:
  assumes "slot < numInput (obank fd op)"
      and "getIn (obank fd op) slot \<noteq> Some vn"
      and "isConstant (vbank fd vn)" and "\<not> hasNoDescend (vbank fd vn)"
      and "\<not> isSpacebase (vbank fd vn)"
      and "vn < create_index fd"
      and "case getIn (obank fd op) slot of None \<Rightarrow> True
               | Some old \<Rightarrow> op \<in> set (vn_descend (vbank fd old)) \<and> old < create_index fd"
  shows "(\<exists>fd'. opSetInput op vn slot fd = Inr fd'
          \<and> getIn (obank fd' op) slot = Some (create_index fd)
          \<and> create_index fd \<noteq> vn
          \<and> isConstant (vbank fd' (create_index fd))
          \<and> vn_size (vbank fd' (create_index fd)) = vn_size (vbank fd vn)
          \<and> getOffset (vn_loc (vbank fd' (create_index fd))) = getOffset (vn_loc (vbank fd vn))
          \<and> vn_descend (vbank fd' (create_index fd)) = [op]
          \<and> vn_descend (vbank fd' vn) = vn_descend (vbank fd vn))
     \<and> (\<forall>op2 vn2 slot2 fd2 fd2'. constSingleReader fd2 \<longrightarrow>
            opSetInput op2 vn2 slot2 fd2 = Inr fd2' \<longrightarrow> constSingleReader fd2')"
  using opSetInput_duplicates [OF assms] opSetInput_keeps_single_reader by blast

lemma fd_const_facts:
  "numInput (obank fd_const 1) = 1" "getIn (obank fd_const 1) 0 = None"
  "isConstant (vbank fd_const 0)" "\<not> hasNoDescend (vbank fd_const 0)"
  "\<not> isSpacebase (vbank fd_const 0)" "create_index fd_const = 1"
  "vn_size (vbank fd_const 0) = 4" "getOffset (vn_loc (vbank fd_const 0)) = 7"
  "vn_descend (vbank fd_const 0) = [0]"
  by (simp_all add: fd_const_def empty_fd_def empty_op_def numInput_def getIn_def
      isConstant_def hasNoDescend_def isSpacebase_def new_varnode_def initial_flags_def
      constant_space_def)

lemma fd_const_single: "constSingleReader fd_const"
  using fd_const_facts by (simp add: constSingleReader_def)

theorem C1_opSetInput_duplicates_constant_witness:
  "isConstant (vbank fd_const 0) \<and> vn_descend (vbank fd_const 0) = [0]
   \<and> constSingleReader fd_const
   \<and> \<not> isl (opSetInput 1 0 0 fd_const)
   \<and> getIn (obank (projr (opSetInput 1 0 0 fd_const)) 1) 0 = Some 1
   \<and> vn_size (vbank (projr (opSetInput 1 0 0 fd_const)) 1) = 4
   \<and> getOffset (vn_loc (vbank (projr (opSetInput 1 0 0 fd_const)) 1)) = 7
   \<and> vn_descend (vbank (projr (opSetInput 1 0 0 fd_const)) 1) = [1]
   \<and> vn_descend (vbank (projr (opSetInput 1 0 0 fd_const)) 0) = [0]
   \<and> constSingleReader (projr (opSetInput 1 0 0 fd_const))"
proof -
  have "(\<exists>fd'. opSetInput 1 0 0 fd_const = Inr fd'
          \<and> getIn (obank fd' 1) 0 = Some (create_index fd_const)
          \<and> create_index fd_const \<noteq> 0
          \<and> isConstant (vbank fd' (create_index fd_const))
          \<and> vn_size (vbank fd' (create_index fd_const)) = vn_size (vbank fd_const 0)
          \<and> getOffset (vn_loc (vbank fd' (create_index fd_const))) = getOffset (vn_loc (vbank fd_const 0))
          \<and> vn_descend (vbank fd' (create_index fd_const)) = [1]
          \<and> vn_descend (vbank fd' 0) = vn_descend (vbank fd_const 0))
     \<and> (\<forall>op2 vn2 slot2 fd2 fd2'. constSingleReader fd2 \<longrightarrow>
            opSetInput op2 vn2 slot2 fd2 = Inr fd2' \<longrightarrow> constSingleReader fd2')"
    by (rule C1_opSetInput_duplicates_constant) (insert fd_const_facts, simp_all)
  then obtain fd' where r: "opSetInput 1 0 0 fd_const = Inr fd'"
      and a: "getIn (obank fd' 1) 0 = Some (create_index fd_const)"
         "vn_size (vbank fd' (create_index fd_const)) = vn_size (vbank fd_const 0)"
         "getOffset (vn_loc (vbank fd' (create_index fd_const))) = getOffset (vn_loc (vbank fd_const 0))"
         "vn_descend (vbank fd' (create_index fd_const)) = [1]"
         "vn_descend (vbank fd' 0) = vn_descend (vbank fd_const 0)"
      and k: "constSingleReader fd_const \<longrightarrow> constSingleReader fd'"
    by blast
  show ?thesis using r a k fd_const_single fd_const_facts by simp
qed

text \<open>
  The claim as stated fails for a spacebase constant: in \<open>fd_sb\<close> the constant 0 is a
  spacebase read by op 0, and setting it as input of op 1 links the Varnode itself,
  which then has two readers.
\<close>

theorem C1_spacebase_counterexample:
  "isConstant (vbank fd_sb 0) \<and> vn_descend (vbank fd_sb 0) = [0]
   \<and> \<not> isl (opSetInput 1 0 0 fd_sb)
   \<and> getIn (obank (projr (opSetInput 1 0 0 fd_sb)) 1) 0 = Some 0
   \<and> vn_descend (vbank (projr (opSetInput 1 0 0 fd_sb)) 0) = [0, 1]"
  using fd_sb_run
  by (simp add: fd_sb_def getIn_def numInput_def empty_op_def empty_fd_def isConstant_def)

section \<open>Insertion into a block and the ordering rule\<close>

lemma opInsert_code [simp]: "code (obank (opInsert op bl it fd) x) = code (obank fd x)"
  by (simp add: opInsert_def block_insert_def markAlive_def code_def)

lemma opInsert_isFlowBreak [simp]:
  "isFlowBreak (obank (opInsert op bl it fd) x) = isFlowBreak (obank fd x)"
  by (simp add: isFlowBreak_def)

lemma opInsert_bl_op [simp]:
  "bl_op (bblocks (opInsert op bl it fd) bl) =
     take it (bl_op (bblocks fd bl)) @ [op] @ drop it (bl_op (bblocks fd bl))"
  by (simp add: opInsert_def block_insert_def markAlive_def)

lemma opInsertBegin_code [simp]:
  "code (obank (opInsertBegin op bl fd) x) = code (obank fd x)"
  by (simp add: opInsertBegin_def Let_def)

lemma opInsertEnd_code [simp]:
  "code (obank (opInsertEnd op bl fd) x) = code (obank fd x)"
  by (simp add: opInsertEnd_def Let_def)

lemma skipMultiequal_takeWhile:
  "skipMultiequal fd ops n =
     n + length (takeWhile (\<lambda>op. code (obank fd op) = Some CPUI_MULTIEQUAL) ops)"
  by (induction ops arbitrary: n) auto

lemma phisFirst_cong:
  "(\<And>x. code (obank fd' x) = code (obank fd x)) \<Longrightarrow> phisFirst fd' ops = phisFirst fd ops"
  by (simp add: phisFirst_def)

lemma branchLast_cong:
  "(\<And>x. isFlowBreak (obank fd' x) = isFlowBreak (obank fd x)) \<Longrightarrow> branchLast fd' ops = branchLast fd ops"
  by (simp add: branchLast_def)

lemma phisFirst_insert_nonphi:
  assumes "phisFirst fd ops" and "code (obank fd op) \<noteq> Some CPUI_MULTIEQUAL"
  shows "phisFirst fd (take (skipMultiequal fd ops 0) ops @ [op] @ drop (skipMultiequal fd ops 0) ops)"
proof -
  let ?P = "\<lambda>op. code (obank fd op) = Some CPUI_MULTIEQUAL"
  have t: "take (length (takeWhile ?P ops)) ops = takeWhile ?P ops"
    by (simp add: takeWhile_eq_take [symmetric])
  have d: "drop (length (takeWhile ?P ops)) ops = dropWhile ?P ops"
    by (simp add: dropWhile_eq_drop [symmetric])
  have "dropWhile ?P (takeWhile ?P ops @ [op] @ dropWhile ?P ops) = [op] @ dropWhile ?P ops"
  proof -
    have "dropWhile ?P (takeWhile ?P ops @ [op] @ dropWhile ?P ops) = dropWhile ?P ([op] @ dropWhile ?P ops)"
      by (rule dropWhile_append2) (auto dest: set_takeWhileD)
    then show ?thesis using assms(2) by simp
  qed
  then show ?thesis
    using assms by (simp add: phisFirst_def skipMultiequal_takeWhile t d)
qed

lemma phisFirst_insert_phi:
  assumes "phisFirst fd ops" and "code (obank fd op) = Some CPUI_MULTIEQUAL"
  shows "phisFirst fd (op # ops)"
  using assms by (simp add: phisFirst_def)

lemma set_take_butlast: "k < length ops \<Longrightarrow> set (take k ops) \<subseteq> set (butlast ops)"
proof -
  assume "k < length ops"
  then have "take k ops = take k (butlast ops)" by (simp add: take_butlast)
  then show ?thesis by (metis set_take_subset)
qed

lemma set_butlast_drop: "set (butlast (drop k ops)) \<subseteq> set (butlast ops)"
  by (simp add: butlast_drop set_drop_subset)

lemma branchLast_insert:
  assumes "branchLast fd ops" and "\<not> isFlowBreak (obank fd op)" and "k < length ops"
  shows "branchLast fd (take k ops @ [op] @ drop k ops)"
proof -
  have ne: "drop k ops \<noteq> []" using assms(3) by simp
  have "butlast (take k ops @ [op] @ drop k ops) = take k ops @ [op] @ butlast (drop k ops)"
    using ne by (simp add: butlast_append)
  then show ?thesis
    using assms(1,2) set_take_butlast [OF assms(3)] set_butlast_drop [of k ops]
    by (auto simp add: branchLast_def list_all_iff)
qed


lemma phisFirst_insert:
  assumes "phisFirst fd (xs @ ys)" and "code (obank fd op) \<noteq> Some CPUI_MULTIEQUAL"
      and "list_all (\<lambda>op. code (obank fd op) \<noteq> Some CPUI_MULTIEQUAL) ys"
  shows "phisFirst fd (xs @ [op] @ ys)"
  using assms by (induction xs) (auto simp add: phisFirst_def)

lemma multiequal_not_flowbreak:
  "code op = Some CPUI_MULTIEQUAL \<Longrightarrow> \<not> isFlowBreak op"
  by (simp add: isFlowBreak_def)

lemma branchLast_snoc:
  assumes "branchLast fd ops" and "ops = [] \<or> \<not> isFlowBreak (obank fd (last ops))"
  shows "branchLast fd (ops @ [op])"
proof (cases "ops = []")
  case True
  then show ?thesis by (simp add: branchLast_def)
next
  case False
  then have e: "butlast ops @ [last ops] = ops" by simp
  have "list_all (\<lambda>op. \<not> isFlowBreak (obank fd op)) (butlast ops @ [last ops]) =
       (list_all (\<lambda>op. \<not> isFlowBreak (obank fd op)) (butlast ops) \<and> \<not> isFlowBreak (obank fd (last ops)))"
    by simp
  then have "list_all (\<lambda>op. \<not> isFlowBreak (obank fd op)) ops =
       (list_all (\<lambda>op. \<not> isFlowBreak (obank fd op)) (butlast ops) \<and> \<not> isFlowBreak (obank fd (last ops)))"
    by (simp only: e)
  then show ?thesis using assms False by (simp add: branchLast_def)
qed

lemma opInsertBegin_ordered:
  assumes ord: "blockOrdered fd bl" and nfb: "\<not> isFlowBreak (obank fd op)"
  shows "blockOrdered (opInsertBegin op bl fd) bl"
proof -
  let ?ops = "bl_op (bblocks fd bl)"
  let ?P = "\<lambda>op. code (obank fd op) = Some CPUI_MULTIEQUAL"
  have pf: "phisFirst fd ?ops" and bl: "branchLast fd ?ops"
    using ord by (simp_all add: blockOrdered_def)
  show ?thesis
  proof (cases "code (obank fd op) = Some CPUI_MULTIEQUAL")
    case True
    have "phisFirst fd (op # ?ops)" using pf True by (rule phisFirst_insert_phi)
    moreover have "branchLast fd (op # ?ops)"
      using bl nfb by (cases ?ops) (simp_all add: branchLast_def)
    ultimately show ?thesis
      using True
      by (simp add: blockOrdered_def opInsertBegin_def phisFirst_cong [of "opInsert op bl 0 fd" fd]
          branchLast_cong [of "opInsert op bl 0 fd" fd])
  next
    case False
    let ?k = "skipMultiequal fd ?ops 0"
    have k: "?k = length (takeWhile ?P ?ops)" by (simp add: skipMultiequal_takeWhile)
    have p: "phisFirst fd (take ?k ?ops @ [op] @ drop ?k ?ops)"
      using pf False by (rule phisFirst_insert_nonphi)
    have b: "branchLast fd (take ?k ?ops @ [op] @ drop ?k ?ops)"
    proof (cases "?k < length ?ops")
      case True
      with bl nfb show ?thesis by (rule branchLast_insert)
    next
      case False
      have "takeWhile ?P ?ops = take (length (takeWhile ?P ?ops)) ?ops"
        by (rule takeWhile_eq_take)
      with False k have all: "takeWhile ?P ?ops = ?ops" by simp
      have "\<forall>x \<in> set (takeWhile ?P ?ops). ?P x" by (auto dest: set_takeWhileD)
      then have "\<forall>x \<in> set ?ops. ?P x" by (simp only: all)
      then have "list_all (\<lambda>op. \<not> isFlowBreak (obank fd op)) ?ops"
        by (auto simp add: list_all_iff multiequal_not_flowbreak)
      then have "branchLast fd (?ops @ [op])" by (simp add: branchLast_def)
      then show ?thesis using False by simp
    qed
    show ?thesis
      using False p b
      by (simp add: blockOrdered_def opInsertBegin_def phisFirst_cong [of "opInsert op bl ?k fd" fd]
          branchLast_cong [of "opInsert op bl ?k fd" fd])
  qed
qed

lemma drop_to_last: "xs \<noteq> [] \<Longrightarrow> drop (length xs - Suc 0) xs = [last xs]"
  by (cases xs rule: rev_cases) simp_all

lemma opInsertEnd_list:
  "bl_op (bblocks (opInsertEnd op bl fd) bl) =
     (let ops = bl_op (bblocks fd bl)
      in if ops \<noteq> [] \<and> isFlowBreak (obank fd (last ops))
         then butlast ops @ [op, last ops] else ops @ [op])"
proof (cases "bl_op (bblocks fd bl) = []")
  case True
  then show ?thesis by (simp add: opInsertEnd_def)
next
  case False
  then have "drop (length (bl_op (bblocks fd bl)) - Suc 0) (bl_op (bblocks fd bl)) = [last (bl_op (bblocks fd bl))]"
    by (rule drop_to_last)
  then show ?thesis
    using False by (simp add: opInsertEnd_def Let_def last_conv_nth butlast_conv_take)
qed

lemma opInsertBegin_list:
  assumes "code (obank fd op) \<noteq> Some CPUI_MULTIEQUAL"
  shows "bl_op (bblocks (opInsertBegin op bl fd) bl) =
     takeWhile (\<lambda>x. code (obank fd x) = Some CPUI_MULTIEQUAL) (bl_op (bblocks fd bl)) @ [op]
     @ dropWhile (\<lambda>x. code (obank fd x) = Some CPUI_MULTIEQUAL) (bl_op (bblocks fd bl))"
  using assms
  by (simp add: opInsertBegin_def skipMultiequal_takeWhile takeWhile_eq_take [symmetric]
      dropWhile_eq_drop [symmetric])

lemma opInsertEnd_ordered:
  assumes ord: "blockOrdered fd bl" and nm: "code (obank fd op) \<noteq> Some CPUI_MULTIEQUAL"
      and fb: "isFlowBreak (obank fd op) \<longrightarrow>
                 bl_op (bblocks fd bl) = [] \<or> \<not> isFlowBreak (obank fd (last (bl_op (bblocks fd bl))))"
  shows "blockOrdered (opInsertEnd op bl fd) bl"
proof -
  let ?ops = "bl_op (bblocks fd bl)"
  let ?fd' = "opInsertEnd op bl fd"
  have pf: "phisFirst fd ?ops" and bl: "branchLast fd ?ops"
    using ord by (simp_all add: blockOrdered_def)
  have c: "\<And>x. code (obank ?fd' x) = code (obank fd x)"
    by (simp add: opInsertEnd_def Let_def)
  have f: "\<And>x. isFlowBreak (obank ?fd' x) = isFlowBreak (obank fd x)"
    by (simp add: opInsertEnd_def Let_def)
  show ?thesis
  proof (cases "?ops \<noteq> [] \<and> isFlowBreak (obank fd (last ?ops))")
    case True
    then have eq: "?ops = butlast ?ops @ [last ?ops]" by simp
    have nmlast: "code (obank fd (last ?ops)) \<noteq> Some CPUI_MULTIEQUAL"
      using True multiequal_not_flowbreak by blast
    have "phisFirst fd (butlast ?ops @ [last ?ops])" using pf eq by simp
    then have p: "phisFirst fd (butlast ?ops @ [op] @ [last ?ops])"
      using nm nmlast by (intro phisFirst_insert) simp_all
    have nfb: "\<not> isFlowBreak (obank fd op)" using fb True by blast
    have b: "branchLast fd (butlast ?ops @ [op, last ?ops])"
      using bl nfb by (simp add: branchLast_def butlast_append)
    show ?thesis
      using True p b
      by (simp add: blockOrdered_def opInsertEnd_list Let_def phisFirst_cong [OF c] branchLast_cong [OF f])
  next
    case False
    have "phisFirst fd (?ops @ [op] @ [])" using pf nm by (intro phisFirst_insert) simp_all
    then have p: "phisFirst fd (?ops @ [op])" by simp
    have b: "branchLast fd (?ops @ [op])" using bl False by (intro branchLast_snoc) auto
    show ?thesis
      using False p b
      by (auto simp add: blockOrdered_def opInsertEnd_list Let_def phisFirst_cong [OF c] branchLast_cong [OF f])
  qed
qed


text \<open>
  Claim C5, as the code has it.  Let the block satisfy the ordering rule.  Inserting an
  op that does not break the flow with opInsertBegin keeps the rule.  Inserting an op
  that is not a MULTIEQUAL with opInsertEnd keeps the rule, provided the op does not
  break the flow or the block does not end in an op that breaks the flow.  An op that is
  not a MULTIEQUAL is placed by opInsertBegin right after the leading MULTIEQUALs; an op
  inserted by opInsertEnd is placed before the last op if that breaks the flow, and
  last otherwise.
\<close>

theorem C5_insertion_keeps_block_order:
  assumes "blockOrdered fd bl"
  shows "(\<not> isFlowBreak (obank fd op) \<longrightarrow> blockOrdered (opInsertBegin op bl fd) bl)
     \<and> (code (obank fd op) \<noteq> Some CPUI_MULTIEQUAL \<longrightarrow>
          (isFlowBreak (obank fd op) \<longrightarrow>
             bl_op (bblocks fd bl) = [] \<or> \<not> isFlowBreak (obank fd (last (bl_op (bblocks fd bl))))) \<longrightarrow>
          blockOrdered (opInsertEnd op bl fd) bl)
     \<and> (code (obank fd op) \<noteq> Some CPUI_MULTIEQUAL \<longrightarrow>
          bl_op (bblocks (opInsertBegin op bl fd) bl) =
            takeWhile (\<lambda>x. code (obank fd x) = Some CPUI_MULTIEQUAL) (bl_op (bblocks fd bl)) @ [op]
            @ dropWhile (\<lambda>x. code (obank fd x) = Some CPUI_MULTIEQUAL) (bl_op (bblocks fd bl)))
     \<and> bl_op (bblocks (opInsertEnd op bl fd) bl) =
          (let ops = bl_op (bblocks fd bl)
           in if ops \<noteq> [] \<and> isFlowBreak (obank fd (last ops))
              then butlast ops @ [op, last ops] else ops @ [op])"
  using assms opInsertBegin_ordered [of fd bl op] opInsertEnd_ordered [of fd bl op]
    opInsertBegin_list [of fd op bl] opInsertEnd_list [of op bl fd]
  by blast

lemma fd_block_codes:
  "code (obank fd_block 0) = Some CPUI_MULTIEQUAL" "code (obank fd_block 1) = Some CPUI_COPY"
  "code (obank fd_block 2) = Some CPUI_BRANCH" "code (obank fd_block 3) = Some CPUI_INT_ADD"
  "code (obank fd_block 4) = Some CPUI_BRANCH" "code (obank fd_block 5) = Some CPUI_MULTIEQUAL"
  "code (obank fd_block 6) = Some CPUI_COPY"
  "code (obank fd_block (Suc 0)) = Some CPUI_COPY"
  "bl_op (bblocks fd_block 0) = [0, 1, 2]" "bl_op (bblocks fd_block 1) = [6]"
  "bl_op (bblocks fd_block (Suc 0)) = [6]"
  by (simp_all add: fd_block_def code_def mk_op_def empty_fd_def empty_block_def)

lemma fd_block_ordered: "blockOrdered fd_block 0" "blockOrdered fd_block 1"
  using fd_block_codes by (simp_all add: blockOrdered_def phisFirst_def branchLast_def isFlowBreak_def)

theorem C5_insertion_keeps_block_order_witness:
  "blockOrdered fd_block 0
   \<and> \<not> isFlowBreak (obank fd_block 3) \<and> code (obank fd_block 3) \<noteq> Some CPUI_MULTIEQUAL
   \<and> bl_op (bblocks (opInsertBegin 3 0 fd_block) 0) = [0, 3, 1, 2]
   \<and> blockOrdered (opInsertBegin 3 0 fd_block) 0
   \<and> bl_op (bblocks (opInsertEnd 3 0 fd_block) 0) = [0, 1, 3, 2]
   \<and> blockOrdered (opInsertEnd 3 0 fd_block) 0"
  using C5_insertion_keeps_block_order [OF fd_block_ordered(1), of 3] fd_block_ordered(1) fd_block_codes
  by (simp add: isFlowBreak_def)

text \<open>
  The claim as stated fails: inserting the detached BRANCH 4 at the beginning of block 1
  puts it in front of the COPY, and inserting the detached MULTIEQUAL 5 at the end of
  block 1 puts it behind the COPY.
\<close>

theorem C5_insertion_order_counterexample:
  "blockOrdered fd_block 1 \<and> op_parent (obank fd_block 4) = None
   \<and> op_parent (obank fd_block 5) = None
   \<and> bl_op (bblocks (opInsertBegin 4 1 fd_block) 1) = [4, 6]
   \<and> \<not> blockOrdered (opInsertBegin 4 1 fd_block) 1
   \<and> bl_op (bblocks (opInsertEnd 5 1 fd_block) 1) = [6, 5]
   \<and> \<not> blockOrdered (opInsertEnd 5 1 fd_block) 1"
proof -
  have b: "bl_op (bblocks (opInsertBegin 4 1 fd_block) 1) = [4, 6]"
    using fd_block_codes by (simp add: opInsertBegin_def)
  have e: "bl_op (bblocks (opInsertEnd 5 1 fd_block) 1) = [6, 5]"
    using fd_block_codes by (simp add: opInsertEnd_def isFlowBreak_def)
  have p: "op_parent (obank fd_block 4) = None" "op_parent (obank fd_block 5) = None"
    by (simp_all add: fd_block_def mk_op_def)
  have nb: "\<not> branchLast (opInsertBegin 4 1 fd_block) [4, 6]"
    using fd_block_codes by (simp add: branchLast_def isFlowBreak_def)
  have ne: "\<not> phisFirst (opInsertEnd 5 1 fd_block) [6, 5]"
    using fd_block_codes by (simp add: phisFirst_def)
  show ?thesis
    using b e p nb ne fd_block_ordered(2)
    by (simp add: blockOrdered_def)
qed


section \<open>Cloning an op\<close>

lemma cloneVarnode_facts:
  assumes "cloneVarnode vn fd = (nv, fd1)"
  shows "nv = create_index fd" "create_index fd1 = Suc (create_index fd)"
    "obank fd1 = obank fd" "op_count fd1 = op_count fd"
    "\<And>w. w \<noteq> nv \<Longrightarrow> vbank fd1 w = vbank fd w"
    "vn_size (vbank fd1 nv) = vn_size vn" "vn_loc (vbank fd1 nv) = vn_loc vn"
    "vn_def (vbank fd1 nv) = None" "vn_descend (vbank fd1 nv) = []"
  using assms
  by (auto simp add: cloneVarnode_def vbank_create_def Let_def new_varnode_def split: prod.splits)

lemma opSetInput_fresh:
  assumes "slot < numInput (obank fd op)" and "getIn (obank fd op) slot = None"
      and "vn_descend (vbank fd vn) = []"
  shows "opSetInput op vn slot fd =
     Inr (op_setInput op (Some vn) slot
            (fd\<lparr>vbank := (vbank fd)(vn := addDescend op (vbank fd vn))\<rparr>))"
  using assms by (simp add: opSetInput_def hasNoDescend_def)

lemma getIn_op_setInput:
  "getIn (obank (op_setInput op v slot fd) op) j =
     (if j = slot \<and> slot < numInput (obank fd op) then v else getIn (obank fd op) j)"
  by (auto simp add: getIn_def op_setInput_def numInput_def)

lemma clonedInto_mono:
  "clonedInto fd' newop i sv lo' \<Longrightarrow> lo \<le> lo' \<Longrightarrow> clonedInto fd' newop i sv lo"
  by (auto simp add: clonedInto_def split: option.splits)

lemma cloneOp_inputs_result:
  assumes "\<forall>i \<in> set slots. i < numInput (obank fd newop) \<and> getIn (obank fd newop) i = None
              \<and> getIn op i \<noteq> None"
      and "distinct slots"
  shows "\<exists>fd'. cloneOp_inputs src op newop slots fd = Inr fd'
          \<and> create_index fd \<le> create_index fd'
          \<and> op_count fd' = op_count fd
          \<and> (\<forall>w < create_index fd. vbank fd' w = vbank fd w)
          \<and> (\<forall>x. x \<noteq> newop \<longrightarrow> obank fd' x = obank fd x)
          \<and> op_opcode (obank fd' newop) = op_opcode (obank fd newop)
          \<and> op_flags (obank fd' newop) = op_flags (obank fd newop)
          \<and> op_output (obank fd' newop) = op_output (obank fd newop)
          \<and> op_parent (obank fd' newop) = op_parent (obank fd newop)
          \<and> op_addr (obank fd' newop) = op_addr (obank fd newop)
          \<and> op_time (obank fd' newop) = op_time (obank fd newop)
          \<and> numInput (obank fd' newop) = numInput (obank fd newop)
          \<and> (\<forall>j. j \<notin> set slots \<longrightarrow> getIn (obank fd' newop) j = getIn (obank fd newop) j)
          \<and> (\<forall>i \<in> set slots.
                clonedInto fd' newop i (vbank src (the (getIn op i))) (create_index fd))"
  using assms
proof (induction slots arbitrary: fd)
  case Nil
  then show ?case by simp
next
  case (Cons i rest)
  from Cons.prems obtain v where v: "getIn op i = Some v" by auto
  obtain nv fd1 where cv: "cloneVarnode (vbank src v) fd = (nv, fd1)"
    by (cases "cloneVarnode (vbank src v) fd") auto
  note f = cloneVarnode_facts [OF cv]
  define fd2 where "fd2 = op_setInput newop (Some nv) i
            (fd1\<lparr>vbank := (vbank fd1)(nv := addDescend newop (vbank fd1 nv))\<rparr>)"
  have i: "i < numInput (obank fd newop)" "getIn (obank fd newop) i = None"
    using Cons.prems by auto
  have s: "opSetInput newop nv i fd1 = Inr fd2"
    unfolding fd2_def using i f by (intro opSetInput_fresh) simp_all
  have fd2_facts: "create_index fd2 = Suc (create_index fd)" "op_count fd2 = op_count fd"
    "\<And>w. w \<noteq> nv \<Longrightarrow> vbank fd2 w = vbank fd w"
    "\<And>x. x \<noteq> newop \<Longrightarrow> obank fd2 x = obank fd x"
    "op_opcode (obank fd2 newop) = op_opcode (obank fd newop)"
    "op_flags (obank fd2 newop) = op_flags (obank fd newop)"
    "op_output (obank fd2 newop) = op_output (obank fd newop)"
    "op_parent (obank fd2 newop) = op_parent (obank fd newop)"
    "op_addr (obank fd2 newop) = op_addr (obank fd newop)"
    "op_time (obank fd2 newop) = op_time (obank fd newop)"
    "numInput (obank fd2 newop) = numInput (obank fd newop)"
    "\<And>j. getIn (obank fd2 newop) j = (if j = i then Some nv else getIn (obank fd newop) j)"
    "vn_loc (vbank fd2 nv) = vn_loc (vbank src v)" "vn_size (vbank fd2 nv) = vn_size (vbank src v)"
    "vn_descend (vbank fd2 nv) = [newop]"
    using f i by (auto simp add: fd2_def op_setInput_def getIn_def numInput_def addDescend_def)
  have pre: "\<forall>j \<in> set rest. j < numInput (obank fd2 newop) \<and> getIn (obank fd2 newop) j = None
              \<and> getIn op j \<noteq> None"
    using Cons.prems fd2_facts by auto
  from Cons.IH [OF pre] Cons.prems(2)
  obtain fd' where r: "cloneOp_inputs src op newop rest fd2 = Inr fd'"
    and m: "create_index fd2 \<le> create_index fd'" "op_count fd' = op_count fd2"
    and vb: "\<forall>w < create_index fd2. vbank fd' w = vbank fd2 w"
    and ob: "\<forall>x. x \<noteq> newop \<longrightarrow> obank fd' x = obank fd2 x"
    and fl: "op_opcode (obank fd' newop) = op_opcode (obank fd2 newop)"
      "op_flags (obank fd' newop) = op_flags (obank fd2 newop)"
      "op_output (obank fd' newop) = op_output (obank fd2 newop)"
      "op_parent (obank fd' newop) = op_parent (obank fd2 newop)"
      "op_addr (obank fd' newop) = op_addr (obank fd2 newop)"
      "op_time (obank fd' newop) = op_time (obank fd2 newop)"
      "numInput (obank fd' newop) = numInput (obank fd2 newop)"
    and ot: "\<forall>j. j \<notin> set rest \<longrightarrow> getIn (obank fd' newop) j = getIn (obank fd2 newop) j"
    and cl: "\<forall>j \<in> set rest. clonedInto fd' newop j (vbank src (the (getIn op j))) (create_index fd2)"
    by auto
  have run: "cloneOp_inputs src op newop (i # rest) fd = Inr fd'"
    using v cv s r by simp
  have nvlt: "nv < create_index fd2" using f fd2_facts by simp
  have ci: "clonedInto fd' newop i (vbank src (the (getIn op i))) (create_index fd)"
    using Cons.prems(2) ot vb nvlt fd2_facts m f(1) v
    by (simp add: clonedInto_def)
  have cr: "\<forall>j \<in> set rest. clonedInto fd' newop j (vbank src (the (getIn op j))) (create_index fd)"
  proof
    fix j assume "j \<in> set rest"
    then have "clonedInto fd' newop j (vbank src (the (getIn op j))) (create_index fd2)"
      using cl by simp
    then show "clonedInto fd' newop j (vbank src (the (getIn op j))) (create_index fd)"
      by (rule clonedInto_mono) (simp add: fd2_facts(1))
  qed
  have vb': "\<forall>w < create_index fd. vbank fd' w = vbank fd w"
    using vb fd2_facts(1,3) f(1) by auto
  show ?case
    using run m fd2_facts vb' ob fl ot ci cr
    by auto
qed


lemma setVarnodeProperties_frame [simp]:
  "create_index (setVarnodeProperties v fd) = create_index fd"
  "op_count (setVarnodeProperties v fd) = op_count fd"
  "bblocks (setVarnodeProperties v fd) = bblocks fd"
  "vn_loc (vbank (setVarnodeProperties v fd) w) = vn_loc (vbank fd w)"
  "vn_size (vbank (setVarnodeProperties v fd) w) = vn_size (vbank fd w)"
  "vn_descend (vbank (setVarnodeProperties v fd) w) = vn_descend (vbank fd w)"
  "w \<noteq> v \<Longrightarrow> vbank (setVarnodeProperties v fd) w = vbank fd w"
  by (simp_all add: setVarnodeProperties_def Let_def split: prod.splits option.splits)

lemma opSetInput_bblocks:
  "opSetInput op vn slot fd = Inr fd' \<Longrightarrow> bblocks fd' = bblocks fd"
  by (auto simp add: opSetInput_def opUnsetInput_def newConstant_def vbank_create_def Let_def
      assignHigh_def op_setInput_def split: option.splits sum.splits if_splits)

lemma cloneVarnode_bblocks:
  "cloneVarnode vn fd = (nv, fd1) \<Longrightarrow> bblocks fd1 = bblocks fd"
  by (auto simp add: cloneVarnode_def vbank_create_def Let_def)

lemma cloneOp_inputs_bblocks:
  "cloneOp_inputs src op newop slots fd = Inr fd' \<Longrightarrow> bblocks fd' = bblocks fd"
proof (induction slots arbitrary: fd)
  case Nil
  then show ?case by simp
next
  case (Cons i rest)
  from Cons.prems obtain v nv fd1 fd2 where "getIn op i = Some v"
    and cv: "cloneVarnode (vbank src v) fd = (nv, fd1)"
    and si: "opSetInput newop nv i fd1 = Inr fd2"
    and r: "cloneOp_inputs src op newop rest fd2 = Inr fd'"
    by (auto split: option.splits prod.splits sum.splits)
  from Cons.IH [OF r] opSetInput_bblocks [OF si] cloneVarnode_bblocks [OF cv]
  show ?case by simp
qed

lemma cloneOp_result:
  assumes c: "code (obank src opr) = Some opc"
      and ins: "\<forall>i < numInput (obank src opr). getIn (obank src opr) i \<noteq> None"
  shows "\<exists>fd'. cloneOp src opr seq fd = Inr (op_count fd, fd')
     \<and> op_opcode (obank fd' (op_count fd)) = Some opc
     \<and> op_flags (obank fd' (op_count fd))
          = {op_dead} \<union> (op_flags (obank src opr) \<inter> {op_startmark, op_startbasic})
     \<and> op_parent (obank fd' (op_count fd)) = None
     \<and> op_addr (obank fd' (op_count fd)) = fst seq
     \<and> op_time (obank fd' (op_count fd)) = snd seq
     \<and> numInput (obank fd' (op_count fd)) = numInput (obank src opr)
     \<and> (case op_output (obank src opr) of
           None \<Rightarrow> op_output (obank fd' (op_count fd)) = None
         | Some out \<Rightarrow>
             (case op_output (obank fd' (op_count fd)) of
                None \<Rightarrow> False
              | Some v \<Rightarrow> create_index fd \<le> v
                   \<and> vn_loc (vbank fd' v) = vn_loc (vbank src out)
                   \<and> vn_size (vbank fd' v) = vn_size (vbank src out)
                   \<and> vn_def (vbank fd' v) = Some (op_count fd)))
     \<and> (\<forall>i < numInput (obank src opr).
           clonedInto fd' (op_count fd) i (vbank src (the (getIn (obank src opr) i)))
             (create_index fd))
     \<and> (\<forall>x. x \<noteq> op_count fd \<longrightarrow> obank fd' x = obank fd x)
     \<and> bblocks fd' = bblocks fd"
proof -
  let ?op = "obank src opr"
  let ?n = "numInput ?op"
  let ?new = "op_count fd"
  define fd1 where "fd1 = snd (newOp_seq ?n seq fd)"
  define fd3 where "fd3 = opSetFlag ?new (op_flags ?op \<inter> {op_startmark, op_startbasic})
      (opSetOpcode ?new opc fd1)"
  have n1: "newOp_seq ?n seq fd = (?new, fd1)"
    by (simp add: fd1_def newOp_seq_def obank_create_def Let_def)
  have fd3_facts: "create_index fd3 = create_index fd" "op_count fd3 = Suc (op_count fd)"
    "vbank fd3 = vbank fd" "bblocks fd3 = bblocks fd"
    "\<And>x. x \<noteq> ?new \<Longrightarrow> obank fd3 x = obank fd x"
    "obank fd3 ?new = \<lparr>op_opcode = Some opc,
        op_flags = {op_dead} \<union> (op_flags ?op \<inter> {op_startmark, op_startbasic}),
        op_output = None, op_inrefs = replicate ?n None, op_parent = None,
        op_addr = fst seq, op_time = snd seq\<rparr>"
    by (simp_all add: fd3_def fd1_def opSetFlag_def opSetOpcode_def newOp_seq_def obank_create_def Let_def)
  define fd5 where "fd5 = (case op_output ?op of
       None \<Rightarrow> fd3
     | Some out \<Rightarrow> op_setOutput ?new (Some (create_index fd))
          (setVarnodeProperties (create_index fd)
            (snd (cloneVarnode (vbank src out) fd3)
               \<lparr>vbank := (vbank (snd (cloneVarnode (vbank src out) fd3)))
                  (create_index fd := (vbank (snd (cloneVarnode (vbank src out) fd3)) (create_index fd))
                       \<lparr>vn_def := Some ?new\<rparr>)\<rparr>)))"
  have out: "(case op_output ?op of
                None \<Rightarrow> Inr fd3
              | Some out \<Rightarrow>
                  (case cloneVarnode (vbank src out) fd3 of
                     (nv, fd4) \<Rightarrow> opSetOutput ?new nv fd4)) = Inr fd5"
  proof (cases "op_output ?op")
    case None
    then show ?thesis by (simp add: fd5_def)
  next
    case (Some out)
    obtain nv fd4 where cv: "cloneVarnode (vbank src out) fd3 = (nv, fd4)"
      by (cases "cloneVarnode (vbank src out) fd3") auto
    note f = cloneVarnode_facts [OF cv]
    have "opSetOutput ?new nv fd4 = Inr fd5"
      using f fd3_facts Some cv
      by (simp add: opSetOutput_def setDef_def fd5_def Let_def)
    then show ?thesis using Some cv by simp
  qed
  have fd5_facts: "create_index fd \<le> create_index fd5"
    "bblocks fd5 = bblocks fd"
    "\<And>x. x \<noteq> ?new \<Longrightarrow> obank fd5 x = obank fd x"
    "op_opcode (obank fd5 ?new) = Some opc"
    "op_flags (obank fd5 ?new) = {op_dead} \<union> (op_flags ?op \<inter> {op_startmark, op_startbasic})"
    "op_parent (obank fd5 ?new) = None" "op_addr (obank fd5 ?new) = fst seq"
    "op_time (obank fd5 ?new) = snd seq" "op_inrefs (obank fd5 ?new) = replicate ?n None"
    using fd3_facts
    by (auto simp add: fd5_def op_setOutput_def cloneVarnode_def vbank_create_def Let_def
        split: option.splits)
  have fd5_out: "case op_output ?op of
           None \<Rightarrow> op_output (obank fd5 ?new) = None
         | Some out \<Rightarrow>
             (case op_output (obank fd5 ?new) of
                None \<Rightarrow> False
              | Some v \<Rightarrow> create_index fd \<le> v \<and> v < create_index fd5
                   \<and> vn_loc (vbank fd5 v) = vn_loc (vbank src out)
                   \<and> vn_size (vbank fd5 v) = vn_size (vbank src out)
                   \<and> vn_def (vbank fd5 v) = Some ?new)"
    using fd3_facts
    by (auto simp add: fd5_def op_setOutput_def cloneVarnode_def vbank_create_def Let_def
        new_varnode_def split: option.splits)
  have pre: "\<forall>i \<in> set [0..<?n]. i < numInput (obank fd5 ?new) \<and> getIn (obank fd5 ?new) i = None
              \<and> getIn ?op i \<noteq> None"
    using ins fd5_facts(9) by (simp add: numInput_def getIn_def)
  from cloneOp_inputs_result [OF pre, of src]
  obtain fd' where r: "cloneOp_inputs src ?op ?new [0..<?n] fd5 = Inr fd'"
    and m: "create_index fd5 \<le> create_index fd'"
    and vb: "\<forall>w < create_index fd5. vbank fd' w = vbank fd5 w"
    and ob: "\<forall>x. x \<noteq> ?new \<longrightarrow> obank fd' x = obank fd5 x"
    and fl: "op_opcode (obank fd' ?new) = op_opcode (obank fd5 ?new)"
      "op_flags (obank fd' ?new) = op_flags (obank fd5 ?new)"
      "op_output (obank fd' ?new) = op_output (obank fd5 ?new)"
      "op_parent (obank fd' ?new) = op_parent (obank fd5 ?new)"
      "op_addr (obank fd' ?new) = op_addr (obank fd5 ?new)"
      "op_time (obank fd' ?new) = op_time (obank fd5 ?new)"
      "numInput (obank fd' ?new) = numInput (obank fd5 ?new)"
    and cl: "\<forall>i \<in> set [0..<?n]. clonedInto fd' ?new i (vbank src (the (getIn ?op i))) (create_index fd5)"
    by auto
  have run: "cloneOp src opr seq fd = Inr (?new, fd')"
    using out [unfolded fd3_def] by (simp add: cloneOp_def Let_def n1 c r)
  have cl': "\<forall>i < ?n. clonedInto fd' ?new i (vbank src (the (getIn ?op i))) (create_index fd)"
  proof (intro allI impI)
    fix i assume "i < ?n"
    then have "clonedInto fd' ?new i (vbank src (the (getIn ?op i))) (create_index fd5)"
      using cl by simp
    then show "clonedInto fd' ?new i (vbank src (the (getIn ?op i))) (create_index fd)"
      using fd5_facts(1) by (rule clonedInto_mono)
  qed
  have o': "case op_output ?op of
           None \<Rightarrow> op_output (obank fd' ?new) = None
         | Some out \<Rightarrow>
             (case op_output (obank fd' ?new) of
                None \<Rightarrow> False
              | Some v \<Rightarrow> create_index fd \<le> v
                   \<and> vn_loc (vbank fd' v) = vn_loc (vbank src out)
                   \<and> vn_size (vbank fd' v) = vn_size (vbank src out)
                   \<and> vn_def (vbank fd' v) = Some ?new)"
    using fd5_out fl(3) vb by (auto split: option.splits)
  have nI: "numInput (obank fd' ?new) = ?n" using fl(7) fd5_facts(9) by (simp add: numInput_def)
  have bb: "bblocks fd' = bblocks fd" using cloneOp_inputs_bblocks [OF r] fd5_facts(2) by simp
  show ?thesis
    using run fl fd5_facts o' cl' ob nI bb by auto
qed


lemma fd_copy_facts:
  "code (obank fd_copy 0) = Some CPUI_COPY" "numInput (obank fd_copy 0) = 1"
  "getIn (obank fd_copy 0) 0 = Some 0" "op_output (obank fd_copy 0) = Some 1"
  "op_flags (obank fd_copy 0) = {op_startbasic, op_mark}" "op_count fd_copy = 1"
  "create_index fd_copy = 2" "vn_loc (vbank fd_copy 0) = Address constant_space 7"
  "vn_loc (vbank fd_copy 1) = Address register_space 0x10"
  "vn_loc (vbank fd_copy (Suc 0)) = Address register_space 0x10"
  "op_parent (obank fd_copy 0) = Some 0"
  by (simp_all add: fd_copy_def mk_op_def code_def numInput_def getIn_def empty_fd_def new_varnode_def)

text \<open>
  Claim C7, as the code has it.  For an op with an opcode and no empty input slot,
  cloneOp returns a new op (the next op index) with the same opcode and the given
  sequence number.  Of the flags of the op only startmark and startbasic are copied; the
  clone is dead and has no block, and no block changes.  When the op has an output, the
  output of the clone is a new Varnode at the same storage address and of the same size,
  defined by the clone; every input slot of the clone holds a new Varnode at the storage
  address and of the size of the input of the op in that slot.
\<close>

theorem C7_cloneOp:
  assumes "code (obank src opr) = Some opc"
      and "\<forall>i < numInput (obank src opr). getIn (obank src opr) i \<noteq> None"
  shows "\<exists>fd'. cloneOp src opr seq fd = Inr (op_count fd, fd')
     \<and> op_opcode (obank fd' (op_count fd)) = Some opc
     \<and> op_flags (obank fd' (op_count fd))
          = {op_dead} \<union> (op_flags (obank src opr) \<inter> {op_startmark, op_startbasic})
     \<and> op_parent (obank fd' (op_count fd)) = None
     \<and> op_addr (obank fd' (op_count fd)) = fst seq
     \<and> op_time (obank fd' (op_count fd)) = snd seq
     \<and> numInput (obank fd' (op_count fd)) = numInput (obank src opr)
     \<and> (case op_output (obank src opr) of
           None \<Rightarrow> op_output (obank fd' (op_count fd)) = None
         | Some out \<Rightarrow>
             (case op_output (obank fd' (op_count fd)) of
                None \<Rightarrow> False
              | Some v \<Rightarrow> create_index fd \<le> v
                   \<and> vn_loc (vbank fd' v) = vn_loc (vbank src out)
                   \<and> vn_size (vbank fd' v) = vn_size (vbank src out)
                   \<and> vn_def (vbank fd' v) = Some (op_count fd)))
     \<and> (\<forall>i < numInput (obank src opr).
           clonedInto fd' (op_count fd) i (vbank src (the (getIn (obank src opr) i)))
             (create_index fd))
     \<and> (\<forall>x. x \<noteq> op_count fd \<longrightarrow> obank fd' x = obank fd x)
     \<and> bblocks fd' = bblocks fd"
  using assms by (rule cloneOp_result)

theorem C7_cloneOp_witness:
  "code (obank fd_copy 0) = Some CPUI_COPY \<and> getIn (obank fd_copy 0) 0 = Some 0
   \<and> op_output (obank fd_copy 0) = Some 1
   \<and> fst (projr (cloneOp fd_copy 0 (Address ram_space 0x2000, 5) fd_copy)) = 1
   \<and> op_opcode (obank (snd (projr (cloneOp fd_copy 0 (Address ram_space 0x2000, 5) fd_copy))) 1)
        = Some CPUI_COPY
   \<and> op_flags (obank (snd (projr (cloneOp fd_copy 0 (Address ram_space 0x2000, 5) fd_copy))) 1)
        = {op_dead, op_startbasic}
   \<and> op_parent (obank (snd (projr (cloneOp fd_copy 0 (Address ram_space 0x2000, 5) fd_copy))) 1) = None
   \<and> clonedInto (snd (projr (cloneOp fd_copy 0 (Address ram_space 0x2000, 5) fd_copy))) 1 0
        (vbank fd_copy 0) 2"
proof -
  have h: "\<forall>i < numInput (obank fd_copy 0). getIn (obank fd_copy 0) i \<noteq> None"
    using fd_copy_facts by simp
  from C7_cloneOp [OF fd_copy_facts(1) h, of "(Address ram_space 0x2000, 5)" fd_copy]
  obtain fd' where r: "cloneOp fd_copy 0 (Address ram_space 0x2000, 5) fd_copy = Inr (op_count fd_copy, fd')"
   and a: "op_opcode (obank fd' (op_count fd_copy)) = Some CPUI_COPY"
     "op_flags (obank fd' (op_count fd_copy))
          = {op_dead} \<union> (op_flags (obank fd_copy 0) \<inter> {op_startmark, op_startbasic})"
     "op_parent (obank fd' (op_count fd_copy)) = None"
   and c: "\<forall>i < numInput (obank fd_copy 0).
           clonedInto fd' (op_count fd_copy) i (vbank fd_copy (the (getIn (obank fd_copy 0) i)))
             (create_index fd_copy)"
    by blast
  from c have c0: "clonedInto fd' (op_count fd_copy) 0 (vbank fd_copy (the (getIn (obank fd_copy 0) 0)))
             (create_index fd_copy)" using fd_copy_facts by simp
  show ?thesis using r a c0 fd_copy_facts by auto
qed

text \<open>
  The claim as stated fails on the flags: the COPY of \<open>fd_copy\<close> has the mark flag,
  its clone does not.
\<close>

theorem C7_flags_counterexample:
  "op_mark \<in> op_flags (obank fd_copy 0)
   \<and> \<not> isl (cloneOp fd_copy 0 (Address ram_space 0x2000, 5) fd_copy)
   \<and> fst (projr (cloneOp fd_copy 0 (Address ram_space 0x2000, 5) fd_copy)) = 1
   \<and> op_mark \<notin> op_flags (obank (snd (projr (cloneOp fd_copy 0 (Address ram_space 0x2000, 5) fd_copy))) 1)
   \<and> op_flags (obank (snd (projr (cloneOp fd_copy 0 (Address ram_space 0x2000, 5) fd_copy))) 1)
        \<noteq> op_flags (obank fd_copy 0)"
proof -
  have h: "\<forall>i < numInput (obank fd_copy 0). getIn (obank fd_copy 0) i \<noteq> None"
    using fd_copy_facts by simp
  from cloneOp_result [OF fd_copy_facts(1) h, of "(Address ram_space 0x2000, 5)" fd_copy]
  obtain fd' where r: "cloneOp fd_copy 0 (Address ram_space 0x2000, 5) fd_copy = Inr (op_count fd_copy, fd')"
   and a: "op_flags (obank fd' (op_count fd_copy))
          = {op_dead} \<union> (op_flags (obank fd_copy 0) \<inter> {op_startmark, op_startbasic})"
    by blast
  show ?thesis using r a fd_copy_facts by auto
qed


section \<open>replaceLessequal\<close>

lemma replaceLessequal_finish_result:
  assumes "i < numInput (obank fd op)" and "getIn (obank fd op) i = Some vn"
      and "op \<in> set (vn_descend (vbank fd vn))" and "vn < create_index fd"
  shows "\<exists>fd'. replaceLessequal_finish op vn val diff i fd = Inr (True, fd')
          \<and> code (obank fd' op) = code (obank fd op)
          \<and> getIn (obank fd' op) i = Some (create_index fd)
          \<and> vn_size (vbank fd' (create_index fd)) = vn_size (vbank fd vn)
          \<and> getOffset (vn_loc (vbank fd' (create_index fd)))
               = (val + diff) AND calc_mask (vn_size (vbank fd vn))"
proof -
  obtain nv fd1 where nc:
    "newConstant (vn_size (vbank fd vn)) ((val + diff) AND calc_mask (vn_size (vbank fd vn))) fd = (nv, fd1)"
    by (cases "newConstant (vn_size (vbank fd vn)) ((val + diff) AND calc_mask (vn_size (vbank fd vn))) fd") auto
  note f = newConstant_facts [OF nc]
  show ?thesis
    using assms f
    apply (simp add: replaceLessequal_finish_def Let_def nc opSetInput_def opUnsetInput_def
        hasNoDescend_def copySymbol_def)
    apply (auto simp add: getIn_def numInput_def eraseDescend_def op_setInput_def addDescend_def
          code_def split: option.splits)
    done
qed

lemma sign_extend_7f: "sign_extend 0x7f 7 = 0x7f" 
  by (simp add: sign_extend_def Let_def mask_eq_exp_minus_1)

lemma calc_mask_1: "calc_mask 1 = 0xff" by (simp add: calc_mask_def mask_eq_exp_minus_1)

lemma sless_byte_facts: "\<not> ((0x7f :: 64 word) <s 0)" "(0::64 word) <s 0x7f" "\<not> ((128 :: 64 word) <s 0)"
  by (simp_all add: word_sless_alt)

lemma sign_extend_80: "sign_extend 0x80 7 = 0xFFFFFFFFFFFFFF80" "sign_extend 0 7 = 0"
  by (simp_all add: sign_extend_def Let_def mask_eq_exp_minus_1)

lemma and_ff_facts: "(0x80 :: 64 word) AND 0xff = 0x80" "(0x7f :: 64 word) AND 0xff = 0x7f" "(0 :: 64 word) AND 0xff = 0"
  by simp_all

lemma sle_byte_facts: "(0 :: 64 word) \<le>s 0x7f" "\<not> ((0 :: 64 word) <s 0xFFFFFFFFFFFFFF80)"
  by (simp_all add: word_sless_alt word_sle_eq)

lemma fd_sle_facts:
  "getIn (obank fd_sle 0) 0 = Some 0" "getIn (obank fd_sle 0) 1 = Some 1"
  "getIn (obank fd_sle 0) (Suc 0) = Some 1"
  "\<not> isConstant (vbank fd_sle 0)" "isConstant (vbank fd_sle 1)" "isConstant (vbank fd_sle (Suc 0))"
  "vn_size (vbank fd_sle 1) = 1" "getOffset (vn_loc (vbank fd_sle 1)) = 0x7f"
  "vn_size (vbank fd_sle (Suc 0)) = 1" "getOffset (vn_loc (vbank fd_sle (Suc 0))) = 0x7f"
  "code (obank fd_sle 0) = Some CPUI_INT_SLESSEQUAL"
  "numInput (obank fd_sle 0) = 2" "vn_descend (vbank fd_sle (Suc 0)) = [0]"
  "create_index fd_sle = 2"
  by (simp_all add: fd_sle_def empty_fd_def mk_op_def getIn_def numInput_def
     isConstant_def new_varnode_def initial_flags_def register_space_def constant_space_def
     code_def)

text \<open>
  Claim C2 at the comparison \<open>x \<le>s 0x7f\<close> on one byte, which holds for every
  \<open>x\<close>.  Adding one to the constant overflows the signed byte, but the overflow test
  of replaceLessequal looks at the sign of the 64-bit sum, which does not change: the
  function returns true and rewrites the op to \<open>x <s 0x80\<close>, which holds for no
  \<open>x\<close>.  The truth values at \<open>x = 0\<close> differ.
\<close>

theorem C2_signed_overflow:
  "code (obank fd_sle 0) = Some CPUI_INT_SLESSEQUAL
   \<and> truthValue fd_sle 0 1 0
   \<and> \<not> isl (replaceLessequal 0 fd_sle)
   \<and> fst (projr (replaceLessequal 0 fd_sle))
   \<and> code (obank (snd (projr (replaceLessequal 0 fd_sle))) 0) = Some CPUI_INT_SLESS
   \<and> getIn (obank (snd (projr (replaceLessequal 0 fd_sle))) 0) 1 = Some 2
   \<and> getOffset (vn_loc (vbank (snd (projr (replaceLessequal 0 fd_sle))) 2)) = 0x80
   \<and> \<not> truthValue (snd (projr (replaceLessequal 0 fd_sle))) 0 1 0"
proof -
  let ?fd1 = "opSetOpcode 0 CPUI_INT_SLESS fd_sle"
  have pre: "1 < numInput (obank ?fd1 0)" "getIn (obank ?fd1 0) 1 = Some 1"
    "0 \<in> set (vn_descend (vbank ?fd1 1))" "1 < create_index ?fd1"
    using fd_sle_facts by (simp_all add: opSetOpcode_def getIn_def numInput_def)
  from replaceLessequal_finish_result [OF pre, of "0x7f" 1]
  obtain fd' where r: "replaceLessequal_finish 0 1 0x7f 1 1 ?fd1 = Inr (True, fd')"
    and c: "code (obank fd' 0) = code (obank ?fd1 0)"
    and g: "getIn (obank fd' 0) 1 = Some (create_index ?fd1)"
    and s: "vn_size (vbank fd' (create_index ?fd1)) = vn_size (vbank ?fd1 1)"
    and o: "getOffset (vn_loc (vbank fd' (create_index ?fd1))) = (0x7f + 1) AND calc_mask (vn_size (vbank ?fd1 1))"
    by blast
  have run: "replaceLessequal 0 fd_sle = Inr (True, fd')"
    using r by (simp add: replaceLessequal_def fd_sle_facts sign_extend_7f sless_byte_facts Let_def)
  have c': "code (obank fd' 0) = Some CPUI_INT_SLESS" using c by (simp add: opSetOpcode_def code_def)
  have ci: "create_index ?fd1 = 2" using fd_sle_facts by (simp add: opSetOpcode_def)
  have sz: "vn_size (vbank ?fd1 1) = 1" using fd_sle_facts by (simp add: opSetOpcode_def)
  have o': "getOffset (vn_loc (vbank fd' 2)) = 0x80" using o ci sz calc_mask_1 by simp
  have s': "vn_size (vbank fd' 2) = 1" using s ci sz by simp
  have g': "getIn (obank fd' 0) 1 = Some 2" using g ci by simp
  have t0: "truthValue fd_sle 0 1 0"
    using fd_sle_facts by (simp add: truthValue_def compareValue_def Let_def sign_extend_7f calc_mask_1 sign_extend_80 and_ff_facts sle_byte_facts)
  have t1: "\<not> truthValue fd' 0 1 0"
    using g' c' o' s' by (simp add: truthValue_def compareValue_def Let_def sign_extend_7f calc_mask_1 sign_extend_80 and_ff_facts sle_byte_facts)
  show ?thesis using run c' g' o' t0 t1 fd_sle_facts by simp
qed


section \<open>Replacing the reads of a Varnode by a constant\<close>

lemma reaches_filter:
  "reaches P (filter Q l) b \<Longrightarrow> \<forall>y \<in> set l. \<not> Q y \<longrightarrow> P y \<Longrightarrow> reaches P l b"
  by (induction l) (auto split: if_splits)

lemma follows_filter:
  "follows P (filter Q l) a b \<Longrightarrow> \<forall>y \<in> set l. \<not> Q y \<longrightarrow> P y \<Longrightarrow> follows P l a b"
proof (induction l)
  case Nil
  then show ?case by simp
next
  case (Cons x xs)
  show ?case
  proof (cases "Q x")
    case True
    then have "(x = a \<and> reaches P (filter Q xs) b) \<or> follows P (filter Q xs) a b"
      using Cons.prems(1) by simp
    then show ?thesis
    proof
      assume "x = a \<and> reaches P (filter Q xs) b"
      then show ?thesis using reaches_filter [of P Q xs b] Cons.prems(2) by simp
    next
      assume "follows P (filter Q xs) a b"
      then show ?thesis using Cons.IH Cons.prems(2) by simp
    qed
  next
    case False
    then have "follows P (filter Q xs) a b" using Cons.prems(1) by simp
    then show ?thesis using Cons.IH Cons.prems(2) by simp
  qed
qed

lemma list_all_filter:
  "list_all P (filter Q l) \<Longrightarrow> \<forall>y \<in> set l. \<not> Q y \<longrightarrow> P y \<Longrightarrow> list_all P l"
  by (induction l) (auto split: if_splits)

lemma allAfter_filter:
  "allAfter P (filter Q l) a \<Longrightarrow> \<forall>y \<in> set l. \<not> Q y \<longrightarrow> P y \<Longrightarrow> Q a \<Longrightarrow> allAfter P l a"
proof (induction l)
  case Nil
  then show ?case by simp
next
  case (Cons x xs)
  show ?case
  proof (cases "Q x")
    case True
    show ?thesis
    proof (cases "x = a")
      case True
      then have "list_all P (filter Q xs)" using Cons.prems(1) \<open>Q x\<close> by simp
      then have "list_all P xs" using list_all_filter [of P Q xs] Cons.prems(2) by simp
      then show ?thesis using True by simp
    next
      case False
      then have "allAfter P (filter Q xs) a" using Cons.prems(1) \<open>Q x\<close> by simp
      then show ?thesis using Cons.IH Cons.prems(2,3) False by simp
    qed
  next
    case False
    then have xa: "x \<noteq> a" using Cons.prems(3) by auto
    have "allAfter P (filter Q xs) a" using Cons.prems(1) False by simp
    then show ?thesis using Cons.IH Cons.prems(2,3) xa by simp
  qed
qed

lemma reaches_mono:
  "reaches P l b \<Longrightarrow> \<forall>y \<in> set l. P y \<longrightarrow> P' y \<Longrightarrow> reaches P' l b"
  by (induction l) auto

lemma follows_mono:
  "follows P l a b \<Longrightarrow> \<forall>y \<in> set l. P y \<longrightarrow> P' y \<Longrightarrow> follows P' l a b"
proof (induction l)
  case Nil
  then show ?case by simp
next
  case (Cons x xs)
  then show ?case using reaches_mono [of P xs b P'] by auto
qed

lemma list_all_mono': "list_all P l \<Longrightarrow> \<forall>y \<in> set l. P y \<longrightarrow> P' y \<Longrightarrow> list_all P' l"
  by (induction l) auto

lemma allAfter_mono:
  "allAfter P l a \<Longrightarrow> \<forall>y \<in> set l. P y \<longrightarrow> P' y \<Longrightarrow> allAfter P' l a"
proof (induction l)
  case Nil
  then show ?case by simp
next
  case (Cons x xs)
  then show ?case using list_all_mono' [of P xs P'] by (auto split: if_splits)
qed

lemma reaches_mem: "b \<in> set l \<Longrightarrow> reaches (\<lambda>z. True) l b"
  by (induction l) auto

lemma follows_append_left:
  "a \<in> set xs \<Longrightarrow> b \<in> set ys \<Longrightarrow> follows (\<lambda>z. True) (xs @ ys) a b"
proof (induction xs)
  case Nil
  then show ?case by simp
next
  case (Cons x xs)
  show ?case
  proof (cases "x = a")
    case True
    have "b \<in> set (xs @ ys)" using Cons.prems(2) by simp
    then show ?thesis using True reaches_mem [of b "xs @ ys"] by simp
  next
    case False
    then show ?thesis using Cons by simp
  qed
qed

lemma follows_skip: "follows P ys a b \<Longrightarrow> follows P (xs @ ys) a b"
  by (induction xs) auto

lemma reaches_nth:
  "n < length l \<Longrightarrow> \<forall>k. k < n \<longrightarrow> P (l ! k) \<Longrightarrow> reaches P l (l ! n)"
proof (induction l arbitrary: n)
  case Nil
  then show ?case by simp
next
  case (Cons x xs)
  show ?case
  proof (cases n)
    case 0
    then show ?thesis by simp
  next
    case (Suc m)
    have "\<forall>k. k < m \<longrightarrow> P (xs ! k)"
    proof (intro allI impI)
      fix k assume "k < m"
      then have "Suc k < n" using Suc by simp
      then have "P ((x # xs) ! Suc k)" using Cons.prems(2) by blast
      then show "P (xs ! k)" by simp
    qed
    moreover have "m < length xs" using Cons.prems(1) Suc by simp
    ultimately have "reaches P xs (xs ! m)" using Cons.IH by blast
    moreover have "P x" using Cons.prems(2) Suc by (metis nth_Cons_0 zero_less_Suc)
    ultimately show ?thesis using Suc by simp
  qed
qed

lemma follows_insert_before:
  assumes "j \<le> n" and "n < length l" and "\<forall>k. j \<le> k \<and> k < n \<longrightarrow> P (l ! k)"
  shows "follows P (take j l @ [c] @ drop j l) c (l ! n)"
proof -
  have len: "n - j < length (drop j l)" using assms(1,2) by simp
  have nth: "drop j l ! (n - j) = l ! n" using assms(1,2) by simp
  have "\<forall>k. k < n - j \<longrightarrow> P (drop j l ! k)"
  proof (intro allI impI)
    fix k assume k: "k < n - j"
    then have "drop j l ! k = l ! (j + k)" using assms(2) by simp
    moreover have "P (l ! (j + k))" using assms(3) k by simp
    ultimately show "P (drop j l ! k)" by simp
  qed
  then have "reaches P (drop j l) (drop j l ! (n - j))" using len reaches_nth by blast
  then have "follows P (c # drop j l) c (l ! n)" using nth by simp
  then have "follows P (take j l @ (c # drop j l)) c (l ! n)" by (rule follows_skip)
  then show ?thesis by simp
qed

lemma follows_end_insert:
  assumes "y \<in> set l" and "\<not> Pb y"
  shows "follows (\<lambda>z. True)
           (if l \<noteq> [] \<and> Pb (last l) then butlast l @ [c, last l] else l @ [c]) y c"
proof (cases "l \<noteq> [] \<and> Pb (last l)")
  case True
  then have "l = butlast l @ [last l]" by simp
  then have "y \<in> set (butlast l) \<or> y = last l" using assms(1)
    by (metis Un_iff empty_iff empty_set set_ConsD set_append)
  then have "y \<in> set (butlast l)" using assms(2) True by auto
  then have "follows (\<lambda>z. True) (butlast l @ [c, last l]) y c"
    by (intro follows_append_left) simp_all
  then show ?thesis using True by simp
next
  case False
  have "follows (\<lambda>z. True) (l @ [c]) y c" using assms(1) by (intro follows_append_left) simp_all
  then show ?thesis using False by auto
qed

lemma allAfter_append: "c \<notin> set xs \<Longrightarrow> allAfter P (xs @ c # ys) c = list_all P ys"
  by (induction xs) auto

lemma allAfter_end_insert:
  assumes "c \<notin> set l" and "l \<noteq> [] \<Longrightarrow> Pb (last l) \<Longrightarrow> P (last l)"
  shows "allAfter P (if l \<noteq> [] \<and> Pb (last l) then butlast l @ [c, last l] else l @ [c]) c"
proof (cases "l \<noteq> [] \<and> Pb (last l)")
  case True
  have "c \<notin> set (butlast l)" using assms(1) by (meson in_set_butlastD)
  then have "allAfter P (butlast l @ c # [last l]) c = list_all P [last l]"
    by (rule allAfter_append)
  then show ?thesis using True assms(2) by simp
next
  case False
  have "allAfter P (l @ c # []) c = list_all P []" using assms(1) by (rule allAfter_append)
  then show ?thesis using False by auto
qed

lemma filter_old_id:
  "\<forall>y \<in> set l. y < (n :: nat) \<Longrightarrow> filter (\<lambda>y. y < n) l = l"
  by (induction l) auto

lemma filter_old_insert:
  "\<forall>y \<in> set l. y < (n :: nat) \<Longrightarrow> filter (\<lambda>y. y < n) (take j l @ [n] @ drop j l) = l"
proof -
  assume a: "\<forall>y \<in> set l. y < n"
  have "\<forall>y \<in> set (take j l). y < n" using a by (meson in_set_takeD)
  moreover have "\<forall>y \<in> set (drop j l). y < n" using a by (meson in_set_dropD)
  ultimately show ?thesis by (simp add: filter_old_id)
qed

lemma count_list_remove1:
  "count_list (remove1 a l) x = (if x = a \<and> a \<in> set l then count_list l x - 1 else count_list l x)"
  by (induction l) auto

lemma count_list_pos: "0 < count_list l a \<longleftrightarrow> a \<in> set l"
  by (induction l) auto

lemma count_list_update:
  "i < length l \<Longrightarrow> l ! i = a \<Longrightarrow> b \<noteq> a \<Longrightarrow> count_list (l[i := b]) a = count_list l a - 1"
proof (induction l arbitrary: i)
  case Nil
  then show ?case by simp
next
  case (Cons x xs)
  show ?case
  proof (cases i)
    case 0
    then show ?thesis using Cons.prems by simp
  next
    case (Suc j)
    have "xs ! j = a" "j < length xs" using Cons.prems Suc by simp_all
    then have "a \<in> set xs" by (metis nth_mem)
    then have "0 < count_list xs a" by (simp add: count_list_pos)
    then show ?thesis using Cons Suc by simp
  qed
qed

lemma getSlot_lt:
  "Some vn \<in> set (op_inrefs op) \<Longrightarrow> getSlot op vn < numInput op"
proof -
  assume a: "Some vn \<in> set (op_inrefs op)"
  have "length (takeWhile (\<lambda>r. r \<noteq> Some vn) l) < length l" if "Some vn \<in> set l" for l
    using that by (induction l) auto
  then show ?thesis using a by (simp add: getSlot_def numInput_def)
qed

lemma assignHigh_more [simp]:
  "bblocks (assignHigh v fd) = bblocks fd"
  "op_count (assignHigh v fd) = op_count fd"
  "uniqid (assignHigh v fd) = uniqid fd"
  by (simp_all add: assignHigh_def Let_def)

lemma opInsert_frame:
  "vbank (opInsert op bl it fd) = vbank fd"
  "create_index (opInsert op bl it fd) = create_index fd"
  "op_count (opInsert op bl it fd) = op_count fd"
  "x \<noteq> op \<Longrightarrow> obank (opInsert op bl it fd) x = obank fd x"
  "code (obank (opInsert op bl it fd) x) = code (obank fd x)"
  "op_output (obank (opInsert op bl it fd) x) = op_output (obank fd x)"
  "op_inrefs (obank (opInsert op bl it fd) x) = op_inrefs (obank fd x)"
  "op_parent (obank (opInsert op bl it fd) op) = Some bl"
  "b \<noteq> bl \<Longrightarrow> bblocks (opInsert op bl it fd) b = bblocks fd b"
  "bl_intothis (bblocks (opInsert op bl it fd) b) = bl_intothis (bblocks fd b)"
  "bl_dead (bblocks (opInsert op bl it fd) b) = bl_dead (bblocks fd b)"
  "bl_start (bblocks (opInsert op bl it fd) b) = bl_start (bblocks fd b)"
  "bl_op (bblocks (opInsert op bl it fd) bl) =
     take it (bl_op (bblocks fd bl)) @ [op] @ drop it (bl_op (bblocks fd bl))"
  by (simp_all add: opInsert_def block_insert_def markAlive_def code_def)


lemma opsKept_refl:
  assumes "\<forall>b. \<forall>y \<in> set (bl_op (bblocks fd b)). y < op_count fd"
  shows "opsKept fd fd"
  using assms by (auto simp add: opsKept_def filter_old_id)

lemma opsKept_trans:
  assumes a: "opsKept fd fd1" and b: "opsKept fd1 fd2"
  shows "opsKept fd fd2"
proof -
  have c: "op_count fd \<le> op_count fd1" "op_count fd1 \<le> op_count fd2"
    "create_index fd \<le> create_index fd1" "create_index fd1 \<le> create_index fd2"
    using a b by (simp_all add: opsKept_def)
  have o1: "\<And>x. x < op_count fd \<Longrightarrow> code (obank fd1 x) = code (obank fd x)
             \<and> op_output (obank fd1 x) = op_output (obank fd x)
             \<and> op_parent (obank fd1 x) = op_parent (obank fd x)
             \<and> numInput (obank fd1 x) = numInput (obank fd x)"
    using a by (simp add: opsKept_def)
  have o2: "\<And>x. x < op_count fd1 \<Longrightarrow> code (obank fd2 x) = code (obank fd1 x)
             \<and> op_output (obank fd2 x) = op_output (obank fd1 x)
             \<and> op_parent (obank fd2 x) = op_parent (obank fd1 x)
             \<and> numInput (obank fd2 x) = numInput (obank fd1 x)"
    using b by (simp add: opsKept_def)
  have n1: "\<And>x. op_count fd \<le> x \<Longrightarrow> x < op_count fd1 \<Longrightarrow> code (obank fd1 x) = Some CPUI_COPY"
    using a by (simp add: opsKept_def)
  have n2: "\<And>x. op_count fd1 \<le> x \<Longrightarrow> x < op_count fd2 \<Longrightarrow> code (obank fd2 x) = Some CPUI_COPY"
    using b by (simp add: opsKept_def)
  have v1: "\<And>w. w < create_index fd \<Longrightarrow> vn_flags (vbank fd1 w) = vn_flags (vbank fd w)
             \<and> vn_loc (vbank fd1 w) = vn_loc (vbank fd w)
             \<and> vn_size (vbank fd1 w) = vn_size (vbank fd w)
             \<and> vn_def (vbank fd1 w) = vn_def (vbank fd w)"
    using a by (simp add: opsKept_def)
  have v2: "\<And>w. w < create_index fd1 \<Longrightarrow> vn_flags (vbank fd2 w) = vn_flags (vbank fd1 w)
             \<and> vn_loc (vbank fd2 w) = vn_loc (vbank fd1 w)
             \<and> vn_size (vbank fd2 w) = vn_size (vbank fd1 w)
             \<and> vn_def (vbank fd2 w) = vn_def (vbank fd1 w)"
    using b by (simp add: opsKept_def)
  have b1: "\<And>bl. bl_intothis (bblocks fd1 bl) = bl_intothis (bblocks fd bl)
             \<and> bl_dead (bblocks fd1 bl) = bl_dead (bblocks fd bl)
             \<and> filter (\<lambda>y. y < op_count fd) (bl_op (bblocks fd1 bl)) = bl_op (bblocks fd bl)"
    using a by (simp add: opsKept_def)
  have b2: "\<And>bl. bl_intothis (bblocks fd2 bl) = bl_intothis (bblocks fd1 bl)
             \<and> bl_dead (bblocks fd2 bl) = bl_dead (bblocks fd1 bl)
             \<and> filter (\<lambda>y. y < op_count fd1) (bl_op (bblocks fd2 bl)) = bl_op (bblocks fd1 bl)
             \<and> (\<forall>y \<in> set (bl_op (bblocks fd2 bl)). y < op_count fd2)"
    using b by (simp add: opsKept_def)
  have O: "\<forall>x. x < op_count fd \<longrightarrow>
             code (obank fd2 x) = code (obank fd x)
             \<and> op_output (obank fd2 x) = op_output (obank fd x)
             \<and> op_parent (obank fd2 x) = op_parent (obank fd x)
             \<and> numInput (obank fd2 x) = numInput (obank fd x)"
    using o1 o2 c by (metis less_le_trans)
  have N: "\<forall>x. op_count fd \<le> x \<and> x < op_count fd2 \<longrightarrow> code (obank fd2 x) = Some CPUI_COPY"
  proof (intro allI impI)
    fix x assume x: "op_count fd \<le> x \<and> x < op_count fd2"
    show "code (obank fd2 x) = Some CPUI_COPY"
    proof (cases "x < op_count fd1")
      case True
      then show ?thesis using o2 [of x] n1 [of x] x by simp
    next
      case False
      then show ?thesis using n2 [of x] x by simp
    qed
  qed
  have V: "\<forall>w. w < create_index fd \<longrightarrow>
             vn_flags (vbank fd2 w) = vn_flags (vbank fd w)
             \<and> vn_loc (vbank fd2 w) = vn_loc (vbank fd w)
             \<and> vn_size (vbank fd2 w) = vn_size (vbank fd w)
             \<and> vn_def (vbank fd2 w) = vn_def (vbank fd w)"
    using v1 v2 c by (metis less_le_trans)
  have B: "\<forall>bl. bl_intothis (bblocks fd2 bl) = bl_intothis (bblocks fd bl)
             \<and> bl_dead (bblocks fd2 bl) = bl_dead (bblocks fd bl)
             \<and> filter (\<lambda>y. y < op_count fd) (bl_op (bblocks fd2 bl)) = bl_op (bblocks fd bl)
             \<and> (\<forall>y \<in> set (bl_op (bblocks fd2 bl)). y < op_count fd2)"
  proof
    fix bl
    have "filter (\<lambda>y. y < op_count fd) (bl_op (bblocks fd2 bl))
        = filter (\<lambda>y. y < op_count fd) (filter (\<lambda>y. y < op_count fd1) (bl_op (bblocks fd2 bl)))"
    proof -
      have "\<And>y. (y < op_count fd1 \<and> y < op_count fd) = (y < op_count fd)"
        using c(1) by auto
      then show ?thesis by (simp add: filter_filter)
    qed
    also have "\<dots> = bl_op (bblocks fd bl)" using b1 [of bl] b2 [of bl] by simp
    finally show "bl_intothis (bblocks fd2 bl) = bl_intothis (bblocks fd bl)
             \<and> bl_dead (bblocks fd2 bl) = bl_dead (bblocks fd bl)
             \<and> filter (\<lambda>y. y < op_count fd) (bl_op (bblocks fd2 bl)) = bl_op (bblocks fd bl)
             \<and> (\<forall>y \<in> set (bl_op (bblocks fd2 bl)). y < op_count fd2)"
      using b1 [of bl] b2 [of bl] by simp
  qed
  show ?thesis unfolding opsKept_def using c O N V B by simp
qed

lemma newOp_facts:
  assumes "newOp n pc fd = (c, fd1)"
  shows "c = op_count fd" "op_count fd1 = Suc (op_count fd)" "vbank fd1 = vbank fd"
    "create_index fd1 = create_index fd" "bblocks fd1 = bblocks fd" "uniqid fd1 = uniqid fd"
    "highlevel_on fd1 = highlevel_on fd" "calcCover fd1 = calcCover fd"
    "\<And>x. x \<noteq> c \<Longrightarrow> obank fd1 x = obank fd x"
    "obank fd1 c = \<lparr>op_opcode = None, op_flags = {op_dead}, op_output = None,
        op_inrefs = replicate n None, op_parent = None, op_addr = pc, op_time = op_uniqid fd\<rparr>"
  using assms by (auto simp add: newOp_def obank_create_def Let_def)

lemma newUniqueOut_facts:
  assumes "newUniqueOut s c fd = (u, fd1)"
  shows "u = create_index fd" "create_index fd1 = Suc (create_index fd)"
    "op_count fd1 = op_count fd" "bblocks fd1 = bblocks fd"
    "\<And>w. w \<noteq> u \<Longrightarrow> vbank fd1 w = vbank fd w"
    "obank fd1 = (obank fd)(c := (obank fd c)\<lparr>op_output := Some u\<rparr>)"
    "vn_flags (vbank fd1 u) = {}" "vn_descend (vbank fd1 u) = []"
    "vn_size (vbank fd1 u) = s" "vn_loc (vbank fd1 u) = Address unique_space (uniqid fd)"
    "vn_def (vbank fd1 u) = Some c"
  using assms
  by (auto simp add: newUniqueOut_def vbank_createDef_def Let_def new_varnode_def op_setOutput_def
      initial_flags_def unique_space_def split: prod.splits)

lemma descend2Undef_copy_result:
  assumes k: "vn_flags (vbank fd k) = {vn_constant}" "vn_descend (vbank fd k) = []"
     and kk: "k < create_index fd"
  shows "\<exists>fd5. descend2Undef_copy sz k pc fd = Inr ((op_count fd, create_index fd), fd5)
     \<and> op_count fd5 = Suc (op_count fd) \<and> create_index fd5 = Suc (create_index fd)
     \<and> bblocks fd5 = bblocks fd
     \<and> (\<forall>x. x \<noteq> op_count fd \<longrightarrow> obank fd5 x = obank fd x)
     \<and> (\<forall>w. w \<noteq> k \<longrightarrow> w \<noteq> create_index fd \<longrightarrow> vbank fd5 w = vbank fd w)
     \<and> obank fd5 (op_count fd) = \<lparr>op_opcode = Some CPUI_COPY, op_flags = {op_dead},
            op_output = Some (create_index fd), op_inrefs = [Some k], op_parent = None,
            op_addr = pc, op_time = op_uniqid fd\<rparr>
     \<and> vn_flags (vbank fd5 k) = {vn_constant} \<and> vn_descend (vbank fd5 k) = [op_count fd]
     \<and> vn_size (vbank fd5 k) = vn_size (vbank fd k) \<and> vn_loc (vbank fd5 k) = vn_loc (vbank fd k)
     \<and> vn_flags (vbank fd5 (create_index fd)) = {} \<and> vn_descend (vbank fd5 (create_index fd)) = []
     \<and> vn_size (vbank fd5 (create_index fd)) = sz
     \<and> vn_loc (vbank fd5 (create_index fd)) = Address unique_space (uniqid fd)
     \<and> vn_def (vbank fd5 (create_index fd)) = Some (op_count fd)"
proof -
  obtain c fd2 where n: "newOp 1 pc fd = (c, fd2)" by (cases "newOp 1 pc fd") auto
  note nf = newOp_facts [OF n]
  obtain u fd3 where nu: "newUniqueOut sz c fd2 = (u, fd3)" by (cases "newUniqueOut sz c fd2") auto
  note uf = newUniqueOut_facts [OF nu]
  let ?fd4 = "opSetOpcode c CPUI_COPY fd3"
  have ku: "k \<noteq> u" using kk uf(1) nf(4) by simp
  have s: "opSetInput c k 0 ?fd4 = Inr (op_setInput c (Some k) 0
            (?fd4\<lparr>vbank := (vbank ?fd4)(k := addDescend c (vbank ?fd4 k))\<rparr>))"
    using nf uf k ku
    by (intro opSetInput_fresh) (simp_all add: opSetOpcode_def numInput_def getIn_def)
  show ?thesis
    using n nu s nf uf k ku
    by (simp add: descend2Undef_copy_def opSetOpcode_def op_setInput_def addDescend_def)
qed

lemma getSlot_getIn:
  "getSlot op vn < numInput op \<Longrightarrow> getIn op (getSlot op vn) = Some vn"
proof -
  assume a: "getSlot op vn < numInput op"
  let ?P = "\<lambda>r. r \<noteq> Some vn"
  have "length (takeWhile ?P (op_inrefs op)) < length (op_inrefs op)"
    using a by (simp add: getSlot_def numInput_def)
  then have "\<not> ?P (op_inrefs op ! length (takeWhile ?P (op_inrefs op)))"
    by (rule nth_length_takeWhile)
  then show ?thesis using a by (simp add: getIn_def getSlot_def)
qed

lemma getIn_update:
  "slot < numInput op \<Longrightarrow> getIn (op\<lparr>op_inrefs := (op_inrefs op)[slot := v]\<rparr>) slot = v"
  by (simp add: getIn_def numInput_def)

lemma isFlowBreak_code: "code a = code b \<Longrightarrow> isFlowBreak a = isFlowBreak b"
  by (simp add: isFlowBreak_def)

lemma backOverIndirect_le: "backOverIndirect fd ops n \<le> n"
  by (induction n) auto

lemma backOverIndirect_between:
  "backOverIndirect fd ops n \<le> k \<Longrightarrow> k < n \<Longrightarrow> code (obank fd (ops ! k)) = Some CPUI_INDIRECT"
proof (induction n)
  case 0
  then show ?case by simp
next
  case (Suc n)
  show ?case
  proof (cases "code (obank fd (ops ! n)) \<noteq> Some CPUI_INDIRECT")
    case True
    with Suc.prems show ?thesis by simp
  next
    case False
    with Suc show ?thesis by (cases "k = n") auto
  qed
qed

lemma backOverIndirect_cong:
  "(\<And>k. k < n \<Longrightarrow> code (obank fd' (ops ! k)) = code (obank fd (ops ! k)))
     \<Longrightarrow> backOverIndirect fd' ops n = backOverIndirect fd ops n"
  by (induction n) auto

lemma getBasicIter_le: "getBasicIter ops op \<le> length ops"
  by (induction ops) auto

lemma newcopy_result:
  assumes vv: "vn < create_index fd"
  shows "\<exists>fd5. totalReplaceConstant_newcopy vn val pc fd = Inr ((op_count fd, create_index fd), fd5)
     \<and> op_count fd5 = Suc (op_count fd) \<and> create_index fd5 = Suc (Suc (create_index fd))
     \<and> bblocks fd5 = bblocks fd
     \<and> (\<forall>x. x \<noteq> op_count fd \<longrightarrow> obank fd5 x = obank fd x)
     \<and> (\<forall>w. w < create_index fd \<longrightarrow> vbank fd5 w = vbank fd w)
     \<and> obank fd5 (op_count fd) = \<lparr>op_opcode = Some CPUI_COPY, op_flags = {op_dead},
            op_output = Some (create_index fd), op_inrefs = [Some (Suc (create_index fd))],
            op_parent = None, op_addr = pc, op_time = op_uniqid fd\<rparr>
     \<and> vn_flags (vbank fd5 (Suc (create_index fd))) = {vn_constant}
     \<and> vn_size (vbank fd5 (Suc (create_index fd))) = vn_size (vbank fd vn)
     \<and> vn_loc (vbank fd5 (Suc (create_index fd))) = Address constant_space val
     \<and> vn_flags (vbank fd5 (create_index fd)) = {} \<and> vn_descend (vbank fd5 (create_index fd)) = []
     \<and> vn_size (vbank fd5 (create_index fd)) = vn_size (vbank fd vn)
     \<and> vn_loc (vbank fd5 (create_index fd)) = Address unique_space (uniqid fd)
     \<and> vn_def (vbank fd5 (create_index fd)) = Some (op_count fd)"
proof -
  obtain c fd1 where n: "newOp 1 pc fd = (c, fd1)" by (cases "newOp 1 pc fd") auto
  note nf = newOp_facts [OF n]
  let ?fd2 = "opSetOpcode c CPUI_COPY fd1"
  obtain u fd3 where nu: "newUniqueOut (vn_size (vbank fd1 vn)) c ?fd2 = (u, fd3)"
    by (cases "newUniqueOut (vn_size (vbank fd1 vn)) c ?fd2") auto
  note uf = newUniqueOut_facts [OF nu]
  have u: "u = create_index fd" using uf(1) nf(4) by (simp add: opSetOpcode_def)
  have vu: "vn \<noteq> u" using vv u by simp
  have sz3: "vn_size (vbank fd3 vn) = vn_size (vbank fd vn)"
    using uf(5) [OF vu] nf(3) by (simp add: opSetOpcode_def)
  obtain k fd4 where nc: "newConstant (vn_size (vbank fd3 vn)) val fd3 = (k, fd4)"
    by (cases "newConstant (vn_size (vbank fd3 vn)) val fd3") auto
  note f = newConstant_facts [OF nc]
  have f4: "bblocks fd4 = bblocks fd3" "op_count fd4 = op_count fd3" "uniqid fd4 = uniqid fd3"
    using nc by (auto simp add: newConstant_def vbank_create_def Let_def split: prod.splits)
  have k: "k = Suc (create_index fd)" using f(1) uf(2) nf(4) by (simp add: opSetOpcode_def)
  have o4: "obank fd4 c = \<lparr>op_opcode = Some CPUI_COPY, op_flags = {op_dead}, op_output = Some u,
        op_inrefs = replicate 1 None, op_parent = None, op_addr = pc, op_time = op_uniqid fd\<rparr>"
    using f(3) uf(6) nf(10) by (simp add: opSetOpcode_def)
  have s: "opSetInput c k 0 fd4 = Inr (op_setInput c (Some k) 0
            (fd4\<lparr>vbank := (vbank fd4)(k := addDescend c (vbank fd4 k))\<rparr>))"
    using o4 f(6) by (intro opSetInput_fresh) (simp_all add: numInput_def getIn_def)
  have ox: "\<And>x. x \<noteq> c \<Longrightarrow> obank fd4 x = obank fd x"
    using f(3) uf(6) nf(9) by (simp add: opSetOpcode_def)
  have wx: "\<And>w. w < create_index fd \<Longrightarrow> vbank fd4 w = vbank fd w"
    using f(4) uf(5) nf(3) k u by (simp add: opSetOpcode_def)
  have ux: "vbank fd4 u = vbank fd3 u" using f(4) k u by simp
  show ?thesis
    using n nu nc s nf(1,2,3,4,5,6) uf(2,3,4,7,8,9,10,11) f(2,5,7,8) f4 k u sz3 o4 ox wx ux
    by (simp add: totalReplaceConstant_newcopy_def opSetOpcode_def op_setInput_def addDescend_def)
qed

lemma skipMultiequal_cong:
  "(\<And>x. x \<in> set ops \<Longrightarrow> code (obank fd' x) = code (obank fd x))
     \<Longrightarrow> skipMultiequal fd' ops n = skipMultiequal fd ops n"
  by (induction ops arbitrary: n) auto

lemma skipMultiequal_ge: "n \<le> skipMultiequal fd ops n"
  by (simp add: skipMultiequal_takeWhile)


lemma opSetInput_replace:
  assumes "slot < numInput (obank fd op)" and "getIn (obank fd op) slot = Some old"
      and "old \<noteq> vn" and "op \<in> set (vn_descend (vbank fd old))"
      and "isConstant (vbank fd vn) \<longrightarrow> vn_descend (vbank fd vn) = []"
  shows "\<exists>fd'. opSetInput op vn slot fd = Inr fd'
     \<and> obank fd' = (obank fd)(op := (obank fd op)\<lparr>op_inrefs := (op_inrefs (obank fd op))[slot := Some vn]\<rparr>)
     \<and> bblocks fd' = bblocks fd \<and> create_index fd' = create_index fd \<and> op_count fd' = op_count fd
     \<and> (\<forall>w. w \<noteq> old \<longrightarrow> w \<noteq> vn \<longrightarrow> vbank fd' w = vbank fd w)
     \<and> vbank fd' vn = (vbank fd vn)\<lparr>vn_descend := vn_descend (vbank fd vn) @ [op]\<rparr>
     \<and> vbank fd' old = (vbank fd old)\<lparr>vn_descend := remove1 op (vn_descend (vbank fd old))\<rparr>"
  using assms
  by (auto simp add: opSetInput_def opUnsetInput_def eraseDescend_def op_setInput_def
      addDescend_def hasNoDescend_def)

lemma rewritesRead_intro:
  assumes wf: "op < op_count fd" "vn < create_index fd"
    and wb: "\<forall>b. \<forall>y \<in> set (bl_op (bblocks fd b)). y < op_count fd"
    and cnt: "op_count fd \<le> op_count fd6" "create_index fd \<le> create_index fd6"
    and oo: "\<forall>x. x < op_count fd \<longrightarrow> obank fd6 x = obank fd x"
    and ov: "\<forall>w. w < create_index fd \<longrightarrow> vbank fd6 w = vbank fd w"
    and no: "\<forall>x. op_count fd \<le> x \<and> x < op_count fd6 \<longrightarrow> code (obank fd6 x) = Some CPUI_COPY"
    and bl: "\<forall>b. bl_intothis (bblocks fd6 b) = bl_intothis (bblocks fd b)
               \<and> bl_dead (bblocks fd6 b) = bl_dead (bblocks fd b)
               \<and> (bl_op (bblocks fd6 b) = bl_op (bblocks fd b)
                   \<or> (op_count fd < op_count fd6
                       \<and> (\<exists>j. bl_op (bblocks fd6 b)
                             = take j (bl_op (bblocks fd b)) @ [op_count fd] @ drop j (bl_op (bblocks fd b)))))"
    and o7: "obank fd7 = (obank fd6)(op := (obank fd6 op)\<lparr>op_inrefs := (op_inrefs (obank fd6 op))[i := Some new]\<rparr>)"
    and b7: "bblocks fd7 = bblocks fd6" "create_index fd7 = create_index fd6" "op_count fd7 = op_count fd6"
    and w7: "\<forall>w. w \<noteq> vn \<longrightarrow> w \<noteq> new \<longrightarrow> vbank fd7 w = vbank fd6 w"
    and n7: "vbank fd7 new = (vbank fd6 new)\<lparr>vn_descend := vn_descend (vbank fd6 new) @ [op]\<rparr>"
    and v7: "vbank fd7 vn = (vbank fd6 vn)\<lparr>vn_descend := remove1 op (vn_descend (vbank fd6 vn))\<rparr>"
  shows "rewritesRead vn op i new fd fd7"
proof -
  have O: "\<forall>x. x < op_count fd \<longrightarrow>
             code (obank fd7 x) = code (obank fd x)
             \<and> op_output (obank fd7 x) = op_output (obank fd x)
             \<and> op_parent (obank fd7 x) = op_parent (obank fd x)
             \<and> numInput (obank fd7 x) = numInput (obank fd x)"
    using oo by (simp add: o7 code_def numInput_def)
  have N: "\<forall>x. op_count fd \<le> x \<and> x < op_count fd7 \<longrightarrow> code (obank fd7 x) = Some CPUI_COPY"
    using no wf(1) by (auto simp add: o7 b7 code_def)
  have V: "\<forall>w. w < create_index fd \<longrightarrow>
             vn_flags (vbank fd7 w) = vn_flags (vbank fd w)
             \<and> vn_loc (vbank fd7 w) = vn_loc (vbank fd w)
             \<and> vn_size (vbank fd7 w) = vn_size (vbank fd w)
             \<and> vn_def (vbank fd7 w) = vn_def (vbank fd w)"
  proof (intro allI impI)
    fix w assume w: "w < create_index fd"
    have "vn_flags (vbank fd7 w) = vn_flags (vbank fd6 w)
             \<and> vn_loc (vbank fd7 w) = vn_loc (vbank fd6 w)
             \<and> vn_size (vbank fd7 w) = vn_size (vbank fd6 w)
             \<and> vn_def (vbank fd7 w) = vn_def (vbank fd6 w)"
    proof (cases "w = vn")
      case True
      then show ?thesis by (simp add: v7)
    next
      case False
      show ?thesis
      proof (cases "w = new")
        case True
        then show ?thesis by (simp add: n7)
      next
        case nn: False
        then show ?thesis using w7 False by simp
      qed
    qed
    then show "vn_flags (vbank fd7 w) = vn_flags (vbank fd w)
             \<and> vn_loc (vbank fd7 w) = vn_loc (vbank fd w)
             \<and> vn_size (vbank fd7 w) = vn_size (vbank fd w)
             \<and> vn_def (vbank fd7 w) = vn_def (vbank fd w)"
      using ov w by simp
  qed
  have B: "\<forall>b. bl_intothis (bblocks fd7 b) = bl_intothis (bblocks fd b)
             \<and> bl_dead (bblocks fd7 b) = bl_dead (bblocks fd b)
             \<and> filter (\<lambda>y. y < op_count fd) (bl_op (bblocks fd7 b)) = bl_op (bblocks fd b)
             \<and> (\<forall>y \<in> set (bl_op (bblocks fd7 b)). y < op_count fd7)"
  proof
    fix b
    let ?l = "bl_op (bblocks fd b)"
    have lb: "\<forall>y \<in> set ?l. y < op_count fd" using wb by simp
    have "bl_op (bblocks fd6 b) = ?l
          \<or> (op_count fd < op_count fd6
               \<and> (\<exists>j. bl_op (bblocks fd6 b) = take j ?l @ [op_count fd] @ drop j ?l))"
      using bl by simp
    then have "filter (\<lambda>y. y < op_count fd) (bl_op (bblocks fd6 b)) = ?l
             \<and> (\<forall>y \<in> set (bl_op (bblocks fd6 b)). y < op_count fd6)"
    proof
      assume e: "bl_op (bblocks fd6 b) = ?l"
      show ?thesis using lb cnt(1) by (auto simp add: e filter_old_id)
    next
      assume "op_count fd < op_count fd6
               \<and> (\<exists>j. bl_op (bblocks fd6 b) = take j ?l @ [op_count fd] @ drop j ?l)"
      then obtain j where lt: "op_count fd < op_count fd6"
        and e: "bl_op (bblocks fd6 b) = take j ?l @ [op_count fd] @ drop j ?l" by blast
      have f: "filter (\<lambda>y. y < op_count fd) (take j ?l @ [op_count fd] @ drop j ?l) = ?l"
        using lb by (rule filter_old_insert)
      have "\<forall>y \<in> set (take j ?l @ [op_count fd] @ drop j ?l). y < op_count fd6"
      proof
        fix y assume "y \<in> set (take j ?l @ [op_count fd] @ drop j ?l)"
        then have "y \<in> set (take j ?l) \<or> y = op_count fd \<or> y \<in> set (drop j ?l)" by auto
        then have "y \<in> set ?l \<or> y = op_count fd" by (meson in_set_takeD in_set_dropD)
        then show "y < op_count fd6" using lb lt by auto
      qed
      then show ?thesis using f e by simp
    qed
    then show "bl_intothis (bblocks fd7 b) = bl_intothis (bblocks fd b)
             \<and> bl_dead (bblocks fd7 b) = bl_dead (bblocks fd b)
             \<and> filter (\<lambda>y. y < op_count fd) (bl_op (bblocks fd7 b)) = bl_op (bblocks fd b)
             \<and> (\<forall>y \<in> set (bl_op (bblocks fd7 b)). y < op_count fd7)"
      using bl by (simp add: b7)
  qed
  have K: "opsKept fd fd7" unfolding opsKept_def using cnt O N V B by (simp add: b7)
  have I: "\<forall>x. x < op_count fd \<longrightarrow> x \<noteq> op \<longrightarrow> op_inrefs (obank fd7 x) = op_inrefs (obank fd x)"
    using oo by (simp add: o7)
  have J: "op_inrefs (obank fd7 op) = (op_inrefs (obank fd op))[i := Some new]"
    using oo wf(1) by (simp add: o7)
  have D: "vn_descend (vbank fd7 vn) = remove1 op (vn_descend (vbank fd vn))"
    using ov wf(2) by (simp add: v7)
  show ?thesis unfolding rewritesRead_def using K I J D by simp
qed

lemma copy_linked:
  assumes wf: "op < op_count fd" "vn < create_index fd"
    and wb: "\<forall>b. \<forall>y \<in> set (bl_op (bblocks fd b)). y < op_count fd"
    and sl: "i < numInput (obank fd op)" and gi: "getIn (obank fd op) i = Some vn"
    and rd: "op \<in> set (vn_descend (vbank fd vn))"
    and uk: "create_index fd \<le> u" "u < Suc (Suc (create_index fd))"
            "create_index fd \<le> k" "k < Suc (Suc (create_index fd))" "u \<noteq> k"
    and c5: "op_count fd5 = Suc (op_count fd)" "create_index fd5 = Suc (Suc (create_index fd))"
      "bblocks fd5 = bblocks fd"
      "\<forall>x. x \<noteq> op_count fd \<longrightarrow> obank fd5 x = obank fd x"
      "\<forall>w. w < create_index fd \<longrightarrow> vbank fd5 w = vbank fd w"
      "code (obank fd5 (op_count fd)) = Some CPUI_COPY"
      "op_output (obank fd5 (op_count fd)) = Some u"
      "op_inrefs (obank fd5 (op_count fd)) = [Some k]"
      "vn_flags (vbank fd5 k) = {vn_constant}"
      "vn_size (vbank fd5 k) = sz" "vn_loc (vbank fd5 k) = Address constant_space val"
      "vn_flags (vbank fd5 u) = {}"
      "vn_size (vbank fd5 u) = sz"
      "getType (getSpace (vn_loc (vbank fd5 u))) = IPTR_INTERNAL"
      "vn_def (vbank fd5 u) = Some (op_count fd)"
  shows "\<exists>fd7. opSetInput op u i (opInsert (op_count fd) bl j fd5) = Inr fd7
     \<and> rewritesRead vn op i u fd fd7
     \<and> op_count fd7 = Suc (op_count fd) \<and> create_index fd7 = Suc (Suc (create_index fd))
     \<and> markerReadsCopy fd7 op i (op_count fd) u k val sz
     \<and> op_parent (obank fd7 (op_count fd)) = Some bl
     \<and> (\<forall>b. bl_op (bblocks fd7 b) =
            (if b = bl then take j (bl_op (bblocks fd bl)) @ [op_count fd] @ drop j (bl_op (bblocks fd bl))
             else bl_op (bblocks fd b)))"
proof -
  let ?c = "op_count fd"
  let ?fd6 = "opInsert ?c bl j fd5"
  have opne: "op \<noteq> ?c" using wf by simp
  have vnne: "vn \<noteq> u" "vn \<noteq> k" using wf(2) uk by simp_all
  have o6: "\<And>x. x \<noteq> ?c \<Longrightarrow> obank ?fd6 x = obank fd x"
    using c5(4) by (simp add: opInsert_frame)
  have v6: "vbank ?fd6 = vbank fd5" by (simp add: opInsert_frame)
  have pre: "i < numInput (obank ?fd6 op)" "getIn (obank ?fd6 op) i = Some vn"
    "vn \<noteq> u" "op \<in> set (vn_descend (vbank ?fd6 vn))"
    "isConstant (vbank ?fd6 u) \<longrightarrow> vn_descend (vbank ?fd6 u) = []"
    using o6 [OF opne] sl gi vnne wf(2) rd v6 c5(5,12)
    by (simp_all add: isConstant_def)
  from opSetInput_replace [OF pre]
  obtain fd7 where s7: "opSetInput op u i ?fd6 = Inr fd7"
    and o7: "obank fd7 = (obank ?fd6)(op := (obank ?fd6 op)\<lparr>op_inrefs := (op_inrefs (obank ?fd6 op))[i := Some u]\<rparr>)"
    and b7: "bblocks fd7 = bblocks ?fd6" "create_index fd7 = create_index ?fd6" "op_count fd7 = op_count ?fd6"
    and w7: "\<forall>w. w \<noteq> vn \<longrightarrow> w \<noteq> u \<longrightarrow> vbank fd7 w = vbank ?fd6 w"
    and u7: "vbank fd7 u = (vbank ?fd6 u)\<lparr>vn_descend := vn_descend (vbank ?fd6 u) @ [op]\<rparr>"
    and v7: "vbank fd7 vn = (vbank ?fd6 vn)\<lparr>vn_descend := remove1 op (vn_descend (vbank ?fd6 vn))\<rparr>"
    by blast
  have cnt: "op_count fd \<le> op_count ?fd6" "create_index fd \<le> create_index ?fd6"
    using c5(1,2) by (simp_all add: opInsert_frame)
  have oo: "\<forall>x. x < op_count fd \<longrightarrow> obank ?fd6 x = obank fd x" using o6 by simp
  have ov: "\<forall>w. w < create_index fd \<longrightarrow> vbank ?fd6 w = vbank fd w" using c5(5) v6 by simp
  have no: "\<forall>x. op_count fd \<le> x \<and> x < op_count ?fd6 \<longrightarrow> code (obank ?fd6 x) = Some CPUI_COPY"
  proof (intro allI impI)
    fix x assume "op_count fd \<le> x \<and> x < op_count ?fd6"
    then have "x = ?c" using c5(1) by (simp add: opInsert_frame)
    then show "code (obank ?fd6 x) = Some CPUI_COPY" using c5(6) by (simp add: opInsert_frame)
  qed
  have lst: "\<forall>b. bl_op (bblocks ?fd6 b) =
            (if b = bl then take j (bl_op (bblocks fd bl)) @ [?c] @ drop j (bl_op (bblocks fd bl))
             else bl_op (bblocks fd b))"
    using c5(3) by (simp add: opInsert_frame)
  have bl: "\<forall>b. bl_intothis (bblocks ?fd6 b) = bl_intothis (bblocks fd b)
               \<and> bl_dead (bblocks ?fd6 b) = bl_dead (bblocks fd b)
               \<and> (bl_op (bblocks ?fd6 b) = bl_op (bblocks fd b)
                   \<or> (op_count fd < op_count ?fd6
                       \<and> (\<exists>j. bl_op (bblocks ?fd6 b)
                             = take j (bl_op (bblocks fd b)) @ [op_count fd] @ drop j (bl_op (bblocks fd b)))))"
  proof
    fix b
    have "op_count fd < op_count ?fd6" using c5(1) by (simp add: opInsert_frame)
    then show "bl_intothis (bblocks ?fd6 b) = bl_intothis (bblocks fd b)
               \<and> bl_dead (bblocks ?fd6 b) = bl_dead (bblocks fd b)
               \<and> (bl_op (bblocks ?fd6 b) = bl_op (bblocks fd b)
                   \<or> (op_count fd < op_count ?fd6
                       \<and> (\<exists>j. bl_op (bblocks ?fd6 b)
                             = take j (bl_op (bblocks fd b)) @ [op_count fd] @ drop j (bl_op (bblocks fd b)))))"
      using lst c5(3) by (cases "b = bl") (auto simp add: opInsert_frame)
  qed
  have rw: "rewritesRead vn op i u fd fd7"
    using wf wb cnt oo ov no bl o7 b7 w7 u7 v7 by (rule rewritesRead_intro)
  have g7: "getIn (obank fd7 op) i = Some u"
    using pre(1) by (simp add: o7 getIn_update)
  have c7: "code (obank fd7 ?c) = Some CPUI_COPY" "op_output (obank fd7 ?c) = Some u"
    "op_inrefs (obank fd7 ?c) = [Some k]" "op_parent (obank fd7 ?c) = Some bl"
    using opne c5(6,7,8) by (simp_all add: o7 opInsert_frame)
  have k7: "vbank fd7 k = vbank fd5 k" using w7 vnne uk v6 by simp
  have u7': "vn_flags (vbank fd7 u) = {}" "vn_size (vbank fd7 u) = sz"
    "getType (getSpace (vn_loc (vbank fd7 u))) = IPTR_INTERNAL" "vn_def (vbank fd7 u) = Some ?c"
    using c5(12,13,14,15) by (simp_all add: u7 v6)
  have m: "markerReadsCopy fd7 op i ?c u k val sz"
    unfolding markerReadsCopy_def using g7 c7 k7 u7' c5(9,10,11) by (simp add: isConstant_def)
  show ?thesis
    using s7 rw b7 c5(1,2) m c7(4) lst by (simp add: opInsert_frame)
qed

lemma undef_copy_result:
  "\<exists>fd1. newConstant sz 0xBADDEF fd = (create_index fd, fd1)
     \<and> obank fd1 = obank fd \<and> bblocks fd1 = bblocks fd
     \<and> (\<forall>pc. \<exists>fd5. descend2Undef_copy sz (create_index fd) pc fd1
                     = Inr ((op_count fd, Suc (create_index fd)), fd5)
           \<and> op_count fd5 = Suc (op_count fd) \<and> create_index fd5 = Suc (Suc (create_index fd))
           \<and> bblocks fd5 = bblocks fd
           \<and> (\<forall>x. x \<noteq> op_count fd \<longrightarrow> obank fd5 x = obank fd x)
           \<and> (\<forall>w. w < create_index fd \<longrightarrow> vbank fd5 w = vbank fd w)
           \<and> code (obank fd5 (op_count fd)) = Some CPUI_COPY
           \<and> op_output (obank fd5 (op_count fd)) = Some (Suc (create_index fd))
           \<and> op_inrefs (obank fd5 (op_count fd)) = [Some (create_index fd)]
           \<and> vn_flags (vbank fd5 (create_index fd)) = {vn_constant}
           \<and> vn_size (vbank fd5 (create_index fd)) = sz
           \<and> vn_loc (vbank fd5 (create_index fd)) = Address constant_space 0xBADDEF
           \<and> vn_flags (vbank fd5 (Suc (create_index fd))) = {}
           \<and> vn_size (vbank fd5 (Suc (create_index fd))) = sz
           \<and> getType (getSpace (vn_loc (vbank fd5 (Suc (create_index fd))))) = IPTR_INTERNAL
           \<and> vn_def (vbank fd5 (Suc (create_index fd))) = Some (op_count fd))"
proof -
  obtain k fd1 where nc: "newConstant sz 0xBADDEF fd = (k, fd1)"
    by (cases "newConstant sz 0xBADDEF fd") auto
  note f = newConstant_facts [OF nc]
  have f1: "bblocks fd1 = bblocks fd" "op_count fd1 = op_count fd" "uniqid fd1 = uniqid fd"
    using nc by (auto simp add: newConstant_def vbank_create_def Let_def split: prod.splits)
  have kk: "k < create_index fd1" using f by simp
  have "\<exists>fd5. descend2Undef_copy sz (create_index fd) pc fd1
                     = Inr ((op_count fd, Suc (create_index fd)), fd5)
           \<and> op_count fd5 = Suc (op_count fd) \<and> create_index fd5 = Suc (Suc (create_index fd))
           \<and> bblocks fd5 = bblocks fd
           \<and> (\<forall>x. x \<noteq> op_count fd \<longrightarrow> obank fd5 x = obank fd x)
           \<and> (\<forall>w. w < create_index fd \<longrightarrow> vbank fd5 w = vbank fd w)
           \<and> code (obank fd5 (op_count fd)) = Some CPUI_COPY
           \<and> op_output (obank fd5 (op_count fd)) = Some (Suc (create_index fd))
           \<and> op_inrefs (obank fd5 (op_count fd)) = [Some (create_index fd)]
           \<and> vn_flags (vbank fd5 (create_index fd)) = {vn_constant}
           \<and> vn_size (vbank fd5 (create_index fd)) = sz
           \<and> vn_loc (vbank fd5 (create_index fd)) = Address constant_space 0xBADDEF
           \<and> vn_flags (vbank fd5 (Suc (create_index fd))) = {}
           \<and> vn_size (vbank fd5 (Suc (create_index fd))) = sz
           \<and> getType (getSpace (vn_loc (vbank fd5 (Suc (create_index fd))))) = IPTR_INTERNAL
           \<and> vn_def (vbank fd5 (Suc (create_index fd))) = Some (op_count fd)" for pc
  proof -
    from descend2Undef_copy_result [OF f(5) f(6) kk, of sz pc]
    obtain fd5 where cp: "descend2Undef_copy sz k pc fd1 = Inr ((op_count fd1, create_index fd1), fd5)"
      and c5: "op_count fd5 = Suc (op_count fd1)" "create_index fd5 = Suc (create_index fd1)"
        "bblocks fd5 = bblocks fd1"
        "\<forall>x. x \<noteq> op_count fd1 \<longrightarrow> obank fd5 x = obank fd1 x"
        "\<forall>w. w \<noteq> k \<longrightarrow> w \<noteq> create_index fd1 \<longrightarrow> vbank fd5 w = vbank fd1 w"
        "obank fd5 (op_count fd1) = \<lparr>op_opcode = Some CPUI_COPY, op_flags = {op_dead},
              op_output = Some (create_index fd1), op_inrefs = [Some k], op_parent = None,
              op_addr = pc, op_time = op_uniqid fd1\<rparr>"
        "vn_flags (vbank fd5 k) = {vn_constant}"
        "vn_size (vbank fd5 k) = vn_size (vbank fd1 k)" "vn_loc (vbank fd5 k) = vn_loc (vbank fd1 k)"
        "vn_flags (vbank fd5 (create_index fd1)) = {}"
        "vn_size (vbank fd5 (create_index fd1)) = sz"
        "vn_loc (vbank fd5 (create_index fd1)) = Address unique_space (uniqid fd1)"
        "vn_def (vbank fd5 (create_index fd1)) = Some (op_count fd1)"
      by blast
    have old: "\<forall>w. w < create_index fd \<longrightarrow> vbank fd5 w = vbank fd w"
      using c5(5) f(1,2,4) by simp
    show ?thesis
      using cp c5 f f1 old by (simp add: code_def unique_space_def)
  qed
  then show ?thesis using nc f f1 by simp
qed

lemma block_ops_old:
  assumes "\<forall>b. \<forall>y \<in> set (bl_op (bblocks fd b)). y < op_count fd"
    and "\<forall>x. x \<noteq> op_count fd \<longrightarrow> obank fd5 x = obank fd x"
    and "y \<in> set (bl_op (bblocks fd b))"
  shows "obank fd5 y = obank fd y"
  using assms by (metis less_irrefl)

lemma descend2Undef_step_dead:
  assumes "op_parent (obank fd op) = Some parent" and "bl_dead (bblocks fd parent)"
  shows "descend2Undef_step vn sz op (res, fd) = Inr (res, fd)"
  using assms by (simp add: descend2Undef_step_def)

lemma descend2Undef_step_multiequal:
  assumes par: "op_parent (obank fd op) = Some parent"
      and nd: "\<not> bl_dead (bblocks fd parent)"
      and cd: "code (obank fd op) = Some CPUI_MULTIEQUAL"
      and sl: "getSlot (obank fd op) vn < numInput (obank fd op)"
      and ib: "getSlot (obank fd op) vn < length (bl_intothis (bblocks fd parent))"
      and rd: "op \<in> set (vn_descend (vbank fd vn))"
      and wf: "op < op_count fd" "vn < create_index fd"
      and wb: "\<forall>b. \<forall>y \<in> set (bl_op (bblocks fd b)). y < op_count fd"
  shows "\<exists>res' fd'. descend2Undef_step vn sz op (res, fd) = Inr (res', fd')
     \<and> rewritesRead vn op (getSlot (obank fd op) vn) (Suc (create_index fd)) fd fd'
     \<and> op_count fd' = Suc (op_count fd) \<and> create_index fd' = Suc (Suc (create_index fd))
     \<and> markerReadsCopy fd' op (getSlot (obank fd op) vn) (op_count fd)
          (Suc (create_index fd)) (create_index fd) 0xBADDEF sz
     \<and> op_parent (obank fd' (op_count fd)) = Some (bl_intothis (bblocks fd parent) ! getSlot (obank fd op) vn)
     \<and> bl_op (bblocks fd' (bl_intothis (bblocks fd parent) ! getSlot (obank fd op) vn)) =
          (let ops = bl_op (bblocks fd (bl_intothis (bblocks fd parent) ! getSlot (obank fd op) vn))
           in if ops \<noteq> [] \<and> isFlowBreak (obank fd (last ops))
              then butlast ops @ [op_count fd, last ops] else ops @ [op_count fd])"
proof -
  let ?i = "getSlot (obank fd op) vn"
  let ?inbl = "bl_intothis (bblocks fd parent) ! ?i"
  let ?l = "bl_op (bblocks fd ?inbl)"
  let ?k = "create_index fd" let ?u = "Suc (create_index fd)" let ?c = "op_count fd"
  from undef_copy_result [of sz fd]
  obtain fd1 where nc: "newConstant sz 0xBADDEF fd = (?k, fd1)"
    and f1: "obank fd1 = obank fd" "bblocks fd1 = bblocks fd"
    and cpa: "\<forall>pc. \<exists>fd5. descend2Undef_copy sz ?k pc fd1 = Inr ((?c, ?u), fd5)
           \<and> op_count fd5 = Suc ?c \<and> create_index fd5 = Suc (Suc ?k)
           \<and> bblocks fd5 = bblocks fd
           \<and> (\<forall>x. x \<noteq> ?c \<longrightarrow> obank fd5 x = obank fd x)
           \<and> (\<forall>w. w < ?k \<longrightarrow> vbank fd5 w = vbank fd w)
           \<and> code (obank fd5 ?c) = Some CPUI_COPY
           \<and> op_output (obank fd5 ?c) = Some ?u
           \<and> op_inrefs (obank fd5 ?c) = [Some ?k]
           \<and> vn_flags (vbank fd5 ?k) = {vn_constant}
           \<and> vn_size (vbank fd5 ?k) = sz
           \<and> vn_loc (vbank fd5 ?k) = Address constant_space 0xBADDEF
           \<and> vn_flags (vbank fd5 ?u) = {}
           \<and> vn_size (vbank fd5 ?u) = sz
           \<and> getType (getSpace (vn_loc (vbank fd5 ?u))) = IPTR_INTERNAL
           \<and> vn_def (vbank fd5 ?u) = Some ?c"
    by blast
  from cpa [rule_format, of "bl_start (bblocks fd ?inbl)"]
  obtain fd5 where cp: "descend2Undef_copy sz ?k (bl_start (bblocks fd ?inbl)) fd1 = Inr ((?c, ?u), fd5)"
    and c5: "op_count fd5 = Suc ?c" "create_index fd5 = Suc (Suc ?k)"
      "bblocks fd5 = bblocks fd"
      "\<forall>x. x \<noteq> ?c \<longrightarrow> obank fd5 x = obank fd x"
      "\<forall>w. w < ?k \<longrightarrow> vbank fd5 w = vbank fd w"
      "code (obank fd5 ?c) = Some CPUI_COPY"
      "op_output (obank fd5 ?c) = Some ?u"
      "op_inrefs (obank fd5 ?c) = [Some ?k]"
      "vn_flags (vbank fd5 ?k) = {vn_constant}"
      "vn_size (vbank fd5 ?k) = sz"
      "vn_loc (vbank fd5 ?k) = Address constant_space 0xBADDEF"
      "vn_flags (vbank fd5 ?u) = {}"
      "vn_size (vbank fd5 ?u) = sz"
      "getType (getSpace (vn_loc (vbank fd5 ?u))) = IPTR_INTERNAL"
      "vn_def (vbank fd5 ?u) = Some ?c"
    by blast
  define j where "j = (if ?l \<noteq> [] \<and> isFlowBreak (obank fd (last ?l)) then length ?l - 1 else length ?l)"
  have lastold: "?l \<noteq> [] \<Longrightarrow> obank fd5 (last ?l) = obank fd (last ?l)"
    using block_ops_old [OF wb c5(4), of "last ?l" ?inbl] by simp
  have ie: "opInsertEnd ?c ?inbl fd5 = opInsert ?c ?inbl j fd5"
    using lastold by (auto simp add: opInsertEnd_def Let_def c5(3) j_def last_conv_nth)
  have gi: "getIn (obank fd op) ?i = Some vn" using sl by (rule getSlot_getIn)
  have uk: "?k \<le> ?u" "?u < Suc (Suc ?k)" "?k \<le> ?k" "?k < Suc (Suc ?k)" "?u \<noteq> ?k" by simp_all
  from copy_linked [OF wf wb sl gi rd uk c5, of ?inbl j]
  obtain fd7 where s7: "opSetInput op ?u ?i (opInsert ?c ?inbl j fd5) = Inr fd7"
    and rw: "rewritesRead vn op ?i ?u fd fd7"
    and n7: "op_count fd7 = Suc ?c" "create_index fd7 = Suc (Suc ?k)"
    and m7: "markerReadsCopy fd7 op ?i ?c ?u ?k 0xBADDEF sz"
    and p7: "op_parent (obank fd7 ?c) = Some ?inbl"
    and l7: "\<forall>b. bl_op (bblocks fd7 b) =
            (if b = ?inbl then take j ?l @ [?c] @ drop j ?l else bl_op (bblocks fd b))"
    by blast
  let ?res' = "if length (bl_intothis (bblocks fd parent)) \<noteq> 0 then True else res"
  have run: "descend2Undef_step vn sz op (res, fd) = Inr (?res', fd7)"
    using par nd cd ib nc f1 cp ie s7
    by (simp add: descend2Undef_step_def Let_def)
  have tk: "take j ?l @ [?c] @ drop j ?l =
          (if ?l \<noteq> [] \<and> isFlowBreak (obank fd (last ?l))
              then butlast ?l @ [?c, last ?l] else ?l @ [?c])"
  proof (cases "?l \<noteq> [] \<and> isFlowBreak (obank fd (last ?l))")
    case True
    then have "drop (length ?l - 1) ?l = [last ?l]"
      by (metis append_butlast_last_id append_eq_conv_conj length_butlast)
    then show ?thesis using True by (simp add: j_def butlast_conv_take)
  next
    case False
    then show ?thesis by (auto simp add: j_def)
  qed
  have lst: "bl_op (bblocks fd7 ?inbl) =
          (let ops = ?l
           in if ops \<noteq> [] \<and> isFlowBreak (obank fd (last ops))
              then butlast ops @ [?c, last ops] else ops @ [?c])"
    using l7 tk by (simp add: Let_def)
  show ?thesis using run rw n7 m7 p7 lst by blast
qed

lemma descend2Undef_step_indirect:
  assumes par: "op_parent (obank fd op) = Some parent"
      and nd: "\<not> bl_dead (bblocks fd parent)"
      and cd: "code (obank fd op) = Some CPUI_INDIRECT"
      and sl: "getSlot (obank fd op) vn < numInput (obank fd op)"
      and rd: "op \<in> set (vn_descend (vbank fd vn))"
      and wf: "op < op_count fd" "vn < create_index fd"
      and wb: "\<forall>b. \<forall>y \<in> set (bl_op (bblocks fd b)). y < op_count fd"
  shows "\<exists>res' fd'. descend2Undef_step vn sz op (res, fd) = Inr (res', fd')
     \<and> rewritesRead vn op (getSlot (obank fd op) vn) (Suc (create_index fd)) fd fd'
     \<and> op_count fd' = Suc (op_count fd) \<and> create_index fd' = Suc (Suc (create_index fd))
     \<and> markerReadsCopy fd' op (getSlot (obank fd op) vn) (op_count fd)
          (Suc (create_index fd)) (create_index fd) 0xBADDEF sz
     \<and> op_parent (obank fd' (op_count fd)) = Some parent
     \<and> (let ops = bl_op (bblocks fd parent);
             j = backOverIndirect fd ops (getBasicIter ops op)
         in bl_op (bblocks fd' parent) = take j ops @ [op_count fd] @ drop j ops
            \<and> j \<le> getBasicIter ops op
            \<and> (\<forall>k. j \<le> k \<and> k < getBasicIter ops op \<longrightarrow>
                   code (obank fd (ops ! k)) = Some CPUI_INDIRECT))"
proof -
  let ?i = "getSlot (obank fd op) vn"
  let ?l = "bl_op (bblocks fd parent)"
  let ?j = "backOverIndirect fd ?l (getBasicIter ?l op)"
  let ?k = "create_index fd" let ?u = "Suc (create_index fd)" let ?c = "op_count fd"
  from undef_copy_result [of sz fd]
  obtain fd1 where nc: "newConstant sz 0xBADDEF fd = (?k, fd1)"
    and f1: "obank fd1 = obank fd" "bblocks fd1 = bblocks fd"
    and cpa: "\<forall>pc. \<exists>fd5. descend2Undef_copy sz ?k pc fd1 = Inr ((?c, ?u), fd5)
           \<and> op_count fd5 = Suc ?c \<and> create_index fd5 = Suc (Suc ?k)
           \<and> bblocks fd5 = bblocks fd
           \<and> (\<forall>x. x \<noteq> ?c \<longrightarrow> obank fd5 x = obank fd x)
           \<and> (\<forall>w. w < ?k \<longrightarrow> vbank fd5 w = vbank fd w)
           \<and> code (obank fd5 ?c) = Some CPUI_COPY
           \<and> op_output (obank fd5 ?c) = Some ?u
           \<and> op_inrefs (obank fd5 ?c) = [Some ?k]
           \<and> vn_flags (vbank fd5 ?k) = {vn_constant}
           \<and> vn_size (vbank fd5 ?k) = sz
           \<and> vn_loc (vbank fd5 ?k) = Address constant_space 0xBADDEF
           \<and> vn_flags (vbank fd5 ?u) = {}
           \<and> vn_size (vbank fd5 ?u) = sz
           \<and> getType (getSpace (vn_loc (vbank fd5 ?u))) = IPTR_INTERNAL
           \<and> vn_def (vbank fd5 ?u) = Some ?c"
    by blast
  from cpa [rule_format, of "op_addr (obank fd op)"]
  obtain fd5 where cp: "descend2Undef_copy sz ?k (op_addr (obank fd op)) fd1 = Inr ((?c, ?u), fd5)"
    and c5: "op_count fd5 = Suc ?c" "create_index fd5 = Suc (Suc ?k)"
      "bblocks fd5 = bblocks fd"
      "\<forall>x. x \<noteq> ?c \<longrightarrow> obank fd5 x = obank fd x"
      "\<forall>w. w < ?k \<longrightarrow> vbank fd5 w = vbank fd w"
      "code (obank fd5 ?c) = Some CPUI_COPY"
      "op_output (obank fd5 ?c) = Some ?u"
      "op_inrefs (obank fd5 ?c) = [Some ?k]"
      "vn_flags (vbank fd5 ?k) = {vn_constant}"
      "vn_size (vbank fd5 ?k) = sz"
      "vn_loc (vbank fd5 ?k) = Address constant_space 0xBADDEF"
      "vn_flags (vbank fd5 ?u) = {}"
      "vn_size (vbank fd5 ?u) = sz"
      "getType (getSpace (vn_loc (vbank fd5 ?u))) = IPTR_INTERNAL"
      "vn_def (vbank fd5 ?u) = Some ?c"
    by blast
  have o5: "\<And>x. x < op_count fd \<Longrightarrow> obank fd5 x = obank fd x" using c5(4) by simp
  have jeq: "backOverIndirect fd5 ?l (getBasicIter ?l op) = ?j"
  proof (rule backOverIndirect_cong)
    fix k assume "k < getBasicIter ?l op"
    then have "k < length ?l" using getBasicIter_le [of ?l op] by simp
    then have "?l ! k \<in> set ?l" by (rule nth_mem)
    then have "?l ! k < op_count fd" using wb by blast
    then show "code (obank fd5 (?l ! k)) = code (obank fd (?l ! k))" using o5 by simp
  qed
  have ib: "opInsertBefore ?c op fd5 = Inr (opInsert ?c parent ?j fd5)"
    using par o5 [OF wf(1)] c5(3,6) jeq
    by (simp add: opInsertBefore_def Let_def)
  have gi: "getIn (obank fd op) ?i = Some vn" using sl by (rule getSlot_getIn)
  have uk: "?k \<le> ?u" "?u < Suc (Suc ?k)" "?k \<le> ?k" "?k < Suc (Suc ?k)" "?u \<noteq> ?k" by simp_all
  from copy_linked [OF wf wb sl gi rd uk c5, of parent ?j]
  obtain fd7 where s7: "opSetInput op ?u ?i (opInsert ?c parent ?j fd5) = Inr fd7"
    and rw: "rewritesRead vn op ?i ?u fd fd7"
    and n7: "op_count fd7 = Suc ?c" "create_index fd7 = Suc (Suc ?k)"
    and m7: "markerReadsCopy fd7 op ?i ?c ?u ?k 0xBADDEF sz"
    and p7: "op_parent (obank fd7 ?c) = Some parent"
    and l7: "\<forall>b. bl_op (bblocks fd7 b) =
            (if b = parent then take ?j ?l @ [?c] @ drop ?j ?l else bl_op (bblocks fd b))"
    by blast
  let ?res' = "if length (bl_intothis (bblocks fd parent)) \<noteq> 0 then True else res"
  have run: "descend2Undef_step vn sz op (res, fd) = Inr (?res', fd7)"
    using par nd cd nc f1 cp ib s7
    by (simp add: descend2Undef_step_def Let_def)
  have bt: "\<forall>k. ?j \<le> k \<and> k < getBasicIter ?l op \<longrightarrow> code (obank fd (?l ! k)) = Some CPUI_INDIRECT"
    using backOverIndirect_between by blast
  have lst: "(let ops = ?l; j = backOverIndirect fd ops (getBasicIter ops op)
         in bl_op (bblocks fd7 parent) = take j ops @ [?c] @ drop j ops
            \<and> j \<le> getBasicIter ops op
            \<and> (\<forall>k. j \<le> k \<and> k < getBasicIter ops op \<longrightarrow>
                   code (obank fd (ops ! k)) = Some CPUI_INDIRECT))"
    using l7 bt backOverIndirect_le [of fd ?l "getBasicIter ?l op"] by (simp add: Let_def)
  show ?thesis using run rw n7 m7 p7 lst by blast
qed

lemma const_linked:
  assumes wf: "op < op_count fd" "vn < create_index fd"
    and wb: "\<forall>b. \<forall>y \<in> set (bl_op (bblocks fd b)). y < op_count fd"
    and sl: "i < numInput (obank fd op)" and gi: "getIn (obank fd op) i = Some vn"
    and rd: "op \<in> set (vn_descend (vbank fd vn))"
  shows "\<exists>fd1 fd7. newConstant sz val fd = (create_index fd, fd1)
     \<and> obank fd1 = obank fd \<and> bblocks fd1 = bblocks fd
     \<and> opSetInput op (create_index fd) i fd1 = Inr fd7
     \<and> rewritesRead vn op i (create_index fd) fd fd7
     \<and> op_count fd7 = op_count fd \<and> create_index fd7 = Suc (create_index fd)
     \<and> isConstant (vbank fd7 (create_index fd))
     \<and> vn_loc (vbank fd7 (create_index fd)) = Address constant_space val
     \<and> vn_size (vbank fd7 (create_index fd)) = sz"
proof -
  let ?k = "create_index fd"
  obtain k fd1 where nc: "newConstant sz val fd = (k, fd1)"
    by (cases "newConstant sz val fd") auto
  note f = newConstant_facts [OF nc]
  have f1: "bblocks fd1 = bblocks fd" "op_count fd1 = op_count fd"
    using nc by (auto simp add: newConstant_def vbank_create_def Let_def split: prod.splits)
  have vnne: "vn \<noteq> k" using wf(2) f(1) by simp
  have pre: "i < numInput (obank fd1 op)" "getIn (obank fd1 op) i = Some vn"
    "vn \<noteq> k" "op \<in> set (vn_descend (vbank fd1 vn))"
    "isConstant (vbank fd1 k) \<longrightarrow> vn_descend (vbank fd1 k) = []"
    using sl gi vnne rd f(3,4,6) by simp_all
  from opSetInput_replace [OF pre]
  obtain fd7 where s7: "opSetInput op k i fd1 = Inr fd7"
    and o7: "obank fd7 = (obank fd1)(op := (obank fd1 op)\<lparr>op_inrefs := (op_inrefs (obank fd1 op))[i := Some k]\<rparr>)"
    and b7: "bblocks fd7 = bblocks fd1" "create_index fd7 = create_index fd1" "op_count fd7 = op_count fd1"
    and w7: "\<forall>w. w \<noteq> vn \<longrightarrow> w \<noteq> k \<longrightarrow> vbank fd7 w = vbank fd1 w"
    and u7: "vbank fd7 k = (vbank fd1 k)\<lparr>vn_descend := vn_descend (vbank fd1 k) @ [op]\<rparr>"
    and v7: "vbank fd7 vn = (vbank fd1 vn)\<lparr>vn_descend := remove1 op (vn_descend (vbank fd1 vn))\<rparr>"
    by blast
  have cnt: "op_count fd \<le> op_count fd1" "create_index fd \<le> create_index fd1"
    using f f1 by simp_all
  have oo: "\<forall>x. x < op_count fd \<longrightarrow> obank fd1 x = obank fd x" using f(3) by simp
  have ov: "\<forall>w. w < create_index fd \<longrightarrow> vbank fd1 w = vbank fd w" using f(1,4) by simp
  have no: "\<forall>x. op_count fd \<le> x \<and> x < op_count fd1 \<longrightarrow> code (obank fd1 x) = Some CPUI_COPY"
    using f1 by auto
  have bl: "\<forall>b. bl_intothis (bblocks fd1 b) = bl_intothis (bblocks fd b)
               \<and> bl_dead (bblocks fd1 b) = bl_dead (bblocks fd b)
               \<and> (bl_op (bblocks fd1 b) = bl_op (bblocks fd b)
                   \<or> (op_count fd < op_count fd1
                       \<and> (\<exists>j. bl_op (bblocks fd1 b)
                             = take j (bl_op (bblocks fd b)) @ [op_count fd] @ drop j (bl_op (bblocks fd b)))))"
    using f1 by simp
  have rw: "rewritesRead vn op i k fd fd7"
    using wf wb cnt oo ov no bl o7 b7 w7 u7 v7 by (rule rewritesRead_intro)
  show ?thesis
    using nc s7 rw b7 f f1 u7 by (simp add: isConstant_def)
qed

lemma descend2Undef_step_other:
  assumes par: "op_parent (obank fd op) = Some parent"
      and nd: "\<not> bl_dead (bblocks fd parent)"
      and cd: "\<not> isMarker (obank fd op)"
      and sl: "getSlot (obank fd op) vn < numInput (obank fd op)"
      and rd: "op \<in> set (vn_descend (vbank fd vn))"
      and wf: "op < op_count fd" "vn < create_index fd"
      and wb: "\<forall>b. \<forall>y \<in> set (bl_op (bblocks fd b)). y < op_count fd"
  shows "\<exists>res' fd'. descend2Undef_step vn sz op (res, fd) = Inr (res', fd')
     \<and> rewritesRead vn op (getSlot (obank fd op) vn) (create_index fd) fd fd'
     \<and> op_count fd' = op_count fd \<and> create_index fd' = Suc (create_index fd)
     \<and> isConstant (vbank fd' (create_index fd))
     \<and> vn_loc (vbank fd' (create_index fd)) = Address constant_space 0xBADDEF
     \<and> vn_size (vbank fd' (create_index fd)) = sz"
proof -
  let ?i = "getSlot (obank fd op) vn"
  have gi: "getIn (obank fd op) ?i = Some vn" using sl by (rule getSlot_getIn)
  from const_linked [OF wf wb sl gi rd, of sz "0xBADDEF"]
  obtain fd1 fd7 where nc: "newConstant sz 0xBADDEF fd = (create_index fd, fd1)"
    and f1: "obank fd1 = obank fd" "bblocks fd1 = bblocks fd"
    and s7: "opSetInput op (create_index fd) ?i fd1 = Inr fd7"
    and r: "rewritesRead vn op ?i (create_index fd) fd fd7"
      "op_count fd7 = op_count fd" "create_index fd7 = Suc (create_index fd)"
      "isConstant (vbank fd7 (create_index fd))"
      "vn_loc (vbank fd7 (create_index fd)) = Address constant_space 0xBADDEF"
      "vn_size (vbank fd7 (create_index fd)) = sz"
    by blast
  let ?res' = "if length (bl_intothis (bblocks fd parent)) \<noteq> 0 then True else res"
  have run: "descend2Undef_step vn sz op (res, fd) = Inr (?res', fd7)"
    using par nd cd nc f1 s7
    by (simp add: descend2Undef_step_def Let_def isMarker_def)
  show ?thesis using run r by blast
qed

lemma totalReplaceConstant_step_const:
  assumes cd: "\<not> isMarker (obank fd op)"
      and sl: "getSlot (obank fd op) vn < numInput (obank fd op)"
      and rd: "op \<in> set (vn_descend (vbank fd vn))"
      and wf: "op < op_count fd" "vn < create_index fd"
      and wb: "\<forall>b. \<forall>y \<in> set (bl_op (bblocks fd b)). y < op_count fd"
  shows "\<exists>fd'. totalReplaceConstant_step vn val op (cp, fd) = Inr (cp, fd')
     \<and> rewritesRead vn op (getSlot (obank fd op) vn) (create_index fd) fd fd'
     \<and> op_count fd' = op_count fd \<and> create_index fd' = Suc (create_index fd)
     \<and> isConstant (vbank fd' (create_index fd))
     \<and> vn_loc (vbank fd' (create_index fd)) = Address constant_space val
     \<and> vn_size (vbank fd' (create_index fd)) = vn_size (vbank fd vn)"
proof -
  let ?i = "getSlot (obank fd op) vn"
  have gi: "getIn (obank fd op) ?i = Some vn" using sl by (rule getSlot_getIn)
  from const_linked [OF wf wb sl gi rd, of "vn_size (vbank fd vn)" val]
  obtain fd1 fd7 where nc: "newConstant (vn_size (vbank fd vn)) val fd = (create_index fd, fd1)"
    and s7: "opSetInput op (create_index fd) ?i fd1 = Inr fd7"
    and r: "rewritesRead vn op ?i (create_index fd) fd fd7"
      "op_count fd7 = op_count fd" "create_index fd7 = Suc (create_index fd)"
      "isConstant (vbank fd7 (create_index fd))"
      "vn_loc (vbank fd7 (create_index fd)) = Address constant_space val"
      "vn_size (vbank fd7 (create_index fd)) = vn_size (vbank fd vn)"
    by blast
  have run: "totalReplaceConstant_step vn val op (cp, fd) = Inr (cp, fd7)"
    using cd nc s7 by (simp add: totalReplaceConstant_step_def Let_def)
  show ?thesis using run r by blast
qed

lemma opInsertAfter_target:
  "opInsertAfter op prev0 fd =
     (case insertAfterTarget fd prev0 of
        None \<Rightarrow> Inl BadAccess
      | Some prev \<Rightarrow>
          (case op_parent (obank fd prev) of
             None \<Rightarrow> Inl BadAccess
           | Some parent \<Rightarrow>
               (let ops = bl_op (bblocks fd parent);
                    iter = Suc (getBasicIter ops prev);
                    iter1 = (if code (obank fd op) \<noteq> Some CPUI_MULTIEQUAL
                             then skipMultiequal fd (drop iter ops) iter else iter)
                in Inr (opInsert op parent iter1 fd))))"
  by (simp add: opInsertAfter_def insertAfterTarget_def isMarker_def split: option.splits)

lemma insertAfterTarget_cong:
  assumes "code (obank fd5 d) = code (obank fd d)"
    and "code (obank fd d) = Some CPUI_INDIRECT \<longrightarrow>
           getIn (obank fd5 d) 1 = getIn (obank fd d) 1
           \<and> (\<forall>invn. getIn (obank fd d) 1 = Some invn
                  \<longrightarrow> vn_loc (vbank fd5 invn) = vn_loc (vbank fd invn))"
  shows "insertAfterTarget fd5 d = insertAfterTarget fd d"
  using assms by (auto simp add: insertAfterTarget_def split: option.splits)

lemma replace_copy_result:
  assumes vv: "vn < create_index fd"
  shows "\<exists>fd5. totalReplaceConstant_newcopy vn val pc fd
                 = Inr ((op_count fd, create_index fd), fd5)
           \<and> op_count fd5 = Suc (op_count fd) \<and> create_index fd5 = Suc (Suc (create_index fd))
           \<and> bblocks fd5 = bblocks fd
           \<and> (\<forall>x. x \<noteq> op_count fd \<longrightarrow> obank fd5 x = obank fd x)
           \<and> (\<forall>w. w < create_index fd \<longrightarrow> vbank fd5 w = vbank fd w)
           \<and> code (obank fd5 (op_count fd)) = Some CPUI_COPY
           \<and> op_output (obank fd5 (op_count fd)) = Some (create_index fd)
           \<and> op_inrefs (obank fd5 (op_count fd)) = [Some (Suc (create_index fd))]
           \<and> vn_flags (vbank fd5 (Suc (create_index fd))) = {vn_constant}
           \<and> vn_size (vbank fd5 (Suc (create_index fd))) = vn_size (vbank fd vn)
           \<and> vn_loc (vbank fd5 (Suc (create_index fd))) = Address constant_space val
           \<and> vn_flags (vbank fd5 (create_index fd)) = {}
           \<and> vn_size (vbank fd5 (create_index fd)) = vn_size (vbank fd vn)
           \<and> getType (getSpace (vn_loc (vbank fd5 (create_index fd)))) = IPTR_INTERNAL
           \<and> vn_def (vbank fd5 (create_index fd)) = Some (op_count fd)"
proof -
  from newcopy_result [OF vv, of val pc]
  obtain fd5 where cp: "totalReplaceConstant_newcopy vn val pc fd = Inr ((op_count fd, create_index fd), fd5)"
    and c5: "op_count fd5 = Suc (op_count fd)" "create_index fd5 = Suc (Suc (create_index fd))"
      "bblocks fd5 = bblocks fd"
      "\<forall>x. x \<noteq> op_count fd \<longrightarrow> obank fd5 x = obank fd x"
      "\<forall>w. w < create_index fd \<longrightarrow> vbank fd5 w = vbank fd w"
      "obank fd5 (op_count fd) = \<lparr>op_opcode = Some CPUI_COPY, op_flags = {op_dead},
            op_output = Some (create_index fd), op_inrefs = [Some (Suc (create_index fd))],
            op_parent = None, op_addr = pc, op_time = op_uniqid fd\<rparr>"
      "vn_flags (vbank fd5 (Suc (create_index fd))) = {vn_constant}"
      "vn_size (vbank fd5 (Suc (create_index fd))) = vn_size (vbank fd vn)"
      "vn_loc (vbank fd5 (Suc (create_index fd))) = Address constant_space val"
      "vn_flags (vbank fd5 (create_index fd)) = {}"
      "vn_size (vbank fd5 (create_index fd)) = vn_size (vbank fd vn)"
      "vn_loc (vbank fd5 (create_index fd)) = Address unique_space (uniqid fd)"
      "vn_def (vbank fd5 (create_index fd)) = Some (op_count fd)"
    by blast
  show ?thesis using cp c5 by (simp add: code_def unique_space_def)
qed

lemma totalReplaceConstant_step_first_written:
  assumes mk: "isMarker (obank fd op)"
      and sl: "getSlot (obank fd op) vn < numInput (obank fd op)"
      and rd: "op \<in> set (vn_descend (vbank fd vn))"
      and wf: "op < op_count fd" "vn < create_index fd"
      and wb: "\<forall>b. \<forall>y \<in> set (bl_op (bblocks fd b)). y < op_count fd"
      and df: "vn_def (vbank fd vn) = Some d" and dd: "d < op_count fd"
      and iv: "code (obank fd d) = Some CPUI_INDIRECT \<longrightarrow>
                 (\<forall>invn. getIn (obank fd d) 1 = Some invn \<longrightarrow> invn < create_index fd)"
      and tg: "insertAfterTarget fd d = Some prev" and pv: "prev < op_count fd"
      and pd: "op_parent (obank fd prev) = Some pd"
  shows "\<exists>fd'. totalReplaceConstant_step vn val op (None, fd) = Inr (Some (op_count fd), fd')
     \<and> rewritesRead vn op (getSlot (obank fd op) vn) (create_index fd) fd fd'
     \<and> op_count fd' = Suc (op_count fd) \<and> create_index fd' = Suc (Suc (create_index fd))
     \<and> markerReadsCopy fd' op (getSlot (obank fd op) vn) (op_count fd)
          (create_index fd) (Suc (create_index fd)) val (vn_size (vbank fd vn))
     \<and> op_parent (obank fd' (op_count fd)) = Some pd
     \<and> (\<forall>b. bl_op (bblocks fd' b) =
            (if b = pd
             then (let ops = bl_op (bblocks fd pd);
                       n = Suc (getBasicIter ops prev);
                       j = skipMultiequal fd (drop n ops) n
                   in take j ops @ [op_count fd] @ drop j ops)
             else bl_op (bblocks fd b)))"
proof -
  let ?i = "getSlot (obank fd op) vn"
  let ?l = "bl_op (bblocks fd pd)"
  let ?n = "Suc (getBasicIter ?l prev)"
  let ?j = "skipMultiequal fd (drop ?n ?l) ?n"
  let ?u = "create_index fd" let ?k = "Suc (create_index fd)" let ?c = "op_count fd"
  from replace_copy_result [OF wf(2), of val "op_addr (obank fd d)"]
  obtain fd5 where cp: "totalReplaceConstant_newcopy vn val (op_addr (obank fd d)) fd = Inr ((?c, ?u), fd5)"
    and c5: "op_count fd5 = Suc ?c" "create_index fd5 = Suc (Suc ?u)"
      "bblocks fd5 = bblocks fd"
      "\<forall>x. x \<noteq> ?c \<longrightarrow> obank fd5 x = obank fd x"
      "\<forall>w. w < ?u \<longrightarrow> vbank fd5 w = vbank fd w"
      "code (obank fd5 ?c) = Some CPUI_COPY"
      "op_output (obank fd5 ?c) = Some ?u"
      "op_inrefs (obank fd5 ?c) = [Some ?k]"
      "vn_flags (vbank fd5 ?k) = {vn_constant}"
      "vn_size (vbank fd5 ?k) = vn_size (vbank fd vn)"
      "vn_loc (vbank fd5 ?k) = Address constant_space val"
      "vn_flags (vbank fd5 ?u) = {}"
      "vn_size (vbank fd5 ?u) = vn_size (vbank fd vn)"
      "getType (getSpace (vn_loc (vbank fd5 ?u))) = IPTR_INTERNAL"
      "vn_def (vbank fd5 ?u) = Some ?c"
    by blast
  have o5: "\<And>x. x < op_count fd \<Longrightarrow> obank fd5 x = obank fd x" using c5(4) by simp
  have jeq: "skipMultiequal fd5 (drop ?n ?l) ?n = ?j"
  proof (rule skipMultiequal_cong)
    fix x assume "x \<in> set (drop ?n ?l)"
    then have "x \<in> set ?l" by (rule in_set_dropD)
    then have "x < op_count fd" using wb by blast
    then show "code (obank fd5 x) = code (obank fd x)" using o5 by simp
  qed
  have "code (obank fd d) = Some CPUI_INDIRECT \<longrightarrow>
           getIn (obank fd5 d) 1 = getIn (obank fd d) 1
           \<and> (\<forall>invn. getIn (obank fd d) 1 = Some invn
                  \<longrightarrow> vn_loc (vbank fd5 invn) = vn_loc (vbank fd invn))"
    using iv c5(5) o5 [OF dd] by simp
  moreover have "code (obank fd5 d) = code (obank fd d)" using o5 [OF dd] by simp
  ultimately have t5: "insertAfterTarget fd5 d = Some prev"
    using insertAfterTarget_cong [of fd5 d fd] tg by simp
  have ia: "opInsertAfter ?c d fd5 = Inr (opInsert ?c pd ?j fd5)"
    using t5 pd o5 [OF pv] c5(3,6) jeq
    by (simp add: opInsertAfter_target Let_def)
  have gi: "getIn (obank fd op) ?i = Some vn" using sl by (rule getSlot_getIn)
  have uk: "?u \<le> ?u" "?u < Suc (Suc ?u)" "?u \<le> ?k" "?k < Suc (Suc ?u)" "?u \<noteq> ?k" by simp_all
  from copy_linked [OF wf wb sl gi rd uk c5, of pd ?j]
  obtain fd7 where s7: "opSetInput op ?u ?i (opInsert ?c pd ?j fd5) = Inr fd7"
    and rw: "rewritesRead vn op ?i ?u fd fd7"
    and n7: "op_count fd7 = Suc ?c" "create_index fd7 = Suc (Suc ?u)"
    and m7: "markerReadsCopy fd7 op ?i ?c ?u ?k val (vn_size (vbank fd vn))"
    and p7: "op_parent (obank fd7 ?c) = Some pd"
    and l7: "\<forall>b. bl_op (bblocks fd7 b) =
            (if b = pd then take ?j ?l @ [?c] @ drop ?j ?l else bl_op (bblocks fd b))"
    by blast
  have run: "totalReplaceConstant_step vn val op (None, fd) = Inr (Some ?c, fd7)"
    using mk df cp ia s7
    by (simp add: totalReplaceConstant_step_def totalReplaceConstant_copy_def Let_def)
  have lst: "\<forall>b. bl_op (bblocks fd7 b) =
            (if b = pd
             then (let ops = bl_op (bblocks fd pd);
                       n = Suc (getBasicIter ops prev);
                       j = skipMultiequal fd (drop n ops) n
                   in take j ops @ [?c] @ drop j ops)
             else bl_op (bblocks fd b))"
    using l7 by (simp add: Let_def)
  show ?thesis using run rw n7 m7 p7 lst by blast
qed

lemma totalReplaceConstant_step_first_unwritten:
  assumes mk: "isMarker (obank fd op)"
      and sl: "getSlot (obank fd op) vn < numInput (obank fd op)"
      and rd: "op \<in> set (vn_descend (vbank fd vn))"
      and wf: "op < op_count fd" "vn < create_index fd"
      and wb: "\<forall>b. \<forall>y \<in> set (bl_op (bblocks fd b)). y < op_count fd"
      and df: "vn_def (vbank fd vn) = None"
  shows "\<exists>fd'. totalReplaceConstant_step vn val op (None, fd) = Inr (Some (op_count fd), fd')
     \<and> rewritesRead vn op (getSlot (obank fd op) vn) (create_index fd) fd fd'
     \<and> op_count fd' = Suc (op_count fd) \<and> create_index fd' = Suc (Suc (create_index fd))
     \<and> markerReadsCopy fd' op (getSlot (obank fd op) vn) (op_count fd)
          (create_index fd) (Suc (create_index fd)) val (vn_size (vbank fd vn))
     \<and> op_parent (obank fd' (op_count fd)) = Some 0
     \<and> (\<forall>b. bl_op (bblocks fd' b) =
            (if b = 0
             then takeWhile (\<lambda>x. code (obank fd x) = Some CPUI_MULTIEQUAL) (bl_op (bblocks fd 0))
                  @ [op_count fd]
                  @ dropWhile (\<lambda>x. code (obank fd x) = Some CPUI_MULTIEQUAL) (bl_op (bblocks fd 0))
             else bl_op (bblocks fd b)))"
proof -
  let ?i = "getSlot (obank fd op) vn"
  let ?l = "bl_op (bblocks fd 0)"
  let ?P = "\<lambda>x. code (obank fd x) = Some CPUI_MULTIEQUAL"
  let ?j = "skipMultiequal fd ?l 0"
  let ?u = "create_index fd" let ?k = "Suc (create_index fd)" let ?c = "op_count fd"
  from replace_copy_result [OF wf(2), of val "bl_start (bblocks fd 0)"]
  obtain fd5 where cp: "totalReplaceConstant_newcopy vn val (bl_start (bblocks fd 0)) fd = Inr ((?c, ?u), fd5)"
    and c5: "op_count fd5 = Suc ?c" "create_index fd5 = Suc (Suc ?u)"
      "bblocks fd5 = bblocks fd"
      "\<forall>x. x \<noteq> ?c \<longrightarrow> obank fd5 x = obank fd x"
      "\<forall>w. w < ?u \<longrightarrow> vbank fd5 w = vbank fd w"
      "code (obank fd5 ?c) = Some CPUI_COPY"
      "op_output (obank fd5 ?c) = Some ?u"
      "op_inrefs (obank fd5 ?c) = [Some ?k]"
      "vn_flags (vbank fd5 ?k) = {vn_constant}"
      "vn_size (vbank fd5 ?k) = vn_size (vbank fd vn)"
      "vn_loc (vbank fd5 ?k) = Address constant_space val"
      "vn_flags (vbank fd5 ?u) = {}"
      "vn_size (vbank fd5 ?u) = vn_size (vbank fd vn)"
      "getType (getSpace (vn_loc (vbank fd5 ?u))) = IPTR_INTERNAL"
      "vn_def (vbank fd5 ?u) = Some ?c"
    by blast
  have o5: "\<And>x. x < op_count fd \<Longrightarrow> obank fd5 x = obank fd x" using c5(4) by simp
  have jeq: "skipMultiequal fd5 ?l 0 = ?j"
  proof (rule skipMultiequal_cong)
    fix x assume "x \<in> set ?l"
    then have "x < op_count fd" using wb by blast
    then show "code (obank fd5 x) = code (obank fd x)" using o5 by simp
  qed
  have ib: "opInsertBegin ?c 0 fd5 = opInsert ?c 0 ?j fd5"
    using c5(3,6) jeq by (simp add: opInsertBegin_def Let_def)
  have gi: "getIn (obank fd op) ?i = Some vn" using sl by (rule getSlot_getIn)
  have uk: "?u \<le> ?u" "?u < Suc (Suc ?u)" "?u \<le> ?k" "?k < Suc (Suc ?u)" "?u \<noteq> ?k" by simp_all
  from copy_linked [OF wf wb sl gi rd uk c5, of 0 ?j]
  obtain fd7 where s7: "opSetInput op ?u ?i (opInsert ?c 0 ?j fd5) = Inr fd7"
    and rw: "rewritesRead vn op ?i ?u fd fd7"
    and n7: "op_count fd7 = Suc ?c" "create_index fd7 = Suc (Suc ?u)"
    and m7: "markerReadsCopy fd7 op ?i ?c ?u ?k val (vn_size (vbank fd vn))"
    and p7: "op_parent (obank fd7 ?c) = Some 0"
    and l7: "\<forall>b. bl_op (bblocks fd7 b) =
            (if b = 0 then take ?j ?l @ [?c] @ drop ?j ?l else bl_op (bblocks fd b))"
    by blast
  have run: "totalReplaceConstant_step vn val op (None, fd) = Inr (Some ?c, fd7)"
    using mk df cp ib s7
    by (simp add: totalReplaceConstant_step_def totalReplaceConstant_copy_def Let_def)
  have j: "?j = length (takeWhile ?P ?l)" by (simp add: skipMultiequal_takeWhile)
  have tk: "take ?j ?l = takeWhile ?P ?l" "drop ?j ?l = dropWhile ?P ?l"
    unfolding j by (simp_all add: takeWhile_eq_take [symmetric] dropWhile_eq_drop [symmetric])
  have lst: "\<forall>b. bl_op (bblocks fd7 b) =
            (if b = 0 then takeWhile ?P ?l @ [?c] @ dropWhile ?P ?l else bl_op (bblocks fd b))"
    using l7 unfolding tk by simp
  show ?thesis using run rw n7 m7 p7 lst by blast
qed

lemma totalReplaceConstant_step_next:
  assumes mk: "isMarker (obank fd op)"
      and sl: "getSlot (obank fd op) vn < numInput (obank fd op)"
      and rd: "op \<in> set (vn_descend (vbank fd vn))"
      and wf: "op < op_count fd" "vn < create_index fd"
      and wb: "\<forall>b. \<forall>y \<in> set (bl_op (bblocks fd b)). y < op_count fd"
      and out: "op_output (obank fd c) = Some u"
      and nu: "u \<noteq> vn" and nc: "\<not> isConstant (vbank fd u)"
  shows "\<exists>fd'. totalReplaceConstant_step vn val op (Some c, fd) = Inr (Some c, fd')
     \<and> rewritesRead vn op (getSlot (obank fd op) vn) u fd fd'
     \<and> op_count fd' = op_count fd \<and> create_index fd' = create_index fd"
proof -
  let ?i = "getSlot (obank fd op) vn"
  have gi: "getIn (obank fd op) ?i = Some vn" using sl by (rule getSlot_getIn)
  have nu': "vn \<noteq> u" using nu by simp
  have nc': "isConstant (vbank fd u) \<longrightarrow> vn_descend (vbank fd u) = []" using nc by simp
  from opSetInput_replace [OF sl gi nu' rd nc']
  obtain fd7 where s7: "opSetInput op u ?i fd = Inr fd7"
    and o7: "obank fd7 = (obank fd)(op := (obank fd op)\<lparr>op_inrefs := (op_inrefs (obank fd op))[?i := Some u]\<rparr>)"
    and b7: "bblocks fd7 = bblocks fd" "create_index fd7 = create_index fd" "op_count fd7 = op_count fd"
    and w7: "\<forall>w. w \<noteq> vn \<longrightarrow> w \<noteq> u \<longrightarrow> vbank fd7 w = vbank fd w"
    and u7: "vbank fd7 u = (vbank fd u)\<lparr>vn_descend := vn_descend (vbank fd u) @ [op]\<rparr>"
    and v7: "vbank fd7 vn = (vbank fd vn)\<lparr>vn_descend := remove1 op (vn_descend (vbank fd vn))\<rparr>"
    by blast
  have cnt: "op_count fd \<le> op_count fd" "create_index fd \<le> create_index fd" by simp_all
  have oo: "\<forall>x. x < op_count fd \<longrightarrow> obank fd x = obank fd x" by simp
  have ov: "\<forall>w. w < create_index fd \<longrightarrow> vbank fd w = vbank fd w" by simp
  have no: "\<forall>x. op_count fd \<le> x \<and> x < op_count fd \<longrightarrow> code (obank fd x) = Some CPUI_COPY"
    by auto
  have bl: "\<forall>b. bl_intothis (bblocks fd b) = bl_intothis (bblocks fd b)
               \<and> bl_dead (bblocks fd b) = bl_dead (bblocks fd b)
               \<and> (bl_op (bblocks fd b) = bl_op (bblocks fd b)
                   \<or> (op_count fd < op_count fd
                       \<and> (\<exists>j. bl_op (bblocks fd b)
                             = take j (bl_op (bblocks fd b)) @ [op_count fd] @ drop j (bl_op (bblocks fd b)))))"
    by simp
  have rw: "rewritesRead vn op ?i u fd fd7"
    using wf wb cnt oo ov no bl o7 b7 w7 u7 v7 by (rule rewritesRead_intro)
  have run: "totalReplaceConstant_step vn val op (Some c, fd) = Inr (Some c, fd7)"
    using mk out s7 by (simp add: totalReplaceConstant_step_def Let_def)
  show ?thesis using run rw b7 by blast
qed

lemma getIn_rewritten:
  assumes W: "rewritesRead vn op i new fd fd'" and x: "x < op_count fd"
  shows "getIn (obank fd' x) i' =
     (if x = op \<and> i' = i \<and> i < numInput (obank fd op) then Some new else getIn (obank fd x) i')"
proof (cases "x = op")
  case True
  have "op_inrefs (obank fd' op) = (op_inrefs (obank fd op))[i := Some new]"
    using W by (simp add: rewritesRead_def)
  then show ?thesis using True by (auto simp add: getIn_def numInput_def nth_list_update)
next
  case False
  then have "op_inrefs (obank fd' x) = op_inrefs (obank fd x)"
    using W x by (simp add: rewritesRead_def)
  then show ?thesis using False by (simp add: getIn_def numInput_def)
qed

lemma rewritesRead_opsKept: "rewritesRead vn op i new fd fd' \<Longrightarrow> opsKept fd fd'"
  by (simp add: rewritesRead_def)

lemma opsKept_op:
  assumes "opsKept fd fd'" and "x < op_count fd"
  shows "code (obank fd' x) = code (obank fd x)" "op_output (obank fd' x) = op_output (obank fd x)"
    "op_parent (obank fd' x) = op_parent (obank fd x)" "numInput (obank fd' x) = numInput (obank fd x)"
    "isMarker (obank fd' x) = isMarker (obank fd x)" "isFlowBreak (obank fd' x) = isFlowBreak (obank fd x)"
  using assms by (simp_all add: opsKept_def isMarker_def isFlowBreak_def)

lemma opsKept_vn:
  assumes "opsKept fd fd'" and "w < create_index fd"
  shows "vn_flags (vbank fd' w) = vn_flags (vbank fd w)" "vn_loc (vbank fd' w) = vn_loc (vbank fd w)"
    "vn_size (vbank fd' w) = vn_size (vbank fd w)" "vn_def (vbank fd' w) = vn_def (vbank fd w)"
    "isConstant (vbank fd' w) = isConstant (vbank fd w)"
  using assms by (simp_all add: opsKept_def isConstant_def)

lemma opsKept_block:
  assumes "opsKept fd fd'"
  shows "bl_intothis (bblocks fd' b) = bl_intothis (bblocks fd b)"
    "bl_dead (bblocks fd' b) = bl_dead (bblocks fd b)"
    "filter (\<lambda>y. y < op_count fd) (bl_op (bblocks fd' b)) = bl_op (bblocks fd b)"
    "\<forall>y \<in> set (bl_op (bblocks fd' b)). y < op_count fd'"
  using assms by (simp_all add: opsKept_def)

lemma opsKept_counts:
  assumes "opsKept fd fd'"
  shows "op_count fd \<le> op_count fd'" "create_index fd \<le> create_index fd'"
  using assms by (simp_all add: opsKept_def)

lemma opsKept_mem:
  assumes "opsKept fd fd'" and "y \<in> set (bl_op (bblocks fd b))"
  shows "y \<in> set (bl_op (bblocks fd' b))" "y < op_count fd"
proof -
  have "y \<in> set (filter (\<lambda>y. y < op_count fd) (bl_op (bblocks fd' b)))"
    using assms opsKept_block(3) [OF assms(1), of b] by simp
  then show "y \<in> set (bl_op (bblocks fd' b))" "y < op_count fd" by simp_all
qed

lemma markerReadsCopy_kept:
  assumes M: "markerReadsCopy fd x i' c u k val sz"
    and W: "rewritesRead vn op i new fd fd'"
    and c: "c < op_count fd" "c \<noteq> op" and u: "u < create_index fd" and k: "k < create_index fd"
    and G: "getIn (obank fd' x) i' = getIn (obank fd x) i'"
  shows "markerReadsCopy fd' x i' c u k val sz"
proof -
  note K = rewritesRead_opsKept [OF W]
  have ci: "op_inrefs (obank fd' c) = op_inrefs (obank fd c)"
    using W c by (simp add: rewritesRead_def)
  show ?thesis
    using M G ci opsKept_op(1,2) [OF K c(1)] opsKept_vn [OF K u] opsKept_vn [OF K k]
    by (simp add: markerReadsCopy_def)
qed

lemma copyPlaced_kept:
  assumes P: "copyPlaced fd0 fd x i c" and K0: "op_count fd0 \<le> op_count fd"
    and K: "opsKept fd fd'" and c: "c < op_count fd"
  shows "copyPlaced fd0 fd' x i c"
proof -
  let ?Q = "\<lambda>y. y < op_count fd"
  have new: "\<And>b P. \<forall>y \<in> set (bl_op (bblocks fd' b)). \<not> ?Q y \<longrightarrow> op_count fd0 \<le> y \<or> P y"
    using K0 by auto
  have fl: "\<And>b. filter ?Q (bl_op (bblocks fd' b)) = bl_op (bblocks fd b)"
    using opsKept_block(3) [OF K] by simp
  have F: "\<And>b P a e. follows (\<lambda>y. op_count fd0 \<le> y \<or> P y) (bl_op (bblocks fd b)) a e
             \<Longrightarrow> follows (\<lambda>y. op_count fd0 \<le> y \<or> P y) (bl_op (bblocks fd' b)) a e"
  proof -
    fix b P a e
    assume "follows (\<lambda>y. op_count fd0 \<le> y \<or> P y) (bl_op (bblocks fd b)) a e"
    then have "follows (\<lambda>y. op_count fd0 \<le> y \<or> P y) (filter ?Q (bl_op (bblocks fd' b))) a e"
      by (simp add: fl)
    then show "follows (\<lambda>y. op_count fd0 \<le> y \<or> P y) (bl_op (bblocks fd' b)) a e"
      using new [of b P] by (rule follows_filter)
  qed
  have T: "\<And>b a e. follows (\<lambda>z. True) (bl_op (bblocks fd b)) a e
             \<Longrightarrow> follows (\<lambda>z. True) (bl_op (bblocks fd' b)) a e"
  proof -
    fix b a e
    assume "follows (\<lambda>z. True) (bl_op (bblocks fd b)) a e"
    then have "follows (\<lambda>z. True) (filter ?Q (bl_op (bblocks fd' b))) a e" by (simp add: fl)
    then show "follows (\<lambda>z. True) (bl_op (bblocks fd' b)) a e"
      by (rule follows_filter) simp
  qed
  have A: "\<And>b P. allAfter (\<lambda>y. op_count fd0 \<le> y \<or> P y) (bl_op (bblocks fd b)) c
             \<Longrightarrow> allAfter (\<lambda>y. op_count fd0 \<le> y \<or> P y) (bl_op (bblocks fd' b)) c"
  proof -
    fix b P
    assume "allAfter (\<lambda>y. op_count fd0 \<le> y \<or> P y) (bl_op (bblocks fd b)) c"
    then have "allAfter (\<lambda>y. op_count fd0 \<le> y \<or> P y) (filter ?Q (bl_op (bblocks fd' b))) c"
      by (simp add: fl)
    then show "allAfter (\<lambda>y. op_count fd0 \<le> y \<or> P y) (bl_op (bblocks fd' b)) c"
      using new [of b P] c by (rule allAfter_filter)
  qed
  have S: "\<And>b. c \<in> set (bl_op (bblocks fd b)) \<Longrightarrow> c \<in> set (bl_op (bblocks fd' b))"
    using opsKept_mem(1) [OF K] by blast
  have pc: "op_parent (obank fd' c) = op_parent (obank fd c)" using opsKept_op(3) [OF K c] .
  from P obtain p where p: "op_parent (obank fd0 x) = Some p"
    and m: "code (obank fd0 x) = Some CPUI_MULTIEQUAL \<longrightarrow>
             i < length (bl_intothis (bblocks fd0 p))
             \<and> op_parent (obank fd c) = Some (bl_intothis (bblocks fd0 p) ! i)
             \<and> (\<forall>y \<in> set (bl_op (bblocks fd0 (bl_intothis (bblocks fd0 p) ! i))).
                   \<not> isFlowBreak (obank fd0 y)
                   \<longrightarrow> follows (\<lambda>z. True) (bl_op (bblocks fd (bl_intothis (bblocks fd0 p) ! i))) y c)
             \<and> allAfter (\<lambda>y. op_count fd0 \<le> y \<or> isFlowBreak (obank fd0 y))
                  (bl_op (bblocks fd (bl_intothis (bblocks fd0 p) ! i))) c"
    and n: "code (obank fd0 x) = Some CPUI_INDIRECT \<longrightarrow>
             op_parent (obank fd c) = Some p
             \<and> c \<in> set (bl_op (bblocks fd p))
             \<and> (x \<in> set (bl_op (bblocks fd0 p)) \<longrightarrow>
                  follows (\<lambda>y. op_count fd0 \<le> y \<or> code (obank fd0 y) = Some CPUI_INDIRECT)
                    (bl_op (bblocks fd p)) c x)"
    unfolding copyPlaced_def by blast
  have m': "code (obank fd0 x) = Some CPUI_MULTIEQUAL \<longrightarrow>
             i < length (bl_intothis (bblocks fd0 p))
             \<and> op_parent (obank fd' c) = Some (bl_intothis (bblocks fd0 p) ! i)
             \<and> (\<forall>y \<in> set (bl_op (bblocks fd0 (bl_intothis (bblocks fd0 p) ! i))).
                   \<not> isFlowBreak (obank fd0 y)
                   \<longrightarrow> follows (\<lambda>z. True) (bl_op (bblocks fd' (bl_intothis (bblocks fd0 p) ! i))) y c)
             \<and> allAfter (\<lambda>y. op_count fd0 \<le> y \<or> isFlowBreak (obank fd0 y))
                  (bl_op (bblocks fd' (bl_intothis (bblocks fd0 p) ! i))) c"
    using m T A [of "\<lambda>y. isFlowBreak (obank fd0 y)"] pc by auto
  have n': "code (obank fd0 x) = Some CPUI_INDIRECT \<longrightarrow>
             op_parent (obank fd' c) = Some p
             \<and> c \<in> set (bl_op (bblocks fd' p))
             \<and> (x \<in> set (bl_op (bblocks fd0 p)) \<longrightarrow>
                  follows (\<lambda>y. op_count fd0 \<le> y \<or> code (obank fd0 y) = Some CPUI_INDIRECT)
                    (bl_op (bblocks fd' p)) c x)"
    using n S F [of "\<lambda>y. code (obank fd0 y) = Some CPUI_INDIRECT"] pc by auto
  show ?thesis unfolding copyPlaced_def using p m' n' by blast
qed

lemma copyPlaced_multiequal:
  assumes K: "opsKept fd0 fd" and o: "op < op_count fd0"
    and par: "op_parent (obank fd0 op) = Some p"
    and cd: "code (obank fd0 op) = Some CPUI_MULTIEQUAL"
    and ib: "i < length (bl_intothis (bblocks fd0 p))"
    and pc: "op_parent (obank fd' (op_count fd)) = Some (bl_intothis (bblocks fd0 p) ! i)"
    and lst: "bl_op (bblocks fd' (bl_intothis (bblocks fd0 p) ! i)) =
          (let ops = bl_op (bblocks fd (bl_intothis (bblocks fd0 p) ! i))
           in if ops \<noteq> [] \<and> isFlowBreak (obank fd (last ops))
              then butlast ops @ [op_count fd, last ops] else ops @ [op_count fd])"
  shows "copyPlaced fd0 fd' op i (op_count fd)"
proof -
  let ?B = "bl_intothis (bblocks fd0 p) ! i"
  let ?l = "bl_op (bblocks fd ?B)"
  let ?c = "op_count fd"
  let ?Pb = "\<lambda>y. isFlowBreak (obank fd y)"
  have l': "bl_op (bblocks fd' ?B) = (if ?l \<noteq> [] \<and> ?Pb (last ?l) then butlast ?l @ [?c, last ?l] else ?l @ [?c])"
    using lst by (simp add: Let_def)
  have a: "\<forall>y \<in> set (bl_op (bblocks fd0 ?B)). \<not> isFlowBreak (obank fd0 y)
             \<longrightarrow> follows (\<lambda>z. True) (bl_op (bblocks fd' ?B)) y ?c"
  proof (intro ballI impI)
    fix y assume y: "y \<in> set (bl_op (bblocks fd0 ?B))" and nf: "\<not> isFlowBreak (obank fd0 y)"
    have yl: "y \<in> set ?l" and y0: "y < op_count fd0" using opsKept_mem [OF K y] by simp_all
    have "\<not> ?Pb y" using nf opsKept_op(6) [OF K y0] by simp
    then show "follows (\<lambda>z. True) (bl_op (bblocks fd' ?B)) y ?c"
      unfolding l' using yl by (intro follows_end_insert)
  qed
  have cl: "?c \<notin> set ?l" using opsKept_block(4) [OF K, of ?B] by auto
  have lastP: "?l \<noteq> [] \<Longrightarrow> ?Pb (last ?l) \<Longrightarrow> op_count fd0 \<le> last ?l \<or> isFlowBreak (obank fd0 (last ?l))"
  proof -
    assume "?l \<noteq> []" and b: "?Pb (last ?l)"
    show "op_count fd0 \<le> last ?l \<or> isFlowBreak (obank fd0 (last ?l))"
    proof (cases "last ?l < op_count fd0")
      case True
      then show ?thesis using b opsKept_op(6) [OF K True] by simp
    next
      case False
      then show ?thesis by simp
    qed
  qed
  have b: "allAfter (\<lambda>y. op_count fd0 \<le> y \<or> isFlowBreak (obank fd0 y)) (bl_op (bblocks fd' ?B)) ?c"
    unfolding l' using cl lastP by (intro allAfter_end_insert)
  show ?thesis unfolding copyPlaced_def using par cd ib pc a b by simp
qed

lemma getBasicIter_nth:
  "x \<in> set l \<Longrightarrow> getBasicIter l x < length l \<and> l ! getBasicIter l x = x"
  by (induction l) auto

lemma copyPlaced_indirect:
  assumes K: "opsKept fd0 fd" and o: "op < op_count fd0"
    and par: "op_parent (obank fd0 op) = Some p"
    and cd: "code (obank fd0 op) = Some CPUI_INDIRECT"
    and pc: "op_parent (obank fd' (op_count fd)) = Some p"
    and lst: "(let ops = bl_op (bblocks fd p);
             j = backOverIndirect fd ops (getBasicIter ops op)
         in bl_op (bblocks fd' p) = take j ops @ [op_count fd] @ drop j ops
            \<and> j \<le> getBasicIter ops op
            \<and> (\<forall>k. j \<le> k \<and> k < getBasicIter ops op \<longrightarrow>
                   code (obank fd (ops ! k)) = Some CPUI_INDIRECT))"
  shows "copyPlaced fd0 fd' op i (op_count fd)"
proof -
  let ?l = "bl_op (bblocks fd p)"
  let ?c = "op_count fd"
  let ?n = "getBasicIter ?l op"
  let ?P = "\<lambda>y. op_count fd0 \<le> y \<or> code (obank fd0 y) = Some CPUI_INDIRECT"
  obtain j where l': "bl_op (bblocks fd' p) = take j ?l @ [?c] @ drop j ?l"
    and jn: "j \<le> ?n"
    and bt: "\<forall>k. j \<le> k \<and> k < ?n \<longrightarrow> code (obank fd (?l ! k)) = Some CPUI_INDIRECT"
    using lst by (auto simp add: Let_def)
  have cin: "?c \<in> set (bl_op (bblocks fd' p))" unfolding l' by simp
  have f: "op \<in> set (bl_op (bblocks fd0 p)) \<longrightarrow> follows ?P (bl_op (bblocks fd' p)) ?c op"
  proof
    assume "op \<in> set (bl_op (bblocks fd0 p))"
    then have "op \<in> set ?l" using opsKept_mem(1) [OF K] by blast
    then have n: "?n < length ?l" "?l ! ?n = op" using getBasicIter_nth [of op ?l] by simp_all
    have "\<forall>k. j \<le> k \<and> k < ?n \<longrightarrow> ?P (?l ! k)"
    proof (intro allI impI)
      fix k assume k: "j \<le> k \<and> k < ?n"
      then have ci: "code (obank fd (?l ! k)) = Some CPUI_INDIRECT" using bt by blast
      show "?P (?l ! k)"
      proof (cases "?l ! k < op_count fd0")
        case True
        then show ?thesis using ci opsKept_op(1) [OF K True] by simp
      next
        case False
        then show ?thesis by simp
      qed
    qed
    then have "follows ?P (take j ?l @ [?c] @ drop j ?l) ?c (?l ! ?n)"
      using jn n(1) by (intro follows_insert_before)
    then show "follows ?P (bl_op (bblocks fd' p)) ?c op" using l' n(2) by simp
  qed
  show ?thesis unfolding copyPlaced_def using par cd pc cin f by simp
qed

lemma readsVia_step:
  assumes R: "readsVia vn val sz S pl fd0 fd" and K: "opsKept fd0 fd"
    and W: "rewritesRead vn op i new fd fd'"
    and v: "vn < create_index fd0" and o: "op < op_count fd0"
    and g: "getIn (obank fd op) i = Some vn"
    and N: "if isMarker (obank fd0 op)
            then (\<exists>c k. c \<in> S \<and> op_count fd0 \<le> c \<and> c < op_count fd'
                    \<and> create_index fd0 \<le> new \<and> new < create_index fd'
                    \<and> create_index fd0 \<le> k \<and> k < create_index fd'
                    \<and> markerReadsCopy fd' op i c new k val sz
                    \<and> (pl \<longrightarrow> copyPlaced fd0 fd' op i c))
            else (create_index fd0 \<le> new \<and> new < create_index fd'
                    \<and> isConstant (vbank fd' new)
                    \<and> vn_loc (vbank fd' new) = Address constant_space val
                    \<and> vn_size (vbank fd' new) = sz)"
  shows "readsVia vn val sz S pl fd0 fd'"
  unfolding readsVia_def
proof (intro allI impI)
  fix x i' assume x0: "x < op_count fd0"
  note K1 = rewritesRead_opsKept [OF W]
  note c0 = opsKept_counts [OF K] and c1 = opsKept_counts [OF K1]
  have x: "x < op_count fd" using x0 c0 by simp
  have il: "i < numInput (obank fd op)" using g by (auto simp add: getIn_def split: if_splits)
  note gr = getIn_rewritten [OF W x, of i']
  from R x0 have "getIn (obank fd x) i' = getIn (obank fd0 x) i'
        \<or> (getIn (obank fd0 x) i' = Some vn
           \<and> (if isMarker (obank fd0 x)
              then (\<exists>c u k. c \<in> S \<and> op_count fd0 \<le> c \<and> c < op_count fd
                      \<and> create_index fd0 \<le> u \<and> u < create_index fd
                      \<and> create_index fd0 \<le> k \<and> k < create_index fd
                      \<and> markerReadsCopy fd x i' c u k val sz
                      \<and> (pl \<longrightarrow> copyPlaced fd0 fd x i' c))
              else (\<exists>k. getIn (obank fd x) i' = Some k
                      \<and> create_index fd0 \<le> k \<and> k < create_index fd
                      \<and> isConstant (vbank fd k)
                      \<and> vn_loc (vbank fd k) = Address constant_space val
                      \<and> vn_size (vbank fd k) = sz)))"
    unfolding readsVia_def by blast
  then show "getIn (obank fd' x) i' = getIn (obank fd0 x) i'
        \<or> (getIn (obank fd0 x) i' = Some vn
           \<and> (if isMarker (obank fd0 x)
              then (\<exists>c u k. c \<in> S \<and> op_count fd0 \<le> c \<and> c < op_count fd'
                      \<and> create_index fd0 \<le> u \<and> u < create_index fd'
                      \<and> create_index fd0 \<le> k \<and> k < create_index fd'
                      \<and> markerReadsCopy fd' x i' c u k val sz
                      \<and> (pl \<longrightarrow> copyPlaced fd0 fd' x i' c))
              else (\<exists>k. getIn (obank fd' x) i' = Some k
                      \<and> create_index fd0 \<le> k \<and> k < create_index fd'
                      \<and> isConstant (vbank fd' k)
                      \<and> vn_loc (vbank fd' k) = Address constant_space val
                      \<and> vn_size (vbank fd' k) = sz)))"
  proof
    assume same: "getIn (obank fd x) i' = getIn (obank fd0 x) i'"
    show ?thesis
    proof (cases "x = op \<and> i' = i")
      case True
      have g0: "getIn (obank fd0 x) i' = Some vn" using same g True by simp
      have g1: "getIn (obank fd' x) i' = Some new" using gr True il by simp
      show ?thesis
      proof (cases "isMarker (obank fd0 op)")
        case mk: True
        then obtain c k where "c \<in> S \<and> op_count fd0 \<le> c \<and> c < op_count fd'
                    \<and> create_index fd0 \<le> new \<and> new < create_index fd'
                    \<and> create_index fd0 \<le> k \<and> k < create_index fd'
                    \<and> markerReadsCopy fd' op i c new k val sz
                    \<and> (pl \<longrightarrow> copyPlaced fd0 fd' op i c)"
          using N by auto
        then have "\<exists>c u k. c \<in> S \<and> op_count fd0 \<le> c \<and> c < op_count fd'
                      \<and> create_index fd0 \<le> u \<and> u < create_index fd'
                      \<and> create_index fd0 \<le> k \<and> k < create_index fd'
                      \<and> markerReadsCopy fd' op i c u k val sz
                      \<and> (pl \<longrightarrow> copyPlaced fd0 fd' op i c)"
          by blast
        then show ?thesis using g0 mk True by simp
      next
        case nm: False
        then have "create_index fd0 \<le> new \<and> new < create_index fd'
                    \<and> isConstant (vbank fd' new)
                    \<and> vn_loc (vbank fd' new) = Address constant_space val
                    \<and> vn_size (vbank fd' new) = sz"
          using N by simp
        then have "\<exists>k. getIn (obank fd' x) i' = Some k
                      \<and> create_index fd0 \<le> k \<and> k < create_index fd'
                      \<and> isConstant (vbank fd' k)
                      \<and> vn_loc (vbank fd' k) = Address constant_space val
                      \<and> vn_size (vbank fd' k) = sz"
          using g1 by simp
        then show ?thesis using g0 nm True by simp
      qed
    next
      case False
      then have "getIn (obank fd' x) i' = getIn (obank fd x) i'" using gr by auto
      then show ?thesis using same by simp
    qed
  next
    assume ch: "getIn (obank fd0 x) i' = Some vn
           \<and> (if isMarker (obank fd0 x)
              then (\<exists>c u k. c \<in> S \<and> op_count fd0 \<le> c \<and> c < op_count fd
                      \<and> create_index fd0 \<le> u \<and> u < create_index fd
                      \<and> create_index fd0 \<le> k \<and> k < create_index fd
                      \<and> markerReadsCopy fd x i' c u k val sz
                      \<and> (pl \<longrightarrow> copyPlaced fd0 fd x i' c))
              else (\<exists>k. getIn (obank fd x) i' = Some k
                      \<and> create_index fd0 \<le> k \<and> k < create_index fd
                      \<and> isConstant (vbank fd k)
                      \<and> vn_loc (vbank fd k) = Address constant_space val
                      \<and> vn_size (vbank fd k) = sz))"
    show ?thesis
    proof (cases "isMarker (obank fd0 x)")
      case True
      then obtain c u k where cs: "c \<in> S" and cb: "op_count fd0 \<le> c" "c < op_count fd"
        and ub: "create_index fd0 \<le> u" "u < create_index fd"
        and kb: "create_index fd0 \<le> k" "k < create_index fd"
        and m: "markerReadsCopy fd x i' c u k val sz"
        and p: "pl \<longrightarrow> copyPlaced fd0 fd x i' c"
        using ch by auto
      have gx: "getIn (obank fd x) i' = Some u" using m by (simp add: markerReadsCopy_def)
      have "u \<noteq> vn" using ub v by simp
      then have ne: "\<not> (x = op \<and> i' = i)" using gx g by auto
      then have gs: "getIn (obank fd' x) i' = getIn (obank fd x) i'" using gr by auto
      have cne: "c \<noteq> op" using cb o by simp
      have m': "markerReadsCopy fd' x i' c u k val sz"
        using m W cb(2) cne ub(2) kb(2) gs by (rule markerReadsCopy_kept)
      have p': "pl \<longrightarrow> copyPlaced fd0 fd' x i' c"
        using p copyPlaced_kept [OF _ c0(1) K1 cb(2)] by blast
      have "c < op_count fd'" "u < create_index fd'" "k < create_index fd'"
        using cb ub kb c1 by simp_all
      then have "\<exists>c u k. c \<in> S \<and> op_count fd0 \<le> c \<and> c < op_count fd'
                      \<and> create_index fd0 \<le> u \<and> u < create_index fd'
                      \<and> create_index fd0 \<le> k \<and> k < create_index fd'
                      \<and> markerReadsCopy fd' x i' c u k val sz
                      \<and> (pl \<longrightarrow> copyPlaced fd0 fd' x i' c)"
        using cs cb ub kb m' p' by blast
      moreover have "getIn (obank fd0 x) i' = Some vn" using ch by simp
      ultimately show ?thesis using True by simp
    next
      case False
      then obtain k where gk: "getIn (obank fd x) i' = Some k"
        and kb: "create_index fd0 \<le> k" "k < create_index fd"
        and kc: "isConstant (vbank fd k)" "vn_loc (vbank fd k) = Address constant_space val"
          "vn_size (vbank fd k) = sz"
        using ch by auto
      have "k \<noteq> vn" using kb v by simp
      then have ne: "\<not> (x = op \<and> i' = i)" using gk g by auto
      then have gs: "getIn (obank fd' x) i' = Some k" using gr gk by auto
      have "k < create_index fd'" using kb c1 by simp
      then have "\<exists>k. getIn (obank fd' x) i' = Some k
                      \<and> create_index fd0 \<le> k \<and> k < create_index fd'
                      \<and> isConstant (vbank fd' k)
                      \<and> vn_loc (vbank fd' k) = Address constant_space val
                      \<and> vn_size (vbank fd' k) = sz"
        using gs kb kc opsKept_vn [OF K1 kb(2)] by simp
      moreover have "getIn (obank fd0 x) i' = Some vn" using ch by simp
      ultimately show ?thesis using False by simp
    qed
  qed
qed

lemma pendingReads_head:
  assumes "pendingReads vn live (op # rest) n fd"
  shows "op < n" "Some vn \<in> set (op_inrefs (obank fd op))" "op \<in> set (vn_descend (vbank fd vn))"
proof -
  show o: "op < n" using assms by (simp add: pendingReads_def)
  have c: "count_list (op_inrefs (obank fd op)) (Some vn) = count_list (vn_descend (vbank fd vn)) op"
    "count_list (op # rest) op \<le> count_list (vn_descend (vbank fd vn)) op"
    using assms o unfolding pendingReads_def by blast+
  have "0 < count_list (vn_descend (vbank fd vn)) op" using c(2) by simp
  then show "op \<in> set (vn_descend (vbank fd vn))" by (simp add: count_list_pos)
  have "0 < count_list (op_inrefs (obank fd op)) (Some vn)" using c by simp
  then show "Some vn \<in> set (op_inrefs (obank fd op))" by (simp add: count_list_pos)
qed

lemma pendingReads_skip:
  assumes P: "pendingReads vn live (op # rest) n fd" and nl: "\<not> live op"
  shows "pendingReads vn live rest n fd"
  unfolding pendingReads_def
proof (intro conjI ballI allI impI)
  fix x assume "x \<in> set rest"
  then show "x < n" using P by (simp add: pendingReads_def)
next
  fix x assume x: "x < n"
  show "count_list (op_inrefs (obank fd x)) (Some vn) = count_list (vn_descend (vbank fd vn)) x"
    using P x unfolding pendingReads_def by blast
next
  fix x assume x: "x < n"
  have "count_list (op # rest) x \<le> count_list (vn_descend (vbank fd vn)) x"
    using P x unfolding pendingReads_def by blast
  then show "count_list rest x \<le> count_list (vn_descend (vbank fd vn)) x"
    by (simp split: if_splits)
next
  fix x assume x: "x < n" and l: "live x"
  have "count_list (vn_descend (vbank fd vn)) x = count_list (op # rest) x"
    using P x l unfolding pendingReads_def by blast
  moreover have "x \<noteq> op" using l nl by auto
  ultimately show "count_list (vn_descend (vbank fd vn)) x = count_list rest x" by simp
qed

lemma pendingReads_step:
  assumes P: "pendingReads vn live (op # rest) n fd"
    and W: "rewritesRead vn op i new fd fd'"
    and g: "getIn (obank fd op) i = Some vn" and ne: "new \<noteq> vn" and n: "n \<le> op_count fd"
  shows "pendingReads vn live rest n fd'"
proof -
  note h = pendingReads_head [OF P]
  have il: "i < length (op_inrefs (obank fd op))" "op_inrefs (obank fd op) ! i = Some vn"
    using g by (auto simp add: getIn_def numInput_def split: if_splits)
  have d: "vn_descend (vbank fd' vn) = remove1 op (vn_descend (vbank fd vn))"
    using W by (simp add: rewritesRead_def)
  have io: "op_inrefs (obank fd' op) = (op_inrefs (obank fd op))[i := Some new]"
    using W by (simp add: rewritesRead_def)
  have ix: "\<And>x. x < n \<Longrightarrow> x \<noteq> op \<Longrightarrow> op_inrefs (obank fd' x) = op_inrefs (obank fd x)"
    using W n by (simp add: rewritesRead_def)
  have ci: "count_list (op_inrefs (obank fd' op)) (Some vn)
              = count_list (op_inrefs (obank fd op)) (Some vn) - 1"
    unfolding io using il ne by (intro count_list_update) simp_all
  have cd: "\<And>x. count_list (vn_descend (vbank fd' vn)) x
              = (if x = op then count_list (vn_descend (vbank fd vn)) x - 1
                 else count_list (vn_descend (vbank fd vn)) x)"
    unfolding d using h(3) by (simp add: count_list_remove1)
  show ?thesis
    unfolding pendingReads_def
  proof (intro conjI ballI allI impI)
    fix x assume "x \<in> set rest"
    then show "x < n" using P by (simp add: pendingReads_def)
  next
    fix x assume x: "x < n"
    have e: "count_list (op_inrefs (obank fd x)) (Some vn) = count_list (vn_descend (vbank fd vn)) x"
      using P x unfolding pendingReads_def by blast
    show "count_list (op_inrefs (obank fd' x)) (Some vn) = count_list (vn_descend (vbank fd' vn)) x"
    proof (cases "x = op")
      case True
      then show ?thesis using ci cd [of op] e by simp
    next
      case False
      then show ?thesis using ix [OF x False] cd [of x] e by simp
    qed
  next
    fix x assume x: "x < n"
    have "count_list (op # rest) x \<le> count_list (vn_descend (vbank fd vn)) x"
      using P x unfolding pendingReads_def by blast
    then show "count_list rest x \<le> count_list (vn_descend (vbank fd' vn)) x"
      using cd [of x] by (simp split: if_splits)
  next
    fix x assume x: "x < n" and l: "live x"
    have "count_list (vn_descend (vbank fd vn)) x = count_list (op # rest) x"
      using P x l unfolding pendingReads_def by blast
    then show "count_list (vn_descend (vbank fd' vn)) x = count_list rest x"
      using cd [of x] by (simp split: if_splits)
  qed
qed

lemma descend2Undef_step_inv:
  assumes V: "vn < create_index fd0"
    and Rd: "\<exists>p. op_parent (obank fd0 op) = Some p
               \<and> (code (obank fd0 op) = Some CPUI_MULTIEQUAL \<longrightarrow> \<not> bl_dead (bblocks fd0 p)
                    \<longrightarrow> numInput (obank fd0 op) \<le> length (bl_intothis (bblocks fd0 p)))"
    and K: "opsKept fd0 fd" and R: "readsVia vn 0xBADDEF sz UNIV True fd0 fd"
    and P: "pendingReads vn (inLiveBlock fd0) (op # rest) (op_count fd0) fd"
  shows "\<exists>res' fd'. descend2Undef_step vn sz op (res, fd) = Inr (res', fd')
     \<and> opsKept fd0 fd' \<and> readsVia vn 0xBADDEF sz UNIV True fd0 fd'
     \<and> pendingReads vn (inLiveBlock fd0) rest (op_count fd0) fd'"
proof -
  obtain p where par0: "op_parent (obank fd0 op) = Some p"
    and mq: "code (obank fd0 op) = Some CPUI_MULTIEQUAL \<longrightarrow> \<not> bl_dead (bblocks fd0 p)
                    \<longrightarrow> numInput (obank fd0 op) \<le> length (bl_intothis (bblocks fd0 p))"
    using Rd by blast
  note h = pendingReads_head [OF P]
  note c0 = opsKept_counts [OF K]
  note ok = opsKept_op [OF K h(1)]
  have o: "op < op_count fd" using h(1) c0 by simp
  have v: "vn < create_index fd" using V c0 by simp
  have par: "op_parent (obank fd op) = Some p" using par0 ok(3) by simp
  have dd: "bl_dead (bblocks fd p) = bl_dead (bblocks fd0 p)" using opsKept_block(2) [OF K] .
  have it: "bl_intothis (bblocks fd p) = bl_intothis (bblocks fd0 p)" using opsKept_block(1) [OF K] .
  show ?thesis
  proof (cases "bl_dead (bblocks fd0 p)")
    case True
    then have run: "descend2Undef_step vn sz op (res, fd) = Inr (res, fd)"
      using par dd by (simp add: descend2Undef_step_dead)
    have "\<not> inLiveBlock fd0 op" using True par0 by (simp add: inLiveBlock_def)
    then have "pendingReads vn (inLiveBlock fd0) rest (op_count fd0) fd"
      using pendingReads_skip [OF P] by blast
    then show ?thesis using run K R by simp
  next
    case False
    then have nd: "\<not> bl_dead (bblocks fd p)" using dd by simp
    let ?i = "getSlot (obank fd op) vn"
    have sl: "?i < numInput (obank fd op)" using h(2) by (rule getSlot_lt)
    have gi: "getIn (obank fd op) ?i = Some vn" using sl by (rule getSlot_getIn)
    have wb: "\<forall>b. \<forall>y \<in> set (bl_op (bblocks fd b)). y < op_count fd"
      using opsKept_block(4) [OF K] by simp
    have fin: "\<exists>fd'. Q fd' \<and> opsKept fd0 fd' \<and> readsVia vn 0xBADDEF sz UNIV True fd0 fd'
                  \<and> pendingReads vn (inLiveBlock fd0) rest (op_count fd0) fd'"
      if q: "Q fd'" and W: "rewritesRead vn op ?i new fd fd'" and nv: "new \<noteq> vn"
        and N: "if isMarker (obank fd0 op)
            then (\<exists>c k. c \<in> UNIV \<and> op_count fd0 \<le> c \<and> c < op_count fd'
                    \<and> create_index fd0 \<le> new \<and> new < create_index fd'
                    \<and> create_index fd0 \<le> k \<and> k < create_index fd'
                    \<and> markerReadsCopy fd' op ?i c new k 0xBADDEF sz
                    \<and> (True \<longrightarrow> copyPlaced fd0 fd' op ?i c))
            else (create_index fd0 \<le> new \<and> new < create_index fd'
                    \<and> isConstant (vbank fd' new)
                    \<and> vn_loc (vbank fd' new) = Address constant_space 0xBADDEF
                    \<and> vn_size (vbank fd' new) = sz)"
      for Q fd' new
    proof -
      have K1: "opsKept fd0 fd'" using K rewritesRead_opsKept [OF W] by (rule opsKept_trans)
      have R1: "readsVia vn 0xBADDEF sz UNIV True fd0 fd'"
        using R K W V h(1) gi N by (rule readsVia_step)
      have P1: "pendingReads vn (inLiveBlock fd0) rest (op_count fd0) fd'"
        using P W gi nv c0(1) by (rule pendingReads_step)
      show ?thesis using q K1 R1 P1 by blast
    qed
    show ?thesis
    proof (cases "code (obank fd0 op) = Some CPUI_MULTIEQUAL")
      case True
      then have cd: "code (obank fd op) = Some CPUI_MULTIEQUAL" using ok(1) by simp
      have mk: "isMarker (obank fd0 op)" using True by (simp add: isMarker_def)
      have ib0: "?i < length (bl_intothis (bblocks fd0 p))"
        using mq True False sl ok(4) by simp
      then have ib: "?i < length (bl_intothis (bblocks fd p))" using it by simp
      from descend2Undef_step_multiequal [OF par nd cd sl ib h(3) o v wb, of sz res]
      obtain res' fd' where run: "descend2Undef_step vn sz op (res, fd) = Inr (res', fd')"
        and W: "rewritesRead vn op ?i (Suc (create_index fd)) fd fd'"
        and n: "op_count fd' = Suc (op_count fd)" "create_index fd' = Suc (Suc (create_index fd))"
        and m: "markerReadsCopy fd' op ?i (op_count fd) (Suc (create_index fd)) (create_index fd) 0xBADDEF sz"
        and pc: "op_parent (obank fd' (op_count fd)) = Some (bl_intothis (bblocks fd p) ! ?i)"
        and lst: "bl_op (bblocks fd' (bl_intothis (bblocks fd p) ! ?i)) =
          (let ops = bl_op (bblocks fd (bl_intothis (bblocks fd p) ! ?i))
           in if ops \<noteq> [] \<and> isFlowBreak (obank fd (last ops))
              then butlast ops @ [op_count fd, last ops] else ops @ [op_count fd])"
        by blast
      have cp: "copyPlaced fd0 fd' op ?i (op_count fd)"
        using K h(1) par0 True ib0 pc lst unfolding it by (rule copyPlaced_multiequal)
      have N: "if isMarker (obank fd0 op)
            then (\<exists>c k. c \<in> UNIV \<and> op_count fd0 \<le> c \<and> c < op_count fd'
                    \<and> create_index fd0 \<le> Suc (create_index fd) \<and> Suc (create_index fd) < create_index fd'
                    \<and> create_index fd0 \<le> k \<and> k < create_index fd'
                    \<and> markerReadsCopy fd' op ?i c (Suc (create_index fd)) k 0xBADDEF sz
                    \<and> (True \<longrightarrow> copyPlaced fd0 fd' op ?i c))
            else (create_index fd0 \<le> Suc (create_index fd) \<and> Suc (create_index fd) < create_index fd'
                    \<and> isConstant (vbank fd' (Suc (create_index fd)))
                    \<and> vn_loc (vbank fd' (Suc (create_index fd))) = Address constant_space 0xBADDEF
                    \<and> vn_size (vbank fd' (Suc (create_index fd))) = sz)"
      proof -
        have "op_count fd \<in> (UNIV :: nat set) \<and> op_count fd0 \<le> op_count fd \<and> op_count fd < op_count fd'
                    \<and> create_index fd0 \<le> Suc (create_index fd) \<and> Suc (create_index fd) < create_index fd'
                    \<and> create_index fd0 \<le> create_index fd \<and> create_index fd < create_index fd'
                    \<and> markerReadsCopy fd' op ?i (op_count fd) (Suc (create_index fd)) (create_index fd) 0xBADDEF sz
                    \<and> (True \<longrightarrow> copyPlaced fd0 fd' op ?i (op_count fd))"
          using m cp n c0 by simp
        then have "\<exists>c k. c \<in> (UNIV :: nat set) \<and> op_count fd0 \<le> c \<and> c < op_count fd'
                    \<and> create_index fd0 \<le> Suc (create_index fd) \<and> Suc (create_index fd) < create_index fd'
                    \<and> create_index fd0 \<le> k \<and> k < create_index fd'
                    \<and> markerReadsCopy fd' op ?i c (Suc (create_index fd)) k 0xBADDEF sz
                    \<and> (True \<longrightarrow> copyPlaced fd0 fd' op ?i c)"
          by blast
        then show ?thesis using mk by simp
      qed
      have nv: "Suc (create_index fd) \<noteq> vn" using v by simp
      from fin [of "\<lambda>f. descend2Undef_step vn sz op (res, fd) = Inr (res', f)", OF run W nv N]
      show ?thesis by blast
    next
      case nmq: False
      show ?thesis
      proof (cases "code (obank fd0 op) = Some CPUI_INDIRECT")
        case True
        then have cd: "code (obank fd op) = Some CPUI_INDIRECT" using ok(1) by simp
        have mk: "isMarker (obank fd0 op)" using True by (simp add: isMarker_def)
        from descend2Undef_step_indirect [OF par nd cd sl h(3) o v wb, of sz res]
        obtain res' fd' where run: "descend2Undef_step vn sz op (res, fd) = Inr (res', fd')"
          and W: "rewritesRead vn op ?i (Suc (create_index fd)) fd fd'"
          and n: "op_count fd' = Suc (op_count fd)" "create_index fd' = Suc (Suc (create_index fd))"
          and m: "markerReadsCopy fd' op ?i (op_count fd) (Suc (create_index fd)) (create_index fd) 0xBADDEF sz"
          and pc: "op_parent (obank fd' (op_count fd)) = Some p"
          and lst: "(let ops = bl_op (bblocks fd p);
                         j = backOverIndirect fd ops (getBasicIter ops op)
                     in bl_op (bblocks fd' p) = take j ops @ [op_count fd] @ drop j ops
                        \<and> j \<le> getBasicIter ops op
                        \<and> (\<forall>k. j \<le> k \<and> k < getBasicIter ops op \<longrightarrow>
                               code (obank fd (ops ! k)) = Some CPUI_INDIRECT))"
          by blast
        have cp: "copyPlaced fd0 fd' op ?i (op_count fd)"
          using K h(1) par0 True pc lst by (rule copyPlaced_indirect)
        have N: "if isMarker (obank fd0 op)
            then (\<exists>c k. c \<in> UNIV \<and> op_count fd0 \<le> c \<and> c < op_count fd'
                    \<and> create_index fd0 \<le> Suc (create_index fd) \<and> Suc (create_index fd) < create_index fd'
                    \<and> create_index fd0 \<le> k \<and> k < create_index fd'
                    \<and> markerReadsCopy fd' op ?i c (Suc (create_index fd)) k 0xBADDEF sz
                    \<and> (True \<longrightarrow> copyPlaced fd0 fd' op ?i c))
            else (create_index fd0 \<le> Suc (create_index fd) \<and> Suc (create_index fd) < create_index fd'
                    \<and> isConstant (vbank fd' (Suc (create_index fd)))
                    \<and> vn_loc (vbank fd' (Suc (create_index fd))) = Address constant_space 0xBADDEF
                    \<and> vn_size (vbank fd' (Suc (create_index fd))) = sz)"
        proof -
          have "op_count fd \<in> (UNIV :: nat set) \<and> op_count fd0 \<le> op_count fd \<and> op_count fd < op_count fd'
                    \<and> create_index fd0 \<le> Suc (create_index fd) \<and> Suc (create_index fd) < create_index fd'
                    \<and> create_index fd0 \<le> create_index fd \<and> create_index fd < create_index fd'
                    \<and> markerReadsCopy fd' op ?i (op_count fd) (Suc (create_index fd)) (create_index fd) 0xBADDEF sz
                    \<and> (True \<longrightarrow> copyPlaced fd0 fd' op ?i (op_count fd))"
            using m cp n c0 by simp
          then have "\<exists>c k. c \<in> (UNIV :: nat set) \<and> op_count fd0 \<le> c \<and> c < op_count fd'
                    \<and> create_index fd0 \<le> Suc (create_index fd) \<and> Suc (create_index fd) < create_index fd'
                    \<and> create_index fd0 \<le> k \<and> k < create_index fd'
                    \<and> markerReadsCopy fd' op ?i c (Suc (create_index fd)) k 0xBADDEF sz
                    \<and> (True \<longrightarrow> copyPlaced fd0 fd' op ?i c)"
            by blast
          then show ?thesis using mk by simp
        qed
        have nv: "Suc (create_index fd) \<noteq> vn" using v by simp
        from fin [of "\<lambda>f. descend2Undef_step vn sz op (res, fd) = Inr (res', f)", OF run W nv N]
        show ?thesis by blast
      next
        case False
        then have nm0: "\<not> isMarker (obank fd0 op)" using nmq by (simp add: isMarker_def)
        then have nm: "\<not> isMarker (obank fd op)" using ok(5) by simp
        from descend2Undef_step_other [OF par nd nm sl h(3) o v wb, of sz res]
        obtain res' fd' where run: "descend2Undef_step vn sz op (res, fd) = Inr (res', fd')"
          and W: "rewritesRead vn op ?i (create_index fd) fd fd'"
          and n: "op_count fd' = op_count fd" "create_index fd' = Suc (create_index fd)"
          and kc: "isConstant (vbank fd' (create_index fd))"
            "vn_loc (vbank fd' (create_index fd)) = Address constant_space 0xBADDEF"
            "vn_size (vbank fd' (create_index fd)) = sz"
          by blast
        have N: "if isMarker (obank fd0 op)
            then (\<exists>c k. c \<in> UNIV \<and> op_count fd0 \<le> c \<and> c < op_count fd'
                    \<and> create_index fd0 \<le> create_index fd \<and> create_index fd < create_index fd'
                    \<and> create_index fd0 \<le> k \<and> k < create_index fd'
                    \<and> markerReadsCopy fd' op ?i c (create_index fd) k 0xBADDEF sz
                    \<and> (True \<longrightarrow> copyPlaced fd0 fd' op ?i c))
            else (create_index fd0 \<le> create_index fd \<and> create_index fd < create_index fd'
                    \<and> isConstant (vbank fd' (create_index fd))
                    \<and> vn_loc (vbank fd' (create_index fd)) = Address constant_space 0xBADDEF
                    \<and> vn_size (vbank fd' (create_index fd)) = sz)"
          using nm0 kc n c0 by simp
        have nv: "create_index fd \<noteq> vn" using v by simp
        from fin [of "\<lambda>f. descend2Undef_step vn sz op (res, fd) = Inr (res', f)", OF run W nv N]
        show ?thesis by blast
      qed
    qed
  qed
qed

lemma descend2Undef_loop_inv:
  assumes V: "vn < create_index fd0"
    and Rd: "\<forall>op \<in> set rest. \<exists>p. op_parent (obank fd0 op) = Some p
               \<and> (code (obank fd0 op) = Some CPUI_MULTIEQUAL \<longrightarrow> \<not> bl_dead (bblocks fd0 p)
                    \<longrightarrow> numInput (obank fd0 op) \<le> length (bl_intothis (bblocks fd0 p)))"
    and K: "opsKept fd0 fd" and R: "readsVia vn 0xBADDEF sz UNIV True fd0 fd"
    and P: "pendingReads vn (inLiveBlock fd0) rest (op_count fd0) fd"
  shows "\<exists>res' fd'. descend2Undef_loop vn sz rest (res, fd) = Inr (res', fd')
     \<and> opsKept fd0 fd' \<and> readsVia vn 0xBADDEF sz UNIV True fd0 fd'
     \<and> pendingReads vn (inLiveBlock fd0) [] (op_count fd0) fd'"
  using Rd K R P
proof (induction rest arbitrary: res fd)
  case Nil
  then show ?case by simp
next
  case (Cons op rest)
  have rd: "\<exists>p. op_parent (obank fd0 op) = Some p
               \<and> (code (obank fd0 op) = Some CPUI_MULTIEQUAL \<longrightarrow> \<not> bl_dead (bblocks fd0 p)
                    \<longrightarrow> numInput (obank fd0 op) \<le> length (bl_intothis (bblocks fd0 p)))"
    using Cons.prems(1) by simp
  from descend2Undef_step_inv [OF V rd Cons.prems(2,3,4), of res]
  obtain res1 fd1 where run: "descend2Undef_step vn sz op (res, fd) = Inr (res1, fd1)"
    and K1: "opsKept fd0 fd1" and R1: "readsVia vn 0xBADDEF sz UNIV True fd0 fd1"
    and P1: "pendingReads vn (inLiveBlock fd0) rest (op_count fd0) fd1"
    by blast
  have rd': "\<forall>op \<in> set rest. \<exists>p. op_parent (obank fd0 op) = Some p
               \<and> (code (obank fd0 op) = Some CPUI_MULTIEQUAL \<longrightarrow> \<not> bl_dead (bblocks fd0 p)
                    \<longrightarrow> numInput (obank fd0 op) \<le> length (bl_intothis (bblocks fd0 p)))"
    using Cons.prems(1) by simp
  from Cons.IH [OF rd' K1 R1 P1, of res1]
  show ?case using run by simp
qed

lemma readsVia_refl: "readsVia vn val sz S pl fd fd"
  by (simp add: readsVia_def)

lemma pendingReads_start:
  assumes "readersLinked vn fd"
  shows "pendingReads vn live (vn_descend (vbank fd vn)) (op_count fd) fd"
  using assms by (simp add: pendingReads_def readersLinked_def)

lemma undefReady_reader:
  assumes "undefReady vn fd"
  shows "\<forall>op \<in> set (vn_descend (vbank fd vn)). \<exists>p. op_parent (obank fd op) = Some p
               \<and> (code (obank fd op) = Some CPUI_MULTIEQUAL \<longrightarrow> \<not> bl_dead (bblocks fd p)
                    \<longrightarrow> numInput (obank fd op) \<le> length (bl_intothis (bblocks fd p)))"
  using assms by (auto simp add: undefReady_def split: option.splits)

lemma descend2Undef_inv:
  assumes L: "readersLinked vn fd" and U: "undefReady vn fd"
  shows "\<exists>res fd'. descend2Undef vn fd = Inr (res, fd')
     \<and> opsKept fd fd' \<and> readsVia vn 0xBADDEF (vn_size (vbank fd vn)) UNIV True fd fd'
     \<and> pendingReads vn (inLiveBlock fd) [] (op_count fd) fd'"
proof -
  have V: "vn < create_index fd" using L by (simp add: readersLinked_def)
  have K: "opsKept fd fd" using L by (intro opsKept_refl) (simp add: readersLinked_def)
  show ?thesis
    unfolding descend2Undef_def
    using descend2Undef_loop_inv [OF V undefReady_reader [OF U] K readsVia_refl
        pendingReads_start [OF L]]
    by blast
qed

lemma opsKept_same_blocks:
  assumes "opsKept fd fd'" and "op_count fd' = op_count fd"
  shows "bl_op (bblocks fd' b) = bl_op (bblocks fd b)"
proof -
  have "filter (\<lambda>y. y < op_count fd) (bl_op (bblocks fd' b)) = bl_op (bblocks fd b)"
    using opsKept_block(3) [OF assms(1)] .
  moreover have "\<forall>y \<in> set (bl_op (bblocks fd' b)). y < op_count fd"
    using opsKept_block(4) [OF assms(1), of b] assms(2) by simp
  ultimately show ?thesis by (simp add: filter_old_id)
qed

lemma markerReadsCopy_moved:
  assumes M: "markerReadsCopy fd x i' c u k val sz"
    and W: "rewritesRead vn op i new fd fd'"
    and c: "c < op_count fd" "c \<noteq> op" and u: "u < create_index fd" and k: "k < create_index fd"
    and G: "getIn (obank fd' y) j = Some u"
  shows "markerReadsCopy fd' y j c u k val sz"
proof -
  note K = rewritesRead_opsKept [OF W]
  have ci: "op_inrefs (obank fd' c) = op_inrefs (obank fd c)"
    using W c by (simp add: rewritesRead_def)
  show ?thesis
    using M G ci opsKept_op(1,2) [OF K c(1)] opsKept_vn [OF K u] opsKept_vn [OF K k]
    by (simp add: markerReadsCopy_def)
qed

lemma copyAfterDef_kept:
  assumes C: "copyAfterDef fd0 fd vn c" and K: "opsKept fd fd'"
    and e: "op_count fd' = op_count fd" and c: "c < op_count fd"
  shows "copyAfterDef fd0 fd' vn c"
proof -
  have b: "\<And>b. bl_op (bblocks fd' b) = bl_op (bblocks fd b)"
    using opsKept_same_blocks [OF K e] .
  have p: "op_parent (obank fd' c) = op_parent (obank fd c)" using opsKept_op(3) [OF K c] .
  show ?thesis using C unfolding copyAfterDef_def b p .
qed

lemma singleCopy_kept:
  assumes C: "singleCopy vn val fd0 fd cp" and K0: "opsKept fd0 fd"
    and W: "rewritesRead vn op i new fd fd'" and e: "op_count fd' = op_count fd"
    and g: "getIn (obank fd op) i = Some vn"
    and V: "vn < create_index fd0" and o: "op < op_count fd0"
  shows "singleCopy vn val fd0 fd' cp"
proof (cases cp)
  case None
  then show ?thesis using C e by (simp add: singleCopy_def)
next
  case (Some c)
  note K = rewritesRead_opsKept [OF W]
  note c1 = opsKept_counts [OF K] and c0 = opsKept_counts [OF K0]
  from C Some obtain x i1 u k where c: "c = op_count fd0" "op_count fd = Suc (op_count fd0)"
    and pl: "copyAfterDef fd0 fd vn c"
    and x: "x < op_count fd0"
    and ub: "create_index fd0 \<le> u" "u < create_index fd"
    and kb: "create_index fd0 \<le> k" "k < create_index fd"
    and M: "markerReadsCopy fd x i1 c u k val (vn_size (vbank fd0 vn))"
    unfolding singleCopy_def by auto
  have cl: "c < op_count fd" using c by simp
  have cne: "c \<noteq> op" using c o by simp
  have gx: "getIn (obank fd x) i1 = Some u" using M by (simp add: markerReadsCopy_def)
  have "u \<noteq> vn" using ub V by simp
  then have "\<not> (x = op \<and> i1 = i)" using gx g by auto
  moreover have "x < op_count fd" using x c0 by simp
  ultimately have gs: "getIn (obank fd' x) i1 = getIn (obank fd x) i1"
    using getIn_rewritten [OF W, of x i1] by auto
  have M': "markerReadsCopy fd' x i1 c u k val (vn_size (vbank fd0 vn))"
    using M W cl cne ub(2) kb(2) gs by (rule markerReadsCopy_kept)
  have pl': "copyAfterDef fd0 fd' vn c" using pl K e cl by (rule copyAfterDef_kept)
  have "u < create_index fd'" "k < create_index fd'" using ub kb c1 by simp_all
  then have "\<exists>x i u k. x < op_count fd0
                \<and> create_index fd0 \<le> u \<and> u < create_index fd'
                \<and> create_index fd0 \<le> k \<and> k < create_index fd'
                \<and> markerReadsCopy fd' x i c u k val (vn_size (vbank fd0 vn))"
    using x ub kb M' by blast
  then show ?thesis using Some c e pl' by (simp add: singleCopy_def)
qed

lemma block_codes_kept:
  assumes K: "opsKept fd0 fd" and e: "op_count fd = op_count fd0"
    and y: "y \<in> set (bl_op (bblocks fd b))"
  shows "code (obank fd y) = code (obank fd0 y)"
proof -
  have "y < op_count fd0" using opsKept_block(4) [OF K, of b] y e by simp
  then show ?thesis using opsKept_op(1) [OF K] by simp
qed

lemma copyAfterDef_written:
  assumes K: "opsKept fd0 fd" and e: "op_count fd = op_count fd0"
    and df0: "vn_def (vbank fd0 vn) = Some d"
    and tg0: "insertAfterTarget fd0 d = Some prev"
    and pd0: "op_parent (obank fd0 prev) = Some pd"
    and pc: "op_parent (obank fd' c) = Some pd"
    and lst: "\<forall>b. bl_op (bblocks fd' b) =
            (if b = pd
             then (let ops = bl_op (bblocks fd pd);
                       n = Suc (getBasicIter ops prev);
                       j = skipMultiequal fd (drop n ops) n
                   in take j ops @ [c] @ drop j ops)
             else bl_op (bblocks fd b))"
  shows "copyAfterDef fd0 fd' vn c"
proof -
  have b: "\<And>b. bl_op (bblocks fd b) = bl_op (bblocks fd0 b)"
    using opsKept_same_blocks [OF K e] .
  let ?l = "bl_op (bblocks fd0 pd)"
  let ?n = "Suc (getBasicIter ?l prev)"
  have sk: "skipMultiequal fd (drop ?n ?l) ?n = skipMultiequal fd0 (drop ?n ?l) ?n"
  proof (rule skipMultiequal_cong)
    fix x assume "x \<in> set (drop ?n ?l)"
    then have "x \<in> set (bl_op (bblocks fd pd))" using b [of pd] by (simp add: in_set_dropD)
    then show "code (obank fd x) = code (obank fd0 x)" using block_codes_kept [OF K e] by blast
  qed
  have "\<forall>b. bl_op (bblocks fd' b) =
            (if b = pd
             then (let ops = bl_op (bblocks fd0 pd);
                       n = Suc (getBasicIter ops prev);
                       j = skipMultiequal fd0 (drop n ops) n
                   in take j ops @ [c] @ drop j ops)
             else bl_op (bblocks fd0 b))"
    using lst sk by (simp add: b Let_def)
  then show ?thesis unfolding copyAfterDef_def using df0 tg0 pd0 pc by simp
qed

lemma copyAfterDef_unwritten:
  assumes K: "opsKept fd0 fd" and e: "op_count fd = op_count fd0"
    and df0: "vn_def (vbank fd0 vn) = None"
    and pc: "op_parent (obank fd' c) = Some 0"
    and lst: "\<forall>b. bl_op (bblocks fd' b) =
            (if b = 0
             then takeWhile (\<lambda>x. code (obank fd x) = Some CPUI_MULTIEQUAL) (bl_op (bblocks fd 0))
                  @ [c]
                  @ dropWhile (\<lambda>x. code (obank fd x) = Some CPUI_MULTIEQUAL) (bl_op (bblocks fd 0))
             else bl_op (bblocks fd b))"
  shows "copyAfterDef fd0 fd' vn c"
proof -
  have b: "\<And>b. bl_op (bblocks fd b) = bl_op (bblocks fd0 b)"
    using opsKept_same_blocks [OF K e] .
  let ?l = "bl_op (bblocks fd0 0)"
  have cd: "\<And>x. x \<in> set ?l \<Longrightarrow> code (obank fd x) = code (obank fd0 x)"
    using block_codes_kept [OF K e, of _ 0] b [of 0] by simp
  have tw: "takeWhile (\<lambda>x. code (obank fd x) = Some CPUI_MULTIEQUAL) ?l
          = takeWhile (\<lambda>x. code (obank fd0 x) = Some CPUI_MULTIEQUAL) ?l"
    using cd by (intro takeWhile_cong) auto
  have dw: "dropWhile (\<lambda>x. code (obank fd x) = Some CPUI_MULTIEQUAL) ?l
          = dropWhile (\<lambda>x. code (obank fd0 x) = Some CPUI_MULTIEQUAL) ?l"
    using cd by (intro dropWhile_cong) auto
  have "\<forall>b. bl_op (bblocks fd' b) =
            (if b = 0
             then takeWhile (\<lambda>x. code (obank fd0 x) = Some CPUI_MULTIEQUAL) ?l
                  @ [c]
                  @ dropWhile (\<lambda>x. code (obank fd0 x) = Some CPUI_MULTIEQUAL) ?l
             else bl_op (bblocks fd0 b))"
    using lst tw dw by (simp add: b)
  then show ?thesis unfolding copyAfterDef_def using df0 pc by simp
qed

lemma totalReplaceConstant_step_inv:
  assumes V: "vn < create_index fd0"
    and Rd: "isMarker (obank fd0 op) \<longrightarrow> copyReady vn fd0"
    and K: "opsKept fd0 fd"
    and R: "readsVia vn val (vn_size (vbank fd0 vn)) {op_count fd0} False fd0 fd"
    and P: "pendingReads vn (\<lambda>x. True) (op # rest) (op_count fd0) fd"
    and C: "singleCopy vn val fd0 fd cp"
  shows "\<exists>cp' fd'. totalReplaceConstant_step vn val op (cp, fd) = Inr (cp', fd')
     \<and> opsKept fd0 fd'
     \<and> readsVia vn val (vn_size (vbank fd0 vn)) {op_count fd0} False fd0 fd'
     \<and> pendingReads vn (\<lambda>x. True) rest (op_count fd0) fd'
     \<and> singleCopy vn val fd0 fd' cp'
     \<and> (cp' = None \<longleftrightarrow> cp = None \<and> \<not> isMarker (obank fd0 op))"
proof -
  let ?sz = "vn_size (vbank fd0 vn)"
  let ?c = "op_count fd0"
  note h = pendingReads_head [OF P]
  note c0 = opsKept_counts [OF K]
  note ok = opsKept_op [OF K h(1)]
  have o: "op < op_count fd" using h(1) c0 by simp
  have v: "vn < create_index fd" using V c0 by simp
  have szf: "vn_size (vbank fd vn) = ?sz" using opsKept_vn(3) [OF K V] .
  let ?i = "getSlot (obank fd op) vn"
  have sl: "?i < numInput (obank fd op)" using h(2) by (rule getSlot_lt)
  have gi: "getIn (obank fd op) ?i = Some vn" using sl by (rule getSlot_getIn)
  have wb: "\<forall>b. \<forall>y \<in> set (bl_op (bblocks fd b)). y < op_count fd"
    using opsKept_block(4) [OF K] by simp
  have fin: "opsKept fd0 fd' \<and> readsVia vn val ?sz {?c} False fd0 fd'
                  \<and> pendingReads vn (\<lambda>x. True) rest ?c fd'"
      if W: "rewritesRead vn op ?i new fd fd'" and nv: "new \<noteq> vn"
        and N: "if isMarker (obank fd0 op)
            then (\<exists>c k. c \<in> {?c} \<and> op_count fd0 \<le> c \<and> c < op_count fd'
                    \<and> create_index fd0 \<le> new \<and> new < create_index fd'
                    \<and> create_index fd0 \<le> k \<and> k < create_index fd'
                    \<and> markerReadsCopy fd' op ?i c new k val ?sz
                    \<and> (False \<longrightarrow> copyPlaced fd0 fd' op ?i c))
            else (create_index fd0 \<le> new \<and> new < create_index fd'
                    \<and> isConstant (vbank fd' new)
                    \<and> vn_loc (vbank fd' new) = Address constant_space val
                    \<and> vn_size (vbank fd' new) = ?sz)"
      for fd' new
  proof -
    have K1: "opsKept fd0 fd'" using K rewritesRead_opsKept [OF W] by (rule opsKept_trans)
    have R1: "readsVia vn val ?sz {?c} False fd0 fd'"
      using R K W V h(1) gi N by (rule readsVia_step)
    have P1: "pendingReads vn (\<lambda>x. True) rest ?c fd'"
      using P W gi nv c0(1) by (rule pendingReads_step)
    show ?thesis using K1 R1 P1 by blast
  qed
  show ?thesis
  proof (cases "isMarker (obank fd0 op)")
    case False
    then have nm: "\<not> isMarker (obank fd op)" using ok(5) by simp
    from totalReplaceConstant_step_const [OF nm sl h(3) o v wb, of val cp]
    obtain fd' where run: "totalReplaceConstant_step vn val op (cp, fd) = Inr (cp, fd')"
      and W: "rewritesRead vn op ?i (create_index fd) fd fd'"
      and n: "op_count fd' = op_count fd" "create_index fd' = Suc (create_index fd)"
      and kc: "isConstant (vbank fd' (create_index fd))"
        "vn_loc (vbank fd' (create_index fd)) = Address constant_space val"
        "vn_size (vbank fd' (create_index fd)) = vn_size (vbank fd vn)"
      by blast
    have N: "if isMarker (obank fd0 op)
            then (\<exists>c k. c \<in> {?c} \<and> op_count fd0 \<le> c \<and> c < op_count fd'
                    \<and> create_index fd0 \<le> create_index fd \<and> create_index fd < create_index fd'
                    \<and> create_index fd0 \<le> k \<and> k < create_index fd'
                    \<and> markerReadsCopy fd' op ?i c (create_index fd) k val ?sz
                    \<and> (False \<longrightarrow> copyPlaced fd0 fd' op ?i c))
            else (create_index fd0 \<le> create_index fd \<and> create_index fd < create_index fd'
                    \<and> isConstant (vbank fd' (create_index fd))
                    \<and> vn_loc (vbank fd' (create_index fd)) = Address constant_space val
                    \<and> vn_size (vbank fd' (create_index fd)) = ?sz)"
      using False kc n c0 szf by simp
    have nv: "create_index fd \<noteq> vn" using v by simp
    have C1: "singleCopy vn val fd0 fd' cp" using C K W n(1) gi V h(1) by (rule singleCopy_kept)
    show ?thesis using run fin [OF W nv N] C1 False by simp
  next
    case mk0: True
    then have mk: "isMarker (obank fd op)" using ok(5) by simp
    show ?thesis
    proof (cases cp)
      case (Some c)
      from C Some obtain x i1 u k where c: "c = ?c" "op_count fd = Suc ?c"
        and x: "x < op_count fd0"
        and ub: "create_index fd0 \<le> u" "u < create_index fd"
        and kb: "create_index fd0 \<le> k" "k < create_index fd"
        and M: "markerReadsCopy fd x i1 c u k val ?sz"
        unfolding singleCopy_def by auto
      have out: "op_output (obank fd c) = Some u" and nc: "\<not> isConstant (vbank fd u)"
        using M by (simp_all add: markerReadsCopy_def)
      have nu: "u \<noteq> vn" using ub V by simp
      from totalReplaceConstant_step_next [OF mk sl h(3) o v wb out nu nc, of val]
      obtain fd' where run: "totalReplaceConstant_step vn val op (Some c, fd) = Inr (Some c, fd')"
        and W: "rewritesRead vn op ?i u fd fd'"
        and n: "op_count fd' = op_count fd" "create_index fd' = create_index fd"
        by blast
      have cl: "c < op_count fd" using c by simp
      have cne: "c \<noteq> op" using c h(1) by simp
      have g1: "getIn (obank fd' op) ?i = Some u" using getIn_rewritten [OF W o, of ?i] sl by simp
      have M': "markerReadsCopy fd' op ?i c u k val ?sz"
        using M W cl cne ub(2) kb(2) g1 by (rule markerReadsCopy_moved)
      have "?c \<in> {?c} \<and> op_count fd0 \<le> ?c \<and> ?c < op_count fd'
                    \<and> create_index fd0 \<le> u \<and> u < create_index fd'
                    \<and> create_index fd0 \<le> k \<and> k < create_index fd'
                    \<and> markerReadsCopy fd' op ?i ?c u k val ?sz
                    \<and> (False \<longrightarrow> copyPlaced fd0 fd' op ?i ?c)"
        using M' c n ub kb by simp
      then have "\<exists>c k. c \<in> {?c} \<and> op_count fd0 \<le> c \<and> c < op_count fd'
                    \<and> create_index fd0 \<le> u \<and> u < create_index fd'
                    \<and> create_index fd0 \<le> k \<and> k < create_index fd'
                    \<and> markerReadsCopy fd' op ?i c u k val ?sz
                    \<and> (False \<longrightarrow> copyPlaced fd0 fd' op ?i c)"
        by blast
      then have N: "if isMarker (obank fd0 op)
            then (\<exists>c k. c \<in> {?c} \<and> op_count fd0 \<le> c \<and> c < op_count fd'
                    \<and> create_index fd0 \<le> u \<and> u < create_index fd'
                    \<and> create_index fd0 \<le> k \<and> k < create_index fd'
                    \<and> markerReadsCopy fd' op ?i c u k val ?sz
                    \<and> (False \<longrightarrow> copyPlaced fd0 fd' op ?i c))
            else (create_index fd0 \<le> u \<and> u < create_index fd'
                    \<and> isConstant (vbank fd' u)
                    \<and> vn_loc (vbank fd' u) = Address constant_space val
                    \<and> vn_size (vbank fd' u) = ?sz)"
        using mk0 by simp
      have C1: "singleCopy vn val fd0 fd' cp" using C K W n(1) gi V h(1) by (rule singleCopy_kept)
      show ?thesis using run fin [OF W nu N] C1 Some by simp
    next
      case None
      then have e: "op_count fd = ?c" using C by (simp add: singleCopy_def)
      have rdy: "copyReady vn fd0" using Rd mk0 by simp
      have first: ?thesis
        if run: "totalReplaceConstant_step vn val op (None, fd) = Inr (Some (op_count fd), fd')"
          and W: "rewritesRead vn op ?i (create_index fd) fd fd'"
          and n: "op_count fd' = Suc (op_count fd)" "create_index fd' = Suc (Suc (create_index fd))"
          and m: "markerReadsCopy fd' op ?i (op_count fd) (create_index fd) (Suc (create_index fd))
                    val (vn_size (vbank fd vn))"
          and pl: "copyAfterDef fd0 fd' vn (op_count fd)"
        for fd'
      proof -
        have "?c \<in> {?c} \<and> op_count fd0 \<le> ?c \<and> ?c < op_count fd'
                    \<and> create_index fd0 \<le> create_index fd \<and> create_index fd < create_index fd'
                    \<and> create_index fd0 \<le> Suc (create_index fd) \<and> Suc (create_index fd) < create_index fd'
                    \<and> markerReadsCopy fd' op ?i ?c (create_index fd) (Suc (create_index fd)) val ?sz
                    \<and> (False \<longrightarrow> copyPlaced fd0 fd' op ?i ?c)"
          using m n e c0 szf by simp
        then have "\<exists>c k. c \<in> {?c} \<and> op_count fd0 \<le> c \<and> c < op_count fd'
                    \<and> create_index fd0 \<le> create_index fd \<and> create_index fd < create_index fd'
                    \<and> create_index fd0 \<le> k \<and> k < create_index fd'
                    \<and> markerReadsCopy fd' op ?i c (create_index fd) k val ?sz
                    \<and> (False \<longrightarrow> copyPlaced fd0 fd' op ?i c)"
          by blast
        then have N: "if isMarker (obank fd0 op)
            then (\<exists>c k. c \<in> {?c} \<and> op_count fd0 \<le> c \<and> c < op_count fd'
                    \<and> create_index fd0 \<le> create_index fd \<and> create_index fd < create_index fd'
                    \<and> create_index fd0 \<le> k \<and> k < create_index fd'
                    \<and> markerReadsCopy fd' op ?i c (create_index fd) k val ?sz
                    \<and> (False \<longrightarrow> copyPlaced fd0 fd' op ?i c))
            else (create_index fd0 \<le> create_index fd \<and> create_index fd < create_index fd'
                    \<and> isConstant (vbank fd' (create_index fd))
                    \<and> vn_loc (vbank fd' (create_index fd)) = Address constant_space val
                    \<and> vn_size (vbank fd' (create_index fd)) = ?sz)"
          using mk0 by simp
        have nv: "create_index fd \<noteq> vn" using v by simp
        have "op < op_count fd0
                \<and> create_index fd0 \<le> create_index fd \<and> create_index fd < create_index fd'
                \<and> create_index fd0 \<le> Suc (create_index fd) \<and> Suc (create_index fd) < create_index fd'
                \<and> markerReadsCopy fd' op ?i ?c (create_index fd) (Suc (create_index fd)) val ?sz"
          using m n e c0 szf h(1) by simp
        then have "\<exists>x i u k. x < op_count fd0
                \<and> create_index fd0 \<le> u \<and> u < create_index fd'
                \<and> create_index fd0 \<le> k \<and> k < create_index fd'
                \<and> markerReadsCopy fd' x i ?c u k val ?sz"
          by blast
        then have C1: "singleCopy vn val fd0 fd' (Some ?c)"
          using pl n e by (simp add: singleCopy_def)
        show ?thesis using run fin [OF W nv N] C1 None e mk0 by simp
      qed
      show ?thesis
      proof (cases "vn_def (vbank fd0 vn)")
        case dn: None
        then have df: "vn_def (vbank fd vn) = None" using opsKept_vn(4) [OF K V] by simp
        from totalReplaceConstant_step_first_unwritten [OF mk sl h(3) o v wb df, of val]
        obtain fd' where run: "totalReplaceConstant_step vn val op (None, fd) = Inr (Some (op_count fd), fd')"
          and W: "rewritesRead vn op ?i (create_index fd) fd fd'"
          and n: "op_count fd' = Suc (op_count fd)" "create_index fd' = Suc (Suc (create_index fd))"
          and m: "markerReadsCopy fd' op ?i (op_count fd) (create_index fd) (Suc (create_index fd))
                    val (vn_size (vbank fd vn))"
          and pc: "op_parent (obank fd' (op_count fd)) = Some 0"
          and lst: "\<forall>b. bl_op (bblocks fd' b) =
            (if b = 0
             then takeWhile (\<lambda>x. code (obank fd x) = Some CPUI_MULTIEQUAL) (bl_op (bblocks fd 0))
                  @ [op_count fd]
                  @ dropWhile (\<lambda>x. code (obank fd x) = Some CPUI_MULTIEQUAL) (bl_op (bblocks fd 0))
             else bl_op (bblocks fd b))"
          by blast
        have pl: "copyAfterDef fd0 fd' vn (op_count fd)"
          using K e dn pc lst by (rule copyAfterDef_unwritten)
        show ?thesis using run W n m pl by (rule first)
      next
        case (Some d)
        then have df: "vn_def (vbank fd vn) = Some d" using opsKept_vn(4) [OF K V] by simp
        from rdy Some obtain prev pd where dd0: "d < op_count fd0"
          and iv0: "code (obank fd0 d) = Some CPUI_INDIRECT \<longrightarrow>
               (\<forall>invn. getIn (obank fd0 d) 1 = Some invn \<longrightarrow> invn < create_index fd0)"
          and tg0: "insertAfterTarget fd0 d = Some prev"
          and pv0: "prev < op_count fd0" and pd0: "op_parent (obank fd0 prev) = Some pd"
          by (auto simp add: copyReady_def split: option.splits)
        have dd: "d < op_count fd" using dd0 c0 by simp
        have pv: "prev < op_count fd" using pv0 c0 by simp
        have pd: "op_parent (obank fd prev) = Some pd" using pd0 opsKept_op(3) [OF K pv0] by simp
        have cdd: "code (obank fd d) = code (obank fd0 d)" using opsKept_op(1) [OF K dd0] .
        have g1: "code (obank fd0 d) = Some CPUI_INDIRECT \<longrightarrow>
                    getIn (obank fd d) 1 = getIn (obank fd0 d) 1"
        proof
          assume ind: "code (obank fd0 d) = Some CPUI_INDIRECT"
          then have md: "isMarker (obank fd0 d)" by (simp add: isMarker_def)
          have "getIn (obank fd d) 1 = getIn (obank fd0 d) 1
             \<or> (getIn (obank fd0 d) 1 = Some vn
                 \<and> (\<exists>c u k. c \<in> {?c} \<and> op_count fd0 \<le> c \<and> c < op_count fd
                      \<and> create_index fd0 \<le> u \<and> u < create_index fd
                      \<and> create_index fd0 \<le> k \<and> k < create_index fd
                      \<and> markerReadsCopy fd d 1 c u k val ?sz
                      \<and> (False \<longrightarrow> copyPlaced fd0 fd d 1 c)))"
            using R dd0 md unfolding readsVia_def by (metis (no_types, lifting))
          then show "getIn (obank fd d) 1 = getIn (obank fd0 d) 1" using e by auto
        qed
        have tcong: "code (obank fd0 d) = Some CPUI_INDIRECT \<longrightarrow>
           getIn (obank fd d) 1 = getIn (obank fd0 d) 1
           \<and> (\<forall>invn. getIn (obank fd0 d) 1 = Some invn
                  \<longrightarrow> vn_loc (vbank fd invn) = vn_loc (vbank fd0 invn))"
          using g1 iv0 opsKept_vn(2) [OF K] by simp
        have tg: "insertAfterTarget fd d = Some prev"
          using insertAfterTarget_cong [OF cdd tcong] tg0 by simp
        have iv: "code (obank fd d) = Some CPUI_INDIRECT \<longrightarrow>
                 (\<forall>invn. getIn (obank fd d) 1 = Some invn \<longrightarrow> invn < create_index fd)"
        proof (intro impI allI)
          fix invn
          assume a: "code (obank fd d) = Some CPUI_INDIRECT" and b: "getIn (obank fd d) 1 = Some invn"
          have i0: "code (obank fd0 d) = Some CPUI_INDIRECT" using a cdd by simp
          then have "getIn (obank fd0 d) 1 = Some invn" using g1 b by simp
          then have "invn < create_index fd0" using iv0 i0 by blast
          then show "invn < create_index fd" using c0(2) by simp
        qed
        from totalReplaceConstant_step_first_written [OF mk sl h(3) o v wb df dd iv tg pv pd, of val]
        obtain fd' where run: "totalReplaceConstant_step vn val op (None, fd) = Inr (Some (op_count fd), fd')"
          and W: "rewritesRead vn op ?i (create_index fd) fd fd'"
          and n: "op_count fd' = Suc (op_count fd)" "create_index fd' = Suc (Suc (create_index fd))"
          and m: "markerReadsCopy fd' op ?i (op_count fd) (create_index fd) (Suc (create_index fd))
                    val (vn_size (vbank fd vn))"
          and pc: "op_parent (obank fd' (op_count fd)) = Some pd"
          and lst: "\<forall>b. bl_op (bblocks fd' b) =
            (if b = pd
             then (let ops = bl_op (bblocks fd pd);
                       n = Suc (getBasicIter ops prev);
                       j = skipMultiequal fd (drop n ops) n
                   in take j ops @ [op_count fd] @ drop j ops)
             else bl_op (bblocks fd b))"
          by blast
        have pl: "copyAfterDef fd0 fd' vn (op_count fd)"
          using K e Some tg0 pd0 pc lst by (rule copyAfterDef_written)
        show ?thesis using run W n m pl by (rule first)
      qed
    qed
  qed
qed

lemma totalReplaceConstant_loop_inv:
  assumes V: "vn < create_index fd0"
    and Rd: "(\<exists>op \<in> set rest. isMarker (obank fd0 op)) \<longrightarrow> copyReady vn fd0"
    and K: "opsKept fd0 fd"
    and R: "readsVia vn val (vn_size (vbank fd0 vn)) {op_count fd0} False fd0 fd"
    and P: "pendingReads vn (\<lambda>x. True) rest (op_count fd0) fd"
    and C: "singleCopy vn val fd0 fd cp"
  shows "\<exists>cp' fd'. totalReplaceConstant_loop vn val rest (cp, fd) = Inr (cp', fd')
     \<and> opsKept fd0 fd'
     \<and> readsVia vn val (vn_size (vbank fd0 vn)) {op_count fd0} False fd0 fd'
     \<and> pendingReads vn (\<lambda>x. True) [] (op_count fd0) fd'
     \<and> singleCopy vn val fd0 fd' cp'
     \<and> (cp' = None \<longleftrightarrow> cp = None \<and> (\<forall>op \<in> set rest. \<not> isMarker (obank fd0 op)))"
  using Rd K R P C
proof (induction rest arbitrary: cp fd)
  case Nil
  then show ?case by simp
next
  case (Cons op rest)
  have rd: "isMarker (obank fd0 op) \<longrightarrow> copyReady vn fd0" using Cons.prems(1) by simp
  from totalReplaceConstant_step_inv [OF V rd Cons.prems(2,3,4,5)]
  obtain cp1 fd1 where run: "totalReplaceConstant_step vn val op (cp, fd) = Inr (cp1, fd1)"
    and K1: "opsKept fd0 fd1"
    and R1: "readsVia vn val (vn_size (vbank fd0 vn)) {op_count fd0} False fd0 fd1"
    and P1: "pendingReads vn (\<lambda>x. True) rest (op_count fd0) fd1"
    and C1: "singleCopy vn val fd0 fd1 cp1"
    and n1: "cp1 = None \<longleftrightarrow> cp = None \<and> \<not> isMarker (obank fd0 op)"
    by blast
  have rd': "(\<exists>op \<in> set rest. isMarker (obank fd0 op)) \<longrightarrow> copyReady vn fd0"
    using Cons.prems(1) by simp
  from Cons.IH [OF rd' K1 R1 P1 C1]
  obtain cp' fd' where run': "totalReplaceConstant_loop vn val rest (cp1, fd1) = Inr (cp', fd')"
    and r: "opsKept fd0 fd'"
      "readsVia vn val (vn_size (vbank fd0 vn)) {op_count fd0} False fd0 fd'"
      "pendingReads vn (\<lambda>x. True) [] (op_count fd0) fd'"
      "singleCopy vn val fd0 fd' cp'"
    and n': "cp' = None \<longleftrightarrow> cp1 = None \<and> (\<forall>op \<in> set rest. \<not> isMarker (obank fd0 op))"
    by blast
  have "totalReplaceConstant_loop vn val (op # rest) (cp, fd) = Inr (cp', fd')"
    using run run' by simp
  moreover have "cp' = None \<longleftrightarrow> cp = None \<and> (\<forall>x \<in> set (op # rest). \<not> isMarker (obank fd0 x))"
    using n1 n' by auto
  ultimately show ?case using r by blast
qed

lemma totalReplaceConstant_inv:
  assumes L: "readersLinked vn fd" and U: "replaceReady vn fd"
  shows "\<exists>cp fd'. totalReplaceConstant vn val fd = Inr fd'
     \<and> opsKept fd fd'
     \<and> readsVia vn val (vn_size (vbank fd vn)) {op_count fd} False fd fd'
     \<and> pendingReads vn (\<lambda>x. True) [] (op_count fd) fd'
     \<and> singleCopy vn val fd fd' cp
     \<and> (cp = None \<longleftrightarrow> (\<forall>op \<in> set (vn_descend (vbank fd vn)). \<not> isMarker (obank fd op)))"
proof -
  have V: "vn < create_index fd" using L by (simp add: readersLinked_def)
  have K: "opsKept fd fd" using L by (intro opsKept_refl) (simp add: readersLinked_def)
  have C: "singleCopy vn val fd fd None" by (simp add: singleCopy_def)
  have Rd: "(\<exists>op \<in> set (vn_descend (vbank fd vn)). isMarker (obank fd op)) \<longrightarrow> copyReady vn fd"
    using U by (simp add: replaceReady_def)
  from totalReplaceConstant_loop_inv [OF V Rd K readsVia_refl pendingReads_start [OF L] C]
  obtain cp fd' where run: "totalReplaceConstant_loop vn val (vn_descend (vbank fd vn)) (None, fd) = Inr (cp, fd')"
    and r: "opsKept fd fd'"
      "readsVia vn val (vn_size (vbank fd vn)) {op_count fd} False fd fd'"
      "pendingReads vn (\<lambda>x. True) [] (op_count fd) fd'"
      "singleCopy vn val fd fd' cp"
      "cp = None \<longleftrightarrow> (\<forall>op \<in> set (vn_descend (vbank fd vn)). \<not> isMarker (obank fd op))"
    by auto
  have "totalReplaceConstant vn val fd = Inr fd'" using run by (simp add: totalReplaceConstant_def)
  then show ?thesis using r by blast
qed

lemma marker_constant_old:
  assumes K: "opsKept fd fd'" and R: "readsVia vn val sz S pl fd fd'"
    and x: "x < op_count fd'" and mk: "isMarker (obank fd' x)"
    and g: "getIn (obank fd' x) i = Some k" and kc: "isConstant (vbank fd' k)"
  shows "getIn (obank fd x) i = Some k"
proof -
  have x0: "x < op_count fd"
  proof (rule ccontr)
    assume "\<not> x < op_count fd"
    then have "code (obank fd' x) = Some CPUI_COPY" using K x by (simp add: opsKept_def)
    then show False using mk by (simp add: isMarker_def)
  qed
  have mk0: "isMarker (obank fd x)" using mk opsKept_op(5) [OF K x0] by simp
  have "getIn (obank fd' x) i = getIn (obank fd x) i
        \<or> (\<exists>c u k. markerReadsCopy fd' x i c u k val sz)"
    using R x0 mk0 unfolding readsVia_def by (metis (no_types, lifting))
  then show ?thesis
  proof
    assume "getIn (obank fd' x) i = getIn (obank fd x) i"
    then show ?thesis using g by simp
  next
    assume "\<exists>c u k. markerReadsCopy fd' x i c u k val sz"
    then obtain c u k' where "markerReadsCopy fd' x i c u k' val sz" by blast
    then have "getIn (obank fd' x) i = Some u" "\<not> isConstant (vbank fd' u)"
      by (simp_all add: markerReadsCopy_def)
    then show ?thesis using g kc by simp
  qed
qed

lemma no_reads_left:
  assumes P: "pendingReads vn live [] n fd'" and x: "x < n" and l: "live x"
  shows "Some vn \<notin> set (op_inrefs (obank fd' x))"
proof -
  have "count_list (op_inrefs (obank fd' x)) (Some vn) = count_list (vn_descend (vbank fd' vn)) x"
    "count_list (vn_descend (vbank fd' vn)) x = count_list [] x"
    using P x l unfolding pendingReads_def by blast+
  then have "count_list (op_inrefs (obank fd' x)) (Some vn) = 0" by simp
  then show ?thesis using count_list_pos [of "op_inrefs (obank fd' x)" "Some vn"] by simp
qed

text \<open>
  Claim C10, as the code has it.  Let the store be well formed around \<open>vn\<close>
  (readersLinked, undefReady, replaceReady).  Then both routines return, and the ops,
  Varnodes and blocks of the store are kept, with new ops that are COPYs only
  (opsKept).  A slot of an op either holds what it held or held \<open>vn\<close> (readsVia):
  in a MULTIEQUAL or an INDIRECT it then holds the output, a new Varnode of the unique
  space, of a new COPY of a new constant, and in any other op a new constant.  So a
  constant that is an input of a marker op afterwards was this input before.

  descend2Undef rewrites every read of an op in a block that is not dead, with the
  constant 0xBADDEF, and places the COPY for a MULTIEQUAL at the end of the block of the
  in-edge of the slot, in front of an op that breaks the flow, and the COPY for an
  INDIRECT in front of the INDIRECT, with only INDIRECTs and COPYs of the routine in
  between (copyPlaced).  totalReplaceConstant rewrites every read, makes an op only if a
  marker op reads \<open>vn\<close>, and then one COPY, the op \<open>op_count fd\<close>, for all
  marker reads; the COPY is placed behind the op that defines \<open>vn\<close> (for a
  defining INDIRECT behind the op its iop annotation points to) and the MULTIEQUALs
  that follow it, or in block 0 behind the leading MULTIEQUALs if \<open>vn\<close> has no
  defining op (copyAfterDef).
\<close>

theorem C10_marker_reads_get_copy:
  assumes L: "readersLinked vn fd"
  shows "(undefReady vn fd \<longrightarrow>
           (\<exists>res fd'. descend2Undef vn fd = Inr (res, fd')
              \<and> opsKept fd fd'
              \<and> readsVia vn 0xBADDEF (vn_size (vbank fd vn)) UNIV True fd fd'
              \<and> (\<forall>x. x < op_count fd \<and> inLiveBlock fd x
                      \<longrightarrow> Some vn \<notin> set (op_inrefs (obank fd' x)))
              \<and> (\<forall>x i k. x < op_count fd' \<and> isMarker (obank fd' x)
                      \<and> getIn (obank fd' x) i = Some k \<and> isConstant (vbank fd' k)
                      \<longrightarrow> getIn (obank fd x) i = Some k)))
     \<and> (replaceReady vn fd \<longrightarrow>
           (\<exists>fd'. totalReplaceConstant vn val fd = Inr fd'
              \<and> opsKept fd fd'
              \<and> readsVia vn val (vn_size (vbank fd vn)) {op_count fd} False fd fd'
              \<and> (\<forall>x. x < op_count fd \<longrightarrow> Some vn \<notin> set (op_inrefs (obank fd' x)))
              \<and> (\<forall>x i k. x < op_count fd' \<and> isMarker (obank fd' x)
                      \<and> getIn (obank fd' x) i = Some k \<and> isConstant (vbank fd' k)
                      \<longrightarrow> getIn (obank fd x) i = Some k)
              \<and> (if \<exists>op \<in> set (vn_descend (vbank fd vn)). isMarker (obank fd op)
                  then op_count fd' = Suc (op_count fd) \<and> copyAfterDef fd fd' vn (op_count fd)
                  else op_count fd' = op_count fd)))"
proof (intro conjI impI)
  assume U: "undefReady vn fd"
  from descend2Undef_inv [OF L U]
  obtain res fd' where run: "descend2Undef vn fd = Inr (res, fd')"
    and K: "opsKept fd fd'"
    and R: "readsVia vn 0xBADDEF (vn_size (vbank fd vn)) UNIV True fd fd'"
    and P: "pendingReads vn (inLiveBlock fd) [] (op_count fd) fd'"
    by blast
  have a: "\<forall>x. x < op_count fd \<and> inLiveBlock fd x \<longrightarrow> Some vn \<notin> set (op_inrefs (obank fd' x))"
    using no_reads_left [OF P] by blast
  have b: "\<forall>x i k. x < op_count fd' \<and> isMarker (obank fd' x)
                      \<and> getIn (obank fd' x) i = Some k \<and> isConstant (vbank fd' k)
                      \<longrightarrow> getIn (obank fd x) i = Some k"
    using marker_constant_old [OF K R] by blast
  show "\<exists>res fd'. descend2Undef vn fd = Inr (res, fd')
              \<and> opsKept fd fd'
              \<and> readsVia vn 0xBADDEF (vn_size (vbank fd vn)) UNIV True fd fd'
              \<and> (\<forall>x. x < op_count fd \<and> inLiveBlock fd x
                      \<longrightarrow> Some vn \<notin> set (op_inrefs (obank fd' x)))
              \<and> (\<forall>x i k. x < op_count fd' \<and> isMarker (obank fd' x)
                      \<and> getIn (obank fd' x) i = Some k \<and> isConstant (vbank fd' k)
                      \<longrightarrow> getIn (obank fd x) i = Some k)"
    using run K R a b by blast
next
  assume U: "replaceReady vn fd"
  from totalReplaceConstant_inv [OF L U, of val]
  obtain cp fd' where run: "totalReplaceConstant vn val fd = Inr fd'"
    and K: "opsKept fd fd'"
    and R: "readsVia vn val (vn_size (vbank fd vn)) {op_count fd} False fd fd'"
    and P: "pendingReads vn (\<lambda>x. True) [] (op_count fd) fd'"
    and C: "singleCopy vn val fd fd' cp"
    and n: "cp = None \<longleftrightarrow> (\<forall>op \<in> set (vn_descend (vbank fd vn)). \<not> isMarker (obank fd op))"
    by blast
  have a: "\<forall>x. x < op_count fd \<longrightarrow> Some vn \<notin> set (op_inrefs (obank fd' x))"
    using no_reads_left [OF P] by blast
  have b: "\<forall>x i k. x < op_count fd' \<and> isMarker (obank fd' x)
                      \<and> getIn (obank fd' x) i = Some k \<and> isConstant (vbank fd' k)
                      \<longrightarrow> getIn (obank fd x) i = Some k"
    using marker_constant_old [OF K R] by blast
  have c: "if \<exists>op \<in> set (vn_descend (vbank fd vn)). isMarker (obank fd op)
                  then op_count fd' = Suc (op_count fd) \<and> copyAfterDef fd fd' vn (op_count fd)
                  else op_count fd' = op_count fd"
  proof (cases cp)
    case None
    then show ?thesis using C n by (simp add: singleCopy_def)
  next
    case (Some c)
    then have "\<exists>op \<in> set (vn_descend (vbank fd vn)). isMarker (obank fd op)" using n by auto
    then show ?thesis using C Some by (auto simp add: singleCopy_def)
  qed
  show "\<exists>fd'. totalReplaceConstant vn val fd = Inr fd'
              \<and> opsKept fd fd'
              \<and> readsVia vn val (vn_size (vbank fd vn)) {op_count fd} False fd fd'
              \<and> (\<forall>x. x < op_count fd \<longrightarrow> Some vn \<notin> set (op_inrefs (obank fd' x)))
              \<and> (\<forall>x i k. x < op_count fd' \<and> isMarker (obank fd' x)
                      \<and> getIn (obank fd' x) i = Some k \<and> isConstant (vbank fd' k)
                      \<longrightarrow> getIn (obank fd x) i = Some k)
              \<and> (if \<exists>op \<in> set (vn_descend (vbank fd vn)). isMarker (obank fd op)
                  then op_count fd' = Suc (op_count fd) \<and> copyAfterDef fd fd' vn (op_count fd)
                  else op_count fd' = op_count fd)"
    using run K R a b c by blast
qed

lemma fd_reads_facts:
  "vn_descend (vbank fd_reads 0) = [2, 5, 7, 7]" "op_count fd_reads = 9"
  "create_index fd_reads = 8" "vn_size (vbank fd_reads 0) = 4"
  "vn_def (vbank fd_reads 0) = Some 0" "isMarker (obank fd_reads 2)"
  "code (obank fd_reads 0) = Some CPUI_INDIRECT" "getIn (obank fd_reads 0) 1 = Some 3"
  "insertAfterTarget fd_reads 0 = Some 6" "op_parent (obank fd_reads 6) = Some 0"
  "bl_op (bblocks fd_reads 0) = [0, 6, 1]" "code (obank fd_reads 1) = Some CPUI_CBRANCH"
  "code (obank fd_reads (Suc 0)) = Some CPUI_CBRANCH"
  by (simp_all add: fd_reads_def empty_fd_def empty_block_def mk_op_def numInput_def
      code_def isMarker_def new_varnode_def getIn_def insertAfterTarget_def iop_space_def
      getOpFromConst_def)

lemma fd_reads_linked: "readersLinked 0 fd_reads"
proof -
  have "\<forall>op. count_list (op_inrefs (obank fd_reads op)) (Some 0)
            = count_list (vn_descend (vbank fd_reads 0)) op"
    by (simp add: fd_reads_def empty_fd_def empty_op_def mk_op_def)
  moreover have "\<forall>b. \<forall>y \<in> set (bl_op (bblocks fd_reads b)). y < op_count fd_reads"
    by (simp add: fd_reads_def empty_fd_def empty_block_def)
  ultimately show ?thesis
    unfolding readersLinked_def using fd_reads_facts(1,2,3) by simp
qed

lemma fd_reads_ready: "undefReady 0 fd_reads" "replaceReady 0 fd_reads"
  by (simp_all add: undefReady_def replaceReady_def copyReady_def fd_reads_facts)
    (simp_all add: fd_reads_def empty_fd_def empty_block_def mk_op_def numInput_def code_def
      getIn_def)

theorem C10_marker_reads_get_copy_witness:
  "readersLinked 0 fd_reads \<and> undefReady 0 fd_reads \<and> replaceReady 0 fd_reads
   \<and> (\<exists>res fd'. descend2Undef 0 fd_reads = Inr (res, fd')
          \<and> opsKept fd_reads fd'
          \<and> readsVia 0 0xBADDEF 4 UNIV True fd_reads fd'
          \<and> (\<forall>x. x < 9 \<and> inLiveBlock fd_reads x \<longrightarrow> Some 0 \<notin> set (op_inrefs (obank fd' x)))
          \<and> (\<forall>x i k. x < op_count fd' \<and> isMarker (obank fd' x)
                  \<and> getIn (obank fd' x) i = Some k \<and> isConstant (vbank fd' k)
                  \<longrightarrow> getIn (obank fd_reads x) i = Some k))
   \<and> (\<exists>fd'. totalReplaceConstant 0 7 fd_reads = Inr fd'
          \<and> opsKept fd_reads fd'
          \<and> readsVia 0 7 4 {9} False fd_reads fd'
          \<and> (\<forall>x. x < 9 \<longrightarrow> Some 0 \<notin> set (op_inrefs (obank fd' x)))
          \<and> (\<forall>x i k. x < op_count fd' \<and> isMarker (obank fd' x)
                  \<and> getIn (obank fd' x) i = Some k \<and> isConstant (vbank fd' k)
                  \<longrightarrow> getIn (obank fd_reads x) i = Some k)
          \<and> op_count fd' = 10 \<and> op_parent (obank fd' 9) = Some 0
          \<and> bl_op (bblocks fd' 0) = [0, 6, 9, 1])"
proof -
  note t = C10_marker_reads_get_copy [OF fd_reads_linked, of 7]
  have a: "\<exists>res fd'. descend2Undef 0 fd_reads = Inr (res, fd')
          \<and> opsKept fd_reads fd'
          \<and> readsVia 0 0xBADDEF 4 UNIV True fd_reads fd'
          \<and> (\<forall>x. x < 9 \<and> inLiveBlock fd_reads x \<longrightarrow> Some 0 \<notin> set (op_inrefs (obank fd' x)))
          \<and> (\<forall>x i k. x < op_count fd' \<and> isMarker (obank fd' x)
                  \<and> getIn (obank fd' x) i = Some k \<and> isConstant (vbank fd' k)
                  \<longrightarrow> getIn (obank fd_reads x) i = Some k)"
    using t [THEN conjunct1] fd_reads_ready(1) by (simp add: fd_reads_facts)
  have mk: "\<exists>op \<in> set (vn_descend (vbank fd_reads 0)). isMarker (obank fd_reads op)"
    using fd_reads_facts(1,6) by simp
  from t [THEN conjunct2] fd_reads_ready(2) mk
  obtain fd' where run: "totalReplaceConstant 0 7 fd_reads = Inr fd'"
    and r: "opsKept fd_reads fd'"
      "readsVia 0 7 (vn_size (vbank fd_reads 0)) {op_count fd_reads} False fd_reads fd'"
      "\<forall>x. x < op_count fd_reads \<longrightarrow> Some 0 \<notin> set (op_inrefs (obank fd' x))"
      "\<forall>x i k. x < op_count fd' \<and> isMarker (obank fd' x)
                  \<and> getIn (obank fd' x) i = Some k \<and> isConstant (vbank fd' k)
                  \<longrightarrow> getIn (obank fd_reads x) i = Some k"
    and n: "op_count fd' = Suc (op_count fd_reads)"
    and p: "copyAfterDef fd_reads fd' 0 (op_count fd_reads)"
    by auto
  have pl: "op_parent (obank fd' 9) = Some 0" "bl_op (bblocks fd' 0) = [0, 6, 9, 1]"
    using p by (simp_all add: copyAfterDef_def fd_reads_facts Let_def)
  have b: "\<exists>fd'. totalReplaceConstant 0 7 fd_reads = Inr fd'
          \<and> opsKept fd_reads fd'
          \<and> readsVia 0 7 4 {9} False fd_reads fd'
          \<and> (\<forall>x. x < 9 \<longrightarrow> Some 0 \<notin> set (op_inrefs (obank fd' x)))
          \<and> (\<forall>x i k. x < op_count fd' \<and> isMarker (obank fd' x)
                  \<and> getIn (obank fd' x) i = Some k \<and> isConstant (vbank fd' k)
                  \<longrightarrow> getIn (obank fd_reads x) i = Some k)
          \<and> op_count fd' = 10 \<and> op_parent (obank fd' 9) = Some 0
          \<and> bl_op (bblocks fd' 0) = [0, 6, 9, 1]"
    using run r n pl by (simp add: fd_reads_facts)
  show ?thesis using fd_reads_linked fd_reads_ready a b by blast
qed

lemma fd_phi_facts:
  "getSlot (obank fd_phi 2) 0 = 0" "numInput (obank fd_phi 2) = 2"
  "vn_descend (vbank fd_phi 0) = [2]" "op_count fd_phi = 5" "create_index fd_phi = 3"
  "code (obank fd_phi 2) = Some CPUI_MULTIEQUAL" "op_parent (obank fd_phi 2) = Some 1"
  "\<not> bl_dead (bblocks fd_phi 1)" "bl_intothis (bblocks fd_phi 1) = [0, 2]"
  "\<not> bl_dead (bblocks fd_phi (Suc 0))" "bl_intothis (bblocks fd_phi (Suc 0)) = [0, 2]"
  "op_parent (obank fd_phi 2) = Some (Suc 0)"
  "bl_op (bblocks fd_phi 0) = [0, 4, 1]" "isMarker (obank fd_phi 2)"
  "vn_def (vbank fd_phi 0) = Some 0" "code (obank fd_phi 0) = Some CPUI_LOAD"
  "op_parent (obank fd_phi 0) = Some 0" "vn_size (vbank fd_phi 0) = 4"
  "code (obank fd_phi 1) = Some CPUI_CBRANCH" "code (obank fd_phi (Suc 0)) = Some CPUI_CBRANCH"
  "code (obank fd_phi 4) = Some CPUI_STORE" "getIn (obank fd_phi 2) 0 = Some 0"
  by (simp_all add: fd_phi_def empty_fd_def empty_block_def mk_op_def getSlot_def numInput_def
      code_def isMarker_def new_varnode_def getIn_def)

lemma fd_phi_replace:
  "\<exists>fd'. totalReplaceConstant 0 7 fd_phi = Inr fd'
     \<and> markerReadsCopy fd' 2 0 5 3 4 7 4
     \<and> op_parent (obank fd' 5) = Some 0
     \<and> bl_op (bblocks fd' 0) = [0, 5, 4, 1]"
proof -
  have sl: "getSlot (obank fd_phi 2) 0 < numInput (obank fd_phi 2)"
    and rd: "2 \<in> set (vn_descend (vbank fd_phi 0))"
    and wf: "2 < op_count fd_phi" "0 < create_index fd_phi"
    and d: "0 < op_count fd_phi"
    using fd_phi_facts by simp_all
  have wb: "\<forall>b. \<forall>y \<in> set (bl_op (bblocks fd_phi b)). y < op_count fd_phi"
    by (simp add: fd_phi_def empty_fd_def empty_block_def)
  have iv: "code (obank fd_phi 0) = Some CPUI_INDIRECT \<longrightarrow>
              (\<forall>invn. getIn (obank fd_phi 0) 1 = Some invn \<longrightarrow> invn < create_index fd_phi)"
    using fd_phi_facts by simp
  have tg: "insertAfterTarget fd_phi 0 = Some 0"
    using fd_phi_facts by (simp add: insertAfterTarget_def)
  from totalReplaceConstant_step_first_written
    [OF fd_phi_facts(14) sl rd wf wb fd_phi_facts(15) d iv tg d fd_phi_facts(17), of 7]
  obtain fd' where r: "totalReplaceConstant_step 0 7 2 (None, fd_phi) = Inr (Some (op_count fd_phi), fd')"
    and m: "markerReadsCopy fd' 2 (getSlot (obank fd_phi 2) 0) (op_count fd_phi)
                  (create_index fd_phi) (Suc (create_index fd_phi)) 7 (vn_size (vbank fd_phi 0))"
    and p: "op_parent (obank fd' (op_count fd_phi)) = Some 0"
    and l: "\<forall>b. bl_op (bblocks fd' b) =
            (if b = 0
             then (let ops = bl_op (bblocks fd_phi 0);
                       n = Suc (getBasicIter ops 0);
                       j = skipMultiequal fd_phi (drop n ops) n
                   in take j ops @ [op_count fd_phi] @ drop j ops)
             else bl_op (bblocks fd_phi b))"
    by blast
  have run: "totalReplaceConstant 0 7 fd_phi = Inr fd'"
    using r fd_phi_facts by (simp add: totalReplaceConstant_def)
  have l0: "bl_op (bblocks fd' 0) = [0, 5, 4, 1]"
    using l [rule_format, of 0] fd_phi_facts by (simp add: Let_def)
  show ?thesis
    using run m p l0 fd_phi_facts by simp
qed

text \<open>
  The claim as stated fails for totalReplaceConstant: in \<open>fd_phi\<close> the MULTIEQUAL
  reads Varnode 0 through the in-edge from block 0, whose ops are LOAD, STORE, CBRANCH.
  The COPY is inserted right after the LOAD that defines Varnode 0, in front of the
  STORE, and not at the end of the block.
\<close>

theorem C10_insertion_point_counterexample:
  "code (obank fd_phi 2) = Some CPUI_MULTIEQUAL \<and> getIn (obank fd_phi 2) 0 = Some 0
   \<and> bl_intothis (bblocks fd_phi 1) = [0, 2] \<and> bl_op (bblocks fd_phi 0) = [0, 4, 1]
   \<and> \<not> isl (totalReplaceConstant 0 7 fd_phi)
   \<and> getIn (obank (projr (totalReplaceConstant 0 7 fd_phi)) 2) 0 = Some 3
   \<and> vn_def (vbank (projr (totalReplaceConstant 0 7 fd_phi)) 3) = Some 5
   \<and> code (obank (projr (totalReplaceConstant 0 7 fd_phi)) 5) = Some CPUI_COPY
   \<and> bl_op (bblocks (projr (totalReplaceConstant 0 7 fd_phi)) 0) = [0, 5, 4, 1]"
  using fd_phi_replace fd_phi_facts by (auto simp add: markerReadsCopy_def)

section \<open>Marking an input Varnode\<close>

lemma addr_less_alt:
  "addr_less a b \<longleftrightarrow>
     getIndex (getSpace a) < getIndex (getSpace b)
     \<or> (getIndex (getSpace a) = getIndex (getSpace b) \<and> uint (getOffset a) < uint (getOffset b))"
  by (simp add: addr_less_def word_less_alt)

lemma bound_facts:
  assumes "rangeOk v"
  shows "getSpace (addr_add (vn_loc v) (vn_size v)) = getSpace (vn_loc v)"
    and "uint (getOffset (addr_add (vn_loc v) (vn_size v))) = uint (getOffset (vn_loc v)) + vn_size v"
proof -
  show "getSpace (addr_add (vn_loc v) (vn_size v)) = getSpace (vn_loc v)"
    by (simp add: addr_add_def)
  have s: "0 < vn_size v" "uint (getOffset (vn_loc v)) + vn_size v < 2 ^ 64"
    using assms by (simp_all add: rangeOk_def)
  have "0 \<le> uint (getOffset (vn_loc v))" by simp
  then have "vn_size v < 2 ^ 64" using s by linarith
  then have w: "uint (word_of_int (vn_size v) :: 64 word) = vn_size v"
    using s by (simp add: uint_word_of_int)
  show "uint (getOffset (addr_add (vn_loc v) (vn_size v))) = uint (getOffset (vn_loc v)) + vn_size v"
    using s w by (simp add: addr_add_def uint_plus_if')
qed

lemma overlap_iff:
  assumes a: "rangeOk a" and b: "rangeOk b" and sp: "getSpace (vn_loc a) = getSpace (vn_loc b)"
  shows "(- 1 \<noteq> overlap a b) \<longleftrightarrow>
     (uint (getOffset (vn_loc b)) \<le> uint (getOffset (vn_loc a))
      \<and> uint (getOffset (vn_loc a)) < uint (getOffset (vn_loc b)) + vn_size b)"
proof -
  let ?A = "uint (getOffset (vn_loc a))" and ?B = "uint (getOffset (vn_loc b))"
  have nc: "getType (getSpace (vn_loc a)) \<noteq> IPTR_CONSTANT" using a by (simp add: rangeOk_def)
  have sb: "0 < vn_size b" "?B + vn_size b < 2 ^ 64" using b by (simp_all add: rangeOk_def)
  have A: "0 \<le> ?A" "?A < 2 ^ 64" using uint_lt2p [of "getOffset (vn_loc a)"] by simp_all
  have d: "uint (getOffset (vn_loc a) - getOffset (vn_loc b)) =
      (if ?B \<le> ?A then ?A - ?B else ?A - ?B + 2 ^ 64)"
    by (simp add: uint_sub_if')
  have nonneg: "0 \<le> uint (getOffset (vn_loc a) - getOffset (vn_loc b))" by simp
  show ?thesis
  proof (cases "?B \<le> ?A")
    case True
    then show ?thesis using sp nc d nonneg sb by (auto simp add: overlap_def Let_def)
  next
    case False
    have "vn_size b \<le> ?A - ?B + 2 ^ 64" using sb A(1) by linarith
    then have "vn_size b \<le> uint (getOffset (vn_loc a) - getOffset (vn_loc b))"
      using d False by simp
    then show ?thesis using False sp nc by (simp add: overlap_def Let_def)
  qed
qed

lemma overlap_other_space:
  "getSpace (vn_loc a) \<noteq> getSpace (vn_loc b) \<Longrightarrow> overlap a b = - 1"
  by (simp add: overlap_def)

lemma overlap_either:
  assumes a: "rangeOk a" and b: "rangeOk b"
  shows "(- 1 \<noteq> overlap a b \<or> - 1 \<noteq> overlap b a) \<longleftrightarrow> sharesByte a b"
proof (cases "getSpace (vn_loc a) = getSpace (vn_loc b)")
  case True
  have sa: "0 < vn_size a" and sb: "0 < vn_size b" using a b by (simp_all add: rangeOk_def)
  show ?thesis
    using overlap_iff [OF a b True] overlap_iff [OF b a True [symmetric]] True sa sb
    by (auto simp add: sharesByte_def)
next
  case False
  then show ?thesis
    using overlap_other_space [of a b] overlap_other_space [of b a]
    by (auto simp add: sharesByte_def)
qed

lemma lex3_alt:
  fixes i1 i2 :: nat and o1 o2 s1 s2 :: int
  shows "((i1 < i2 \<or> (i1 = i2 \<and> o1 < o2))
           \<or> (\<not> (i2 < i1 \<or> (i2 = i1 \<and> o2 < o1)) \<and> s1 < s2))
         \<longleftrightarrow> (i1 < i2 \<or> (i1 = i2 \<and> (o1 < o2 \<or> (o1 = o2 \<and> s1 < s2))))"
  by auto

lemma defKeyLess_alt:
  "defKeyLess a b \<longleftrightarrow>
     getIndex (getSpace (vn_loc a)) < getIndex (getSpace (vn_loc b))
     \<or> (getIndex (getSpace (vn_loc a)) = getIndex (getSpace (vn_loc b))
        \<and> (uint (getOffset (vn_loc a)) < uint (getOffset (vn_loc b))
           \<or> (uint (getOffset (vn_loc a)) = uint (getOffset (vn_loc b)) \<and> vn_size a < vn_size b)))"
  unfolding defKeyLess_def addr_less_alt by (rule lex3_alt)

lemma lex3_trans:
  fixes i1 i2 i3 :: nat and o1 o2 o3 s1 s2 s3 :: int
  assumes "i1 < i2 \<or> (i1 = i2 \<and> (o1 < o2 \<or> (o1 = o2 \<and> s1 < s2)))"
    and "i2 < i3 \<or> (i2 = i3 \<and> (o2 < o3 \<or> (o2 = o3 \<and> s2 < s3)))"
  shows "i1 < i3 \<or> (i1 = i3 \<and> (o1 < o3 \<or> (o1 = o3 \<and> s1 < s3)))"
  using assms by (elim disjE conjE) simp_all

lemma lex3_negtrans:
  fixes i1 i2 i3 :: nat and o1 o2 o3 s1 s2 s3 :: int
  assumes "\<not> (i1 < i2 \<or> (i1 = i2 \<and> (o1 < o2 \<or> (o1 = o2 \<and> s1 < s2))))"
    and "\<not> (i2 < i3 \<or> (i2 = i3 \<and> (o2 < o3 \<or> (o2 = o3 \<and> s2 < s3))))"
  shows "\<not> (i1 < i3 \<or> (i1 = i3 \<and> (o1 < o3 \<or> (o1 = o3 \<and> s1 < s3))))"
proof -
  have a: "i2 < i1 \<or> (i1 = i2 \<and> (o2 < o1 \<or> (o1 = o2 \<and> s2 \<le> s1)))" using assms(1) by auto
  have b: "i3 < i2 \<or> (i2 = i3 \<and> (o3 < o2 \<or> (o2 = o3 \<and> s3 \<le> s2)))" using assms(2) by auto
  have "i3 < i1 \<or> (i1 = i3 \<and> (o3 < o1 \<or> (o1 = o3 \<and> s3 \<le> s1)))"
    using a b by (elim disjE conjE) simp_all
  then show ?thesis by auto
qed

lemma defKeyLess_irrefl: "\<not> defKeyLess a a"
  by (simp add: defKeyLess_alt)

lemma defKeyLess_trans: "defKeyLess a b \<Longrightarrow> defKeyLess b c \<Longrightarrow> defKeyLess a c"
  unfolding defKeyLess_alt by (rule lex3_trans)

lemma defKeyLess_negtrans: "\<not> defKeyLess a b \<Longrightarrow> \<not> defKeyLess b c \<Longrightarrow> \<not> defKeyLess a c"
  unfolding defKeyLess_alt by (rule lex3_negtrans)

lemma lastByKey_mem: "lastByKey fd vs b \<in> set (b # vs)"
  by (induction vs arbitrary: b) auto

lemma lastByKey_max:
  "x \<in> set (b # vs) \<Longrightarrow> \<not> defKeyLess (vbank fd (lastByKey fd vs b)) (vbank fd x)"
proof (induction vs arbitrary: b x)
  case Nil
  then show ?case by (simp add: defKeyLess_irrefl)
next
  case (Cons v vs)
  let ?b' = "if defKeyLess (vbank fd b) (vbank fd v) then v else b"
  let ?r = "lastByKey fd vs ?b'"
  have ih: "\<And>y. y \<in> set (?b' # vs) \<Longrightarrow> \<not> defKeyLess (vbank fd ?r) (vbank fd y)"
    by (rule Cons.IH)
  have rb: "\<not> defKeyLess (vbank fd ?r) (vbank fd ?b')" using ih by simp
  have "\<not> defKeyLess (vbank fd ?r) (vbank fd x)"
  proof (cases "x \<in> set (?b' # vs)")
    case True
    then show ?thesis by (rule ih)
  next
    case False
    show ?thesis
    proof (cases "defKeyLess (vbank fd b) (vbank fd v)")
      case True
      then have xb: "x = b" using False Cons.prems by auto
      show ?thesis
      proof
        assume "defKeyLess (vbank fd ?r) (vbank fd x)"
        then have "defKeyLess (vbank fd ?r) (vbank fd v)" using xb True defKeyLess_trans by blast
        then show False using rb True by simp
      qed
    next
      case nl: False
      then have xv: "x = v" using False Cons.prems by auto
      have "\<not> defKeyLess (vbank fd ?r) (vbank fd b)" using rb nl by simp
      then show ?thesis using nl xv defKeyLess_negtrans by blast
    qed
  qed
  then show ?case by simp
qed

lemma defPredecessor_None:
  "defPredecessor fd bound = None \<longleftrightarrow> inputsBefore fd bound = []"
  by (simp add: defPredecessor_def split: list.splits)

lemma defPredecessor_Some:
  assumes "defPredecessor fd bound = Some c"
  shows "c \<in> set (inputsBefore fd bound)"
    and "\<And>x. x \<in> set (inputsBefore fd bound) \<Longrightarrow> \<not> defKeyLess (vbank fd c) (vbank fd x)"
proof -
  from assms obtain v vs where e: "inputsBefore fd bound = v # vs" and c: "c = lastByKey fd vs v"
    by (auto simp add: defPredecessor_def split: list.splits)
  show "c \<in> set (inputsBefore fd bound)" using lastByKey_mem [of fd vs v] e c by simp
  fix x assume "x \<in> set (inputsBefore fd bound)"
  then show "\<not> defKeyLess (vbank fd c) (vbank fd x)" using lastByKey_max [of x v vs fd] e c by simp
qed

lemma defPredecessor_exists:
  "x \<in> set (inputsBefore fd bound) \<Longrightarrow> \<exists>c. defPredecessor fd bound = Some c"
  by (cases "inputsBefore fd bound") (auto simp add: defPredecessor_def)

lemma inputsBefore_iff:
  "x \<in> set (inputsBefore fd bound) \<longleftrightarrow>
     x < create_index fd \<and> isInput (vbank fd x) \<and> addr_less (vn_loc (vbank fd x)) bound"
  by (auto simp add: inputsBefore_def)

lemma inputsOf_iff: "x \<in> set (inputsOf fd) \<longleftrightarrow> x < create_index fd \<and> isInput (vbank fd x)"
  by (auto simp add: inputsOf_def)

lemma inputsWellFormed_iff:
  "inputsWellFormed fd vn \<longleftrightarrow>
     rangeOk (vbank fd vn)
     \<and> (\<forall>v. v < create_index fd \<and> isInput (vbank fd v) \<longrightarrow>
           rangeOk (vbank fd v)
           \<and> (getIndex (getSpace (vn_loc (vbank fd v))) = getIndex (getSpace (vn_loc (vbank fd vn)))
                  \<longrightarrow> getSpace (vn_loc (vbank fd v)) = getSpace (vn_loc (vbank fd vn)))
           \<and> (\<forall>w. w < create_index fd \<and> isInput (vbank fd w) \<longrightarrow> v \<noteq> w \<longrightarrow>
                  \<not> sharesByte (vbank fd v) (vbank fd w)))"
  by (auto simp add: inputsWellFormed_def list_all_iff inputsOf_iff)


lemma pred_arith:
  fixes A s ow sw oc sc :: int
  assumes "0 < sc" "A < ow + sw" "oc < A + s" "ow \<le> oc" "\<not> (oc < ow + sw \<and> ow < oc + sc)"
  shows "A < oc" "A < oc + sc"
  using assms by auto

lemma setInputVarnode_pred:
  assumes wf: "inputsWellFormed fd vn"
    and w: "w < create_index fd" "isInput (vbank fd w)"
    and sh: "sharesByte (vbank fd vn) (vbank fd w)"
  shows "\<exists>c. defPredecessor fd (addr_add (vn_loc (vbank fd vn)) (vn_size (vbank fd vn))) = Some c
           \<and> c < create_index fd \<and> isInput (vbank fd c)
           \<and> sharesByte (vbank fd vn) (vbank fd c)
           \<and> (c \<noteq> w \<longrightarrow> vn_loc (vbank fd c) \<noteq> vn_loc (vbank fd vn)
                  \<and> \<not> (vn_loc (vbank fd w) = vn_loc (vbank fd vn)
                        \<and> vn_size (vbank fd w) = vn_size (vbank fd vn)))"
proof -
  let ?V = "vbank fd vn" and ?W = "vbank fd w"
  let ?bound = "addr_add (vn_loc ?V) (vn_size ?V)"
  define A where "A = uint (getOffset (vn_loc ?V))"
  define s where "s = vn_size ?V"
  define ow where "ow = uint (getOffset (vn_loc ?W))"
  define sw where "sw = vn_size ?W"
  define iV where "iV = getIndex (getSpace (vn_loc ?V))"
  note wf' = wf [unfolded inputsWellFormed_iff]
  have rV: "rangeOk ?V" using wf' by blast
  have bsp: "getSpace ?bound = getSpace (vn_loc ?V)"
    and boff: "uint (getOffset ?bound) = A + s"
    using bound_facts [OF rV] by (simp_all add: A_def s_def)
  have spw: "getSpace (vn_loc ?W) = getSpace (vn_loc ?V)"
    and sh1: "A < ow + sw" and sh2: "ow < A + s"
    using sh by (simp_all add: sharesByte_def A_def s_def ow_def sw_def)
  have iw: "getIndex (getSpace (vn_loc ?W)) = iV" using spw by (simp add: iV_def)
  have wb: "addr_less (vn_loc ?W) ?bound"
    unfolding addr_less_alt bsp boff using iw sh2 by (simp add: iV_def ow_def)
  have win: "w \<in> set (inputsBefore fd ?bound)"
    unfolding inputsBefore_iff using w wb by blast
  obtain c where c: "defPredecessor fd ?bound = Some c"
    using defPredecessor_exists [OF win] by blast
  have cin: "c \<in> set (inputsBefore fd ?bound)" by (rule defPredecessor_Some(1) [OF c])
  have cmax: "\<not> defKeyLess (vbank fd c) ?W" by (rule defPredecessor_Some(2) [OF c win])
  let ?C = "vbank fd c"
  define oc where "oc = uint (getOffset (vn_loc ?C))"
  define sc where "sc = vn_size ?C"
  define iC where "iC = getIndex (getSpace (vn_loc ?C))"
  have cc: "c < create_index fd" "isInput ?C" and cb: "addr_less (vn_loc ?C) ?bound"
    using cin unfolding inputsBefore_iff by blast+
  have cb': "iC < iV \<or> (iC = iV \<and> oc < A + s)"
    using cb unfolding addr_less_alt bsp boff by (simp add: iC_def iV_def oc_def)
  have cm': "\<not> (iC < iV \<or> (iC = iV \<and> (oc < ow \<or> (oc = ow \<and> sc < sw))))"
    using cmax unfolding defKeyLess_alt by (simp add: iw iC_def oc_def ow_def sc_def sw_def)
  have ic: "iC = iV" using cb' cm' by linarith
  have oc1: "oc < A + s" using cb' ic by simp
  have oc2: "ow \<le> oc" using cm' ic by auto
  have rC: "rangeOk ?C" using wf' cc by blast
  have sc0: "0 < sc" using rC by (simp add: rangeOk_def sc_def)
  have spc: "getSpace (vn_loc ?C) = getSpace (vn_loc ?V)"
    using wf' cc ic by (simp add: iC_def iV_def)
  have disj: "c \<noteq> w \<Longrightarrow> \<not> sharesByte ?C ?W" using wf' cc w by blast
  have shc: "sharesByte ?V ?C \<and> (c \<noteq> w \<longrightarrow> A < oc)"
  proof (cases "c = w")
    case True
    then show ?thesis using sh by simp
  next
    case False
    have "\<not> (oc < ow + sw \<and> ow < oc + sc)"
      using disj [OF False] spc spw by (simp add: sharesByte_def oc_def ow_def sc_def sw_def)
    then have "A < oc" "A < oc + sc"
      using pred_arith [of sc A ow sw oc s] sc0 sh1 oc1 oc2 by blast+
    then show ?thesis
      using False oc1 spc by (simp add: sharesByte_def A_def s_def oc_def sc_def)
  qed
  have ne: "c \<noteq> w \<Longrightarrow> vn_loc ?C \<noteq> vn_loc ?V
      \<and> \<not> (vn_loc ?W = vn_loc ?V \<and> vn_size ?W = vn_size ?V)"
  proof -
    assume n: "c \<noteq> w"
    then have a: "A < oc" using shc by blast
    have 1: "vn_loc ?C \<noteq> vn_loc ?V"
    proof
      assume "vn_loc ?C = vn_loc ?V"
      then have "oc = A" by (simp add: oc_def A_def)
      then show False using a by simp
    qed
    have 2: "\<not> (vn_loc ?W = vn_loc ?V \<and> vn_size ?W = vn_size ?V)"
    proof
      assume "vn_loc ?W = vn_loc ?V \<and> vn_size ?W = vn_size ?V"
      then have "ow = A" "sw = s" by (simp_all add: ow_def A_def sw_def s_def)
      moreover have "\<not> (oc < ow + sw \<and> ow < oc + sc)"
        using disj [OF n] spc spw by (simp add: sharesByte_def oc_def ow_def sc_def sw_def)
      ultimately show False using oc1 oc2 sc0 by linarith
    qed
    show ?thesis using 1 2 by blast
  qed
  show ?thesis using c cc shc ne by blast
qed

lemma setInputVarnode_existing:
  assumes wf: "inputsWellFormed fd vn" and ni: "\<not> isInput (vbank fd vn)"
    and w: "w < create_index fd" "isInput (vbank fd w)"
    and same: "vn_loc (vbank fd w) = vn_loc (vbank fd vn)" "vn_size (vbank fd w) = vn_size (vbank fd vn)"
  shows "setInputVarnode vn fd = Inr (w, fd)"
proof -
  note wf' = wf [unfolded inputsWellFormed_iff]
  have rV: "rangeOk (vbank fd vn)" using wf' by blast
  have rW: "rangeOk (vbank fd w)" using wf' w by blast
  have sh: "sharesByte (vbank fd vn) (vbank fd w)"
    using rV same by (simp add: sharesByte_def rangeOk_def)
  obtain c where c: "defPredecessor fd (addr_add (vn_loc (vbank fd vn)) (vn_size (vbank fd vn))) = Some c"
    and cw: "c \<noteq> w \<longrightarrow> \<not> (vn_loc (vbank fd w) = vn_loc (vbank fd vn)
                        \<and> vn_size (vbank fd w) = vn_size (vbank fd vn))"
    using setInputVarnode_pred [OF wf w sh] by blast
  have e: "c = w" using cw same by blast
  have ov: "- 1 \<noteq> overlap (vbank fd vn) (vbank fd w) \<or> - 1 \<noteq> overlap (vbank fd w) (vbank fd vn)"
    using overlap_either [OF rV rW] sh by blast
  show ?thesis
    using ni c [unfolded e] w(2) ov same by (simp add: setInputVarnode_def)
qed

lemma setInputVarnode_overlapping:
  assumes wf: "inputsWellFormed fd vn" and ni: "\<not> isInput (vbank fd vn)"
    and w: "w < create_index fd" "isInput (vbank fd w)"
    and sh: "sharesByte (vbank fd vn) (vbank fd w)"
    and diff: "\<not> (vn_loc (vbank fd w) = vn_loc (vbank fd vn)
                 \<and> vn_size (vbank fd w) = vn_size (vbank fd vn))"
  shows "setInputVarnode vn fd = Inl LowlevelError"
proof -
  note wf' = wf [unfolded inputsWellFormed_iff]
  have rV: "rangeOk (vbank fd vn)" using wf' by blast
  obtain c where c: "defPredecessor fd (addr_add (vn_loc (vbank fd vn)) (vn_size (vbank fd vn))) = Some c"
    and cc: "c < create_index fd" "isInput (vbank fd c)"
    and shc: "sharesByte (vbank fd vn) (vbank fd c)"
    and cw: "c \<noteq> w \<longrightarrow> vn_loc (vbank fd c) \<noteq> vn_loc (vbank fd vn)"
    using setInputVarnode_pred [OF wf w sh] by blast
  have rC: "rangeOk (vbank fd c)" using wf' cc by blast
  have ov: "- 1 \<noteq> overlap (vbank fd vn) (vbank fd c) \<or> - 1 \<noteq> overlap (vbank fd c) (vbank fd vn)"
    using overlap_either [OF rV rC] shc by blast
  have d: "\<not> (vn_size (vbank fd vn) = vn_size (vbank fd c) \<and> vn_loc (vbank fd vn) = vn_loc (vbank fd c))"
    using cw diff by (cases "c = w") auto
  show ?thesis
    using ni c cc(2) ov d by (simp add: setInputVarnode_def)
qed

lemma setFlag_simps [simp]:
  "vn_flags (vbank (setFlag fl v fd) v) = insert fl (vn_flags (vbank fd v))"
  "w \<noteq> v \<Longrightarrow> vbank (setFlag fl v fd) w = vbank fd w"
  "obank (setFlag fl v fd) = obank fd"
  "create_index (setFlag fl v fd) = create_index fd"
  "bblocks (setFlag fl v fd) = bblocks fd"
  by (simp_all add: setFlag_def)

lemma setVarnodeProperties_flags:
  "vn_flags (vbank fd v) \<subseteq> vn_flags (vbank (setVarnodeProperties v fd) v)"
  by (auto simp add: setVarnodeProperties_def Let_def split: prod.splits option.splits)

lemma setInputVarnode_marks:
  assumes wf: "inputsWellFormed fd vn" and ni: "\<not> isInput (vbank fd vn)"
    and none: "\<And>w. w < create_index fd \<Longrightarrow> isInput (vbank fd w)
                  \<Longrightarrow> \<not> sharesByte (vbank fd vn) (vbank fd w)"
  shows "\<exists>fd'. setInputVarnode vn fd = Inr (vn, fd') \<and> isInput (vbank fd' vn)
           \<and> (\<forall>w. w \<noteq> vn \<longrightarrow> vbank fd' w = vbank fd w)
           \<and> obank fd' = obank fd \<and> create_index fd' = create_index fd"
proof -
  note wf' = wf [unfolded inputsWellFormed_iff]
  have rV: "rangeOk (vbank fd vn)" using wf' by blast
  let ?p = "defPredecessor fd (addr_add (vn_loc (vbank fd vn)) (vn_size (vbank fd vn)))"
  let ?fd1 = "setVarnodeProperties vn (vbank_setInput vn fd)"
  let ?eff = "hasEffect ?fd1 (vn_loc (vbank ?fd1 vn)) (vn_size (vbank ?fd1 vn))"
  let ?fd2 = "if ?eff = unaffected then setFlag vn_unaffected vn ?fd1 else ?fd1"
  let ?fd3 = "if ?eff = return_address
              then setFlag vn_return_address vn (setFlag vn_unaffected vn ?fd2) else ?fd2"
  have run: "setInputVarnode vn fd = Inr (vn, ?fd3)"
  proof (cases ?p)
    case None
    then show ?thesis using ni by (simp add: setInputVarnode_def Let_def)
  next
    case (Some c)
    have cin: "c \<in> set (inputsBefore fd (addr_add (vn_loc (vbank fd vn)) (vn_size (vbank fd vn))))"
      by (rule defPredecessor_Some(1) [OF Some])
    then have cc: "c < create_index fd" "isInput (vbank fd c)"
      unfolding inputsBefore_iff by blast+
    have rC: "rangeOk (vbank fd c)" using wf' cc by blast
    have "\<not> sharesByte (vbank fd vn) (vbank fd c)" using none cc by blast
    then have ov: "\<not> (- 1 \<noteq> overlap (vbank fd vn) (vbank fd c) \<or> - 1 \<noteq> overlap (vbank fd c) (vbank fd vn))"
      using overlap_either [OF rV rC] by blast
    show ?thesis using ni Some cc(2) ov by (simp add: setInputVarnode_def Let_def)
  qed
  have i0: "vn_input \<in> vn_flags (vbank (vbank_setInput vn fd) vn)"
    by (simp add: vbank_setInput_def)
  have i1: "vn_input \<in> vn_flags (vbank ?fd1 vn)"
    using i0 setVarnodeProperties_flags [of "vbank_setInput vn fd" vn] by blast
  have i3: "isInput (vbank ?fd3 vn)" using i1 by (simp add: isInput_def)
  have f0: "\<And>w. w \<noteq> vn \<Longrightarrow> vbank (vbank_setInput vn fd) w = vbank fd w"
    by (simp add: vbank_setInput_def)
  have f3: "\<And>w. w \<noteq> vn \<Longrightarrow> vbank ?fd3 w = vbank fd w" using f0 by simp
  have o3: "obank ?fd3 = obank fd" "create_index ?fd3 = create_index fd"
    by (simp_all add: vbank_setInput_def)
  show ?thesis using run i3 f3 o3 by blast
qed


lemma inputs_all_iff:
  "(\<forall>w. w < create_index fd \<and> isInput (vbank fd w) \<longrightarrow> P w) \<longleftrightarrow> list_all P (inputsOf fd)"
  by (auto simp add: list_all_iff inputsOf_iff)

lemma fd_in_inputs: "inputsOf fd_in = [0]"
  by code_simp

lemma fd_in_wf:
  "inputsWellFormed fd_in 0" "inputsWellFormed fd_in 1" "inputsWellFormed fd_in 2"
  "inputsWellFormed fd_in 3"
  by code_simp+

lemma fd_in_facts:
  "isInput (vbank fd_in 0)" "\<not> isInput (vbank fd_in 1)" "\<not> isInput (vbank fd_in 2)"
  "\<not> isInput (vbank fd_in 3)" "create_index fd_in = 4"
  "vn_loc (vbank fd_in 0) = vn_loc (vbank fd_in 1)"
  "vn_size (vbank fd_in 0) = vn_size (vbank fd_in 1)"
  "sharesByte (vbank fd_in 2) (vbank fd_in 0)"
  "vn_loc (vbank fd_in 0) \<noteq> vn_loc (vbank fd_in 2)"
  "\<not> sharesByte (vbank fd_in 3) (vbank fd_in 0)"
  "0 < create_index fd_in"
  by code_simp+

text \<open>
  Claim C9.  In a bank whose inputs are well formed with respect to \<open>vn\<close> (positive
  sizes, no wrap-around, no two inputs sharing a byte), setInputVarnode has four
  outcomes.  A Varnode that is already an input is returned and nothing changes.
  Otherwise: if an existing input has the storage address and the size of \<open>vn\<close>, that
  input is returned and nothing changes; if an existing input shares a byte with \<open>vn\<close>
  without having the same address and size, the call fails with a low-level error; and
  if no existing input shares a byte with \<open>vn\<close>, then \<open>vn\<close> is returned and is an input
  afterwards, every other Varnode, the ops and the allocation counter being unchanged.
\<close>

theorem C9_setInputVarnode:
  assumes "inputsWellFormed fd vn"
  shows "(isInput (vbank fd vn) \<longrightarrow> setInputVarnode vn fd = Inr (vn, fd))
     \<and> (\<not> isInput (vbank fd vn) \<longrightarrow>
          (\<forall>w. w < create_index fd \<and> isInput (vbank fd w)
                \<and> vn_loc (vbank fd w) = vn_loc (vbank fd vn)
                \<and> vn_size (vbank fd w) = vn_size (vbank fd vn)
                \<longrightarrow> setInputVarnode vn fd = Inr (w, fd))
        \<and> (\<forall>w. w < create_index fd \<and> isInput (vbank fd w)
                \<and> sharesByte (vbank fd vn) (vbank fd w)
                \<and> \<not> (vn_loc (vbank fd w) = vn_loc (vbank fd vn)
                      \<and> vn_size (vbank fd w) = vn_size (vbank fd vn))
                \<longrightarrow> setInputVarnode vn fd = Inl LowlevelError)
        \<and> ((\<forall>w. w < create_index fd \<and> isInput (vbank fd w)
                \<longrightarrow> \<not> sharesByte (vbank fd vn) (vbank fd w))
            \<longrightarrow> (\<exists>fd'. setInputVarnode vn fd = Inr (vn, fd') \<and> isInput (vbank fd' vn)
                      \<and> (\<forall>w. w \<noteq> vn \<longrightarrow> vbank fd' w = vbank fd w)
                      \<and> obank fd' = obank fd \<and> create_index fd' = create_index fd)))"
proof (intro conjI impI allI)
  assume "isInput (vbank fd vn)"
  then show "setInputVarnode vn fd = Inr (vn, fd)" by (simp add: setInputVarnode_def)
next
  fix w
  assume "\<not> isInput (vbank fd vn)"
    and "w < create_index fd \<and> isInput (vbank fd w)
         \<and> vn_loc (vbank fd w) = vn_loc (vbank fd vn)
         \<and> vn_size (vbank fd w) = vn_size (vbank fd vn)"
  then show "setInputVarnode vn fd = Inr (w, fd)"
    using setInputVarnode_existing [OF assms, of w] by blast
next
  fix w
  assume "\<not> isInput (vbank fd vn)"
    and "w < create_index fd \<and> isInput (vbank fd w)
         \<and> sharesByte (vbank fd vn) (vbank fd w)
         \<and> \<not> (vn_loc (vbank fd w) = vn_loc (vbank fd vn)
               \<and> vn_size (vbank fd w) = vn_size (vbank fd vn))"
  then show "setInputVarnode vn fd = Inl LowlevelError"
    using setInputVarnode_overlapping [OF assms, of w] by blast
next
  assume "\<not> isInput (vbank fd vn)"
    and "\<forall>w. w < create_index fd \<and> isInput (vbank fd w)
             \<longrightarrow> \<not> sharesByte (vbank fd vn) (vbank fd w)"
  then show "\<exists>fd'. setInputVarnode vn fd = Inr (vn, fd') \<and> isInput (vbank fd' vn)
                      \<and> (\<forall>w. w \<noteq> vn \<longrightarrow> vbank fd' w = vbank fd w)
                      \<and> obank fd' = obank fd \<and> create_index fd' = create_index fd"
    using setInputVarnode_marks [OF assms] by blast
qed

theorem C9_setInputVarnode_witness:
  "inputsWellFormed fd_in 0 \<and> inputsWellFormed fd_in 1 \<and> inputsWellFormed fd_in 2
   \<and> inputsWellFormed fd_in 3
   \<and> isInput (vbank fd_in 0)
   \<and> setInputVarnode 0 fd_in = Inr (0, fd_in)
   \<and> setInputVarnode 1 fd_in = Inr (0, fd_in)
   \<and> sharesByte (vbank fd_in 2) (vbank fd_in 0)
   \<and> setInputVarnode 2 fd_in = Inl LowlevelError
   \<and> \<not> isInput (vbank fd_in 3)
   \<and> fst (projr (setInputVarnode 3 fd_in)) = 3
   \<and> isInput (vbank (snd (projr (setInputVarnode 3 fd_in))) 3)
   \<and> vbank (snd (projr (setInputVarnode 3 fd_in))) 0 = vbank fd_in 0"
proof -
  have none: "\<forall>w. w < create_index fd_in \<and> isInput (vbank fd_in w)
      \<longrightarrow> \<not> sharesByte (vbank fd_in 3) (vbank fd_in w)"
    unfolding inputs_all_iff fd_in_inputs using fd_in_facts(10) by simp
  have a: "setInputVarnode 0 fd_in = Inr (0, fd_in)"
    using C9_setInputVarnode [OF fd_in_wf(1)] fd_in_facts(1) by blast
  have b: "setInputVarnode 1 fd_in = Inr (0, fd_in)"
    using C9_setInputVarnode [OF fd_in_wf(2)] fd_in_facts(1,2,6,7,11) by blast
  have c: "setInputVarnode 2 fd_in = Inl LowlevelError"
    using C9_setInputVarnode [OF fd_in_wf(3)] fd_in_facts(1,3,8,9,11) by blast
  obtain fd' where d: "setInputVarnode 3 fd_in = Inr (3, fd')" "isInput (vbank fd' 3)"
    "\<forall>w. w \<noteq> 3 \<longrightarrow> vbank fd' w = vbank fd_in w"
    using C9_setInputVarnode [OF fd_in_wf(4)] fd_in_facts(4) none by blast
  show ?thesis using a b c d fd_in_wf fd_in_facts by simp
qed

section \<open>Uses of a trial Varnode and of its ancestors\<close>

lemma sameLinks_refl: "sameLinks fd fd"
  by (simp add: sameLinks_def)

lemma sameLinks_trans: "sameLinks a b \<Longrightarrow> sameLinks b c \<Longrightarrow> sameLinks a c"
  by (simp add: sameLinks_def)

lemma sameLinks_setMark: "sameLinks fd (setMark v fd)"
  by (simp add: sameLinks_def setMark_def setFlag_def)

lemma sameLinks_clearMark: "sameLinks fd (clearMark v fd)"
  by (simp add: sameLinks_def clearMark_def)

lemma sameLinks_fold_clearMark: "sameLinks fd (fold clearMark vs fd)"
proof (induction vs arbitrary: fd)
  case Nil
  show ?case by (simp add: sameLinks_refl)
next
  case (Cons v vs)
  have "sameLinks (clearMark v fd) (fold clearMark vs (clearMark v fd))" by (rule Cons.IH)
  then show ?case using sameLinks_trans [OF sameLinks_clearMark] by simp
qed

lemma closedStore_sameLinks:
  assumes "sameLinks fd fd1" "closedStore fd"
  shows "closedStore fd1"
proof -
  have o: "obank fd1 = obank fd" and c: "create_index fd1 = create_index fd"
    and d: "\<And>v. vn_descend (vbank fd1 v) = vn_descend (vbank fd v)"
      "\<And>v. vn_def (vbank fd1 v) = vn_def (vbank fd v)"
    using assms(1) by (simp_all add: sameLinks_def)
  show ?thesis using assms(2) unfolding closedStore_def o c d .
qed

lemma closedStore_reader:
  assumes "closedStore fd" "v < create_index fd" "op \<in> set (vn_descend (vbank fd v))"
    "op_output (obank fd op) = Some w"
  shows "w < create_index fd"
proof -
  have "list_all (\<lambda>op. case op_output (obank fd op) of
                          None \<Rightarrow> True | Some w \<Rightarrow> w < create_index fd)
           (vn_descend (vbank fd v))"
    using assms(1,2) by (simp add: closedStore_def list_all_iff)
  then show ?thesis using assms(3,4) by (auto simp add: list_all_iff)
qed

lemma closedStore_input:
  assumes "closedStore fd" "v < create_index fd" "vn_def (vbank fd v) = Some d"
    "Some w \<in> set (op_inrefs (obank fd d))"
  shows "w < create_index fd"
proof -
  have "\<forall>v\<in>set [0..<create_index fd].
      list_all (\<lambda>op. case op_output (obank fd op) of
                          None \<Rightarrow> True | Some w \<Rightarrow> w < create_index fd)
           (vn_descend (vbank fd v))
      \<and> (case vn_def (vbank fd v) of
               None \<Rightarrow> True
             | Some d \<Rightarrow> list_all (\<lambda>r. case r of None \<Rightarrow> True | Some w \<Rightarrow> w < create_index fd)
                           (op_inrefs (obank fd d)))"
    using assms(1) unfolding closedStore_def list_all_iff [of _ "[0..<create_index fd]"] .
  then have "case vn_def (vbank fd v) of
               None \<Rightarrow> True
             | Some d \<Rightarrow> list_all (\<lambda>r. case r of None \<Rightarrow> True | Some w \<Rightarrow> w < create_index fd)
                           (op_inrefs (obank fd d))"
    using assms(2) by simp
  then have "list_all (\<lambda>r. case r of None \<Rightarrow> True | Some w \<Rightarrow> w < create_index fd)
           (op_inrefs (obank fd d))"
    using assms(3) by simp
  then show ?thesis using assms(4) by (auto simp add: list_all_iff)
qed

lemma getIn_mem: "getIn op i = Some w \<Longrightarrow> Some w \<in> set (op_inrefs op)"
  by (auto simp add: getIn_def numInput_def in_set_conv_nth split: if_splits)

lemma worklistOk_iff:
  "worklistOk vl fd \<longleftrightarrow>
     distinct vl \<and> (\<forall>v \<in> set vl. v < create_index fd \<and> isMark (vbank fd v))"
  by (simp add: worklistOk_def list_all_iff)

lemma worklistOk_length:
  assumes "worklistOk vl fd"
  shows "length vl \<le> create_index fd"
proof -
  have d: "distinct vl" and s: "set vl \<subseteq> {..<create_index fd}"
    using assms by (auto simp add: worklistOk_iff)
  have "length vl = card (set vl)" using d by (simp add: distinct_card)
  also have "\<dots> \<le> card {..<create_index fd}" using s by (intro card_mono) simp_all
  finally show ?thesis by simp
qed

lemma onlyOpUse_op_facts:
  assumes run: "onlyOpUse_op opmatch trial vn op vl fd = (res, vl1, fd1)"
    and ok: "worklistOk vl fd"
    and out: "\<And>w. op_output (obank fd op) = Some w \<Longrightarrow> w < create_index fd"
  shows "sameLinks fd fd1" "worklistOk vl1 fd1" "length vl \<le> length vl1"
    "\<And>i. i < length vl \<Longrightarrow> vl1 ! i = vl ! i"
proof -
  have "sameLinks fd fd1 \<and> worklistOk vl1 fd1 \<and> length vl \<le> length vl1
      \<and> (\<forall>i. i < length vl \<longrightarrow> vl1 ! i = vl ! i)"
  proof (cases "onlyOpUse_switch fd opmatch trial vn op")
    case use_continue
    then show ?thesis using run ok by (simp add: onlyOpUse_op_def sameLinks_refl)
  next
    case use_reject
    then show ?thesis using run ok by (simp add: onlyOpUse_op_def sameLinks_refl)
  next
    case use_follow
    show ?thesis
    proof (cases "op_output (obank fd op)")
      case None
      then show ?thesis using run ok use_follow by (simp add: onlyOpUse_op_def sameLinks_refl)
    next
      case (Some w)
      have wl: "w < create_index fd" by (rule out [OF Some])
      show ?thesis
      proof (cases "isPersist (vbank fd w) \<or> isMark (vbank fd w)")
        case True
        then show ?thesis using run ok use_follow Some
          by (auto simp add: onlyOpUse_op_def sameLinks_refl split: if_splits)
      next
        case False
        then have e: "vl1 = vl @ [w]" "fd1 = setMark w fd"
          using run use_follow Some by (simp_all add: onlyOpUse_op_def)
        have nw: "w \<notin> set vl" using False ok by (auto simp add: worklistOk_iff)
        have m: "\<And>v. isMark (vbank fd v) \<Longrightarrow> isMark (vbank (setMark w fd) v)"
          by (simp add: isMark_def setMark_def setFlag_def)
        have mw: "isMark (vbank (setMark w fd) w)"
          by (simp add: isMark_def setMark_def)
        have c: "create_index (setMark w fd) = create_index fd" by (simp add: setMark_def)
        have "worklistOk (vl @ [w]) (setMark w fd)"
          using ok nw wl m mw c by (auto simp add: worklistOk_iff)
        then show ?thesis using e sameLinks_setMark [of fd w] by (simp add: nth_append)
      qed
    qed
  qed
  then show "sameLinks fd fd1" "worklistOk vl1 fd1" "length vl \<le> length vl1"
    "\<And>i. i < length vl \<Longrightarrow> vl1 ! i = vl ! i" by blast+
qed

lemma onlyOpUse_descend_facts:
  assumes run: "onlyOpUse_descend opmatch trial vn ops vl fd = (res, vl1, fd1)"
    and ok: "worklistOk vl fd"
    and out: "\<forall>op w. op \<in> set ops \<and> op_output (obank fd op) = Some w \<longrightarrow> w < create_index fd"
  shows "sameLinks fd fd1 \<and> worklistOk vl1 fd1 \<and> length vl \<le> length vl1"
  using run ok out
proof (induction ops arbitrary: vl fd)
  case Nil
  then show ?case by (simp add: sameLinks_refl)
next
  case (Cons op ops)
  obtain r vl2 fd2 where s: "onlyOpUse_op opmatch trial vn op vl fd = (r, vl2, fd2)"
    by (cases "onlyOpUse_op opmatch trial vn op vl fd") auto
  have o1: "\<And>w. op_output (obank fd op) = Some w \<Longrightarrow> w < create_index fd"
    using Cons.prems(3) by auto
  note f = onlyOpUse_op_facts(1,2,3) [OF s Cons.prems(2) o1]
  show ?case
  proof (cases r)
    case False
    then have "vl1 = vl2" "fd1 = fd2" using Cons.prems(1) s by simp_all
    then show ?thesis using f by simp
  next
    case True
    then have run2: "onlyOpUse_descend opmatch trial vn ops vl2 fd2 = (res, vl1, fd1)"
      using Cons.prems(1) s by simp
    have ob: "obank fd2 = obank fd" "create_index fd2 = create_index fd"
      using f(1) by (simp_all add: sameLinks_def)
    have o2: "\<forall>op' w. op' \<in> set ops \<and> op_output (obank fd2 op') = Some w
        \<longrightarrow> w < create_index fd2"
      using Cons.prems(3) by (auto simp add: ob)
    have "sameLinks fd2 fd1 \<and> worklistOk vl1 fd1 \<and> length vl2 \<le> length vl1"
      by (rule Cons.IH [OF run2 f(2) o2])
    then show ?thesis using f sameLinks_trans by (meson le_trans)
  qed
qed

lemma onlyOpUse_loop_returns:
  assumes "closedStore fd" "worklistOk vl fd"
  shows "\<exists>res vl1 fd1. onlyOpUse_loop opmatch trial i vl fd = Some (res, vl1, fd1)
           \<and> sameLinks fd fd1"
  using assms
proof (induction "create_index fd - i" arbitrary: i vl fd rule: less_induct)
  case less
  show ?case
  proof (cases "i < length vl")
    case False
    then show ?thesis
      by (subst onlyOpUse_loop.simps) (auto simp add: sameLinks_refl)
  next
    case True
    let ?v = "vl ! i"
    have vin: "?v \<in> set vl" using True by simp
    then have vci: "?v < create_index fd" using less.prems(2) by (simp add: worklistOk_iff)
    obtain r vl2 fd2 where
      s: "onlyOpUse_descend opmatch trial ?v (vn_descend (vbank fd ?v)) vl fd = (r, vl2, fd2)"
      by (cases "onlyOpUse_descend opmatch trial ?v (vn_descend (vbank fd ?v)) vl fd") auto
    have o: "\<forall>op w. op \<in> set (vn_descend (vbank fd ?v)) \<and> op_output (obank fd op) = Some w
        \<longrightarrow> w < create_index fd"
      using closedStore_reader [OF less.prems(1) vci] by blast
    have f: "sameLinks fd fd2" "worklistOk vl2 fd2" "length vl \<le> length vl2"
      using onlyOpUse_descend_facts [OF s less.prems(2) o] by blast+
    show ?thesis
    proof (cases r)
      case False
      then show ?thesis using True s f(1)
        by (subst onlyOpUse_loop.simps) auto
    next
      case r: True
      have ci: "create_index fd2 = create_index fd" using f(1) by (simp add: sameLinks_def)
      have "length vl \<le> create_index fd" by (rule worklistOk_length [OF less.prems(2)])
      then have dec: "create_index fd2 - (i + 1) < create_index fd - i" using True ci by simp
      have cl: "closedStore fd2" by (rule closedStore_sameLinks [OF f(1) less.prems(1)])
      obtain res vl1 fd1 where
        e: "onlyOpUse_loop opmatch trial (i + 1) vl2 fd2 = Some (res, vl1, fd1)"
        and sl: "sameLinks fd2 fd1"
        using less.hyps [OF dec cl f(2)] by blast
      have "onlyOpUse_loop opmatch trial i vl fd = Some (res, vl1, fd1)"
        using True s r e by (subst onlyOpUse_loop.simps) simp
      then show ?thesis using sameLinks_trans [OF f(1) sl] by blast
    qed
  qed
qed

lemma onlyOpUse_returns:
  assumes "closedStore fd" "invn < create_index fd"
  shows "\<exists>res fd1. onlyOpUse invn opmatch trial fd = Some (res, fd1) \<and> sameLinks fd fd1"
proof -
  have c: "closedStore (setMark invn fd)"
    by (rule closedStore_sameLinks [OF sameLinks_setMark assms(1)])
  have w: "worklistOk [invn] (setMark invn fd)"
    using assms(2) by (simp add: worklistOk_iff isMark_def setMark_def)
  obtain res vl1 fd1 where
    e: "onlyOpUse_loop opmatch trial 0 [invn] (setMark invn fd) = Some (res, vl1, fd1)"
    and sl: "sameLinks (setMark invn fd) fd1"
    using onlyOpUse_loop_returns [OF c w] by blast
  have "sameLinks fd (fold clearMark vl1 fd1)"
    using sameLinks_trans [OF sameLinks_setMark sameLinks_trans [OF sl sameLinks_fold_clearMark]] .
  then show ?thesis using e by (simp add: onlyOpUse_def)
qed

lemma onlyOpUse_result_returns:
  assumes "closedStore fd" "invn < create_index fd"
  shows "\<exists>res fd1. onlyOpUse_result invn opmatch trial fd = Some (Inr (res, trial, fd1))
           \<and> sameLinks fd fd1"
  using onlyOpUse_returns [OF assms, of opmatch trial] by (auto simp add: onlyOpUse_result_def)


declare ancestorOpUse.simps [simp del]

lemma ancestorOpUse_zero: "ancestorOpUse depth 0 invn op trial fd = Some (Inr (False, trial, fd))"
  by (subst ancestorOpUse.simps) simp

lemma ancestorOpUse_unwritten:
  assumes "maxlevel \<noteq> 0" "vn_def (vbank fd invn) = None"
  shows "ancestorOpUse depth maxlevel invn op trial fd =
     (if \<not> isInput (vbank fd invn) \<or> \<not> isTypeLock (vbank fd invn)
      then Some (Inr (False, trial, fd)) else onlyOpUse_result invn op trial fd)"
  using assms by (subst ancestorOpUse.simps) simp

lemma ancestorOpUse_marker:
  assumes "maxlevel \<noteq> 0" "vn_def (vbank fd invn) = Some d"
    "code (obank fd d) = Some CPUI_MULTIEQUAL \<or> code (obank fd d) = Some CPUI_INDIRECT"
  shows "ancestorOpUse depth maxlevel invn op trial fd =
     (if code (obank fd d) = Some CPUI_INDIRECT \<and> isIndirectCreation (obank fd d)
      then Some (Inr (False, trial, fd))
      else ancestorOpUse_inputs depth maxlevel (op_inrefs (obank fd d)) op trial fd)"
  using assms by (subst ancestorOpUse.simps) auto

lemma ancestorOpUse_copy:
  assumes "maxlevel \<noteq> 0" "vn_def (vbank fd invn) = Some d" "code (obank fd d) = Some CPUI_COPY"
  shows "ancestorOpUse (Suc depth) maxlevel invn op trial fd =
     (if getType (getSpace (vn_loc (vbank fd invn))) = IPTR_INTERNAL \<or> isAddrForce (vbank fd invn)
      then (case getIn (obank fd d) 0 of
              None \<Rightarrow> Some (Inl BadAccess)
            | Some in0 \<Rightarrow> ancestorOpUse depth (maxlevel - 1) in0 op trial fd)
      else onlyOpUse_result invn op trial fd)"
  using assms by (subst ancestorOpUse.simps) (simp split: option.splits)

lemma ancestorOpUse_piece:
  assumes "maxlevel \<noteq> 0" "vn_def (vbank fd invn) = Some d" "code (obank fd d) = Some CPUI_PIECE"
  shows "ancestorOpUse (Suc depth) maxlevel invn op trial fd =
     (case getIn (obank fd d) 1 of
        None \<Rightarrow> Some (Inl BadAccess)
      | Some in1 \<Rightarrow> ancestorOpUse depth (maxlevel - 1) in1 op trial fd)"
  using assms by (subst ancestorOpUse.simps) (simp split: option.splits)

lemma ancestorOpUse_subpiece:
  assumes "maxlevel \<noteq> 0" "vn_def (vbank fd invn) = Some d" "code (obank fd d) = Some CPUI_SUBPIECE"
  shows "ancestorOpUse depth maxlevel invn op trial fd =
     (case subpieceOfRem fd d of
        Inl e \<Rightarrow> Some (Inl e)
      | Inr rem \<Rightarrow> onlyOpUse_result invn op (if rem then setRemFormed trial else trial) fd)"
  using assms by (subst ancestorOpUse.simps) simp

lemma ancestorOpUse_call:
  assumes "maxlevel \<noteq> 0" "vn_def (vbank fd invn) = Some d"
    "code (obank fd d) = Some CPUI_CALL \<or> code (obank fd d) = Some CPUI_CALLIND"
  shows "ancestorOpUse depth maxlevel invn op trial fd = Some (Inr (False, trial, fd))"
  using assms by (subst ancestorOpUse.simps) auto

lemma ancestorOpUse_other:
  assumes "maxlevel \<noteq> 0" "vn_def (vbank fd invn) = Some d"
    "code (obank fd d) \<noteq> Some CPUI_MULTIEQUAL" "code (obank fd d) \<noteq> Some CPUI_INDIRECT"
    "code (obank fd d) \<noteq> Some CPUI_COPY" "code (obank fd d) \<noteq> Some CPUI_PIECE"
    "code (obank fd d) \<noteq> Some CPUI_SUBPIECE" "code (obank fd d) \<noteq> Some CPUI_CALL"
    "code (obank fd d) \<noteq> Some CPUI_CALLIND"
  shows "ancestorOpUse depth maxlevel invn op trial fd = onlyOpUse_result invn op trial fd"
  using assms by (subst ancestorOpUse.simps) (simp split: option.splits OpCode.splits)

lemma ancestorOpUse_inputs_returns:
  assumes ih: "\<And>invn trial fd. closedStore fd \<Longrightarrow> invn < create_index fd \<Longrightarrow>
      \<exists>r. ancestorOpUse depth (maxlevel - 1) invn op trial fd = Some r
          \<and> (\<forall>res t fd1. r = Inr (res, t, fd1) \<longrightarrow> sameLinks fd fd1)"
    and cl: "closedStore fd"
    and xs: "\<forall>w. Some w \<in> set xs \<longrightarrow> w < create_index fd"
  shows "\<exists>r. ancestorOpUse_inputs (Suc depth) maxlevel xs op trial fd = Some r
          \<and> (\<forall>res t fd1. r = Inr (res, t, fd1) \<longrightarrow> sameLinks fd fd1)"
  using cl xs
proof (induction xs arbitrary: trial fd)
  case Nil
  show ?case by (simp add: ancestorOpUse.simps sameLinks_refl)
next
  case (Cons x xs)
  show ?case
  proof (cases x)
    case None
    then show ?thesis by (simp add: ancestorOpUse.simps)
  next
    case (Some v)
    have vl: "v < create_index fd" using Cons.prems(2) Some by simp
    obtain r where r: "ancestorOpUse depth (maxlevel - 1) v op trial fd = Some r"
      and fr: "\<forall>res t fd1. r = Inr (res, t, fd1) \<longrightarrow> sameLinks fd fd1"
      using ih [OF Cons.prems(1) vl] by blast
    show ?thesis
    proof (cases r)
      case (Inl e)
      then show ?thesis using Some r by (simp add: ancestorOpUse.simps)
    next
      case (Inr p)
      obtain res t fd1 where p: "p = (res, t, fd1)" by (cases p) auto
      have sl: "sameLinks fd fd1" using fr Inr p by blast
      show ?thesis
      proof (cases res)
        case True
        then show ?thesis using Some r Inr p sl by (simp add: ancestorOpUse.simps)
      next
        case False
        have cl1: "closedStore fd1" by (rule closedStore_sameLinks [OF sl Cons.prems(1)])
        have xs1: "\<forall>w. Some w \<in> set xs \<longrightarrow> w < create_index fd1"
          using Cons.prems(2) sl by (simp add: sameLinks_def)
        obtain r2 where r2: "ancestorOpUse_inputs (Suc depth) maxlevel xs op t fd1 = Some r2"
          and fr2: "\<forall>res t fd2. r2 = Inr (res, t, fd2) \<longrightarrow> sameLinks fd1 fd2"
          using Cons.IH [OF cl1 xs1] by blast
        have "ancestorOpUse_inputs (Suc depth) maxlevel (x # xs) op trial fd = Some r2"
          using Some r Inr p False r2 by (simp add: ancestorOpUse.simps)
        then show ?thesis using fr2 sameLinks_trans [OF sl] by blast
      qed
    qed
  qed
qed

lemma unat_pred_le:
  fixes maxlevel :: int4
  assumes "maxlevel \<noteq> 0" "unat maxlevel \<le> Suc depth"
  shows "unat (maxlevel - 1) \<le> depth"
proof -
  have "unat (maxlevel - 1) = unat maxlevel - 1"
    using assms(1) by (simp add: unat_minus_one)
  then show ?thesis using assms(2) by simp
qed

lemma ancestorOpUse_returns:
  assumes "closedStore fd" "invn < create_index fd" "unat maxlevel \<le> depth"
  shows "\<exists>r. ancestorOpUse depth maxlevel invn op trial fd = Some r
          \<and> (\<forall>res t fd1. r = Inr (res, t, fd1) \<longrightarrow> sameLinks fd fd1)"
  using assms
proof (induction depth arbitrary: maxlevel invn trial fd)
  case 0
  then have "maxlevel = 0" by (simp add: unat_eq_0)
  then show ?case by (simp add: ancestorOpUse_zero sameLinks_refl)
next
  case (Suc depth)
  show ?case
  proof (cases "maxlevel = 0")
    case True
    then show ?thesis by (simp add: ancestorOpUse_zero sameLinks_refl)
  next
    case nz: False
    have le: "unat (maxlevel - 1) \<le> depth" by (rule unat_pred_le [OF nz Suc.prems(3)])
    have ih: "\<And>invn trial fd. closedStore fd \<Longrightarrow> invn < create_index fd \<Longrightarrow>
      \<exists>r. ancestorOpUse depth (maxlevel - 1) invn op trial fd = Some r
          \<and> (\<forall>res t fd1. r = Inr (res, t, fd1) \<longrightarrow> sameLinks fd fd1)"
      using Suc.IH le by blast
    have only: "\<And>t. \<exists>r. onlyOpUse_result invn op t fd = Some r
          \<and> (\<forall>res t fd1. r = Inr (res, t, fd1) \<longrightarrow> sameLinks fd fd1)"
      using onlyOpUse_result_returns [OF Suc.prems(1,2)] by fastforce
    show ?thesis
    proof (cases "vn_def (vbank fd invn)")
      case None
      show ?thesis
        unfolding ancestorOpUse_unwritten [OF nz None] using only [of trial]
        by (simp add: sameLinks_refl)
    next
      case (Some d)
      have ins: "\<forall>w. Some w \<in> set (op_inrefs (obank fd d)) \<longrightarrow> w < create_index fd"
        using closedStore_input [OF Suc.prems(1,2) Some] by blast
      consider (marker) "code (obank fd d) = Some CPUI_MULTIEQUAL \<or> code (obank fd d) = Some CPUI_INDIRECT"
        | (copy) "code (obank fd d) = Some CPUI_COPY"
        | (piece) "code (obank fd d) = Some CPUI_PIECE"
        | (subpiece) "code (obank fd d) = Some CPUI_SUBPIECE"
        | (call) "code (obank fd d) = Some CPUI_CALL \<or> code (obank fd d) = Some CPUI_CALLIND"
        | (other) "code (obank fd d) \<noteq> Some CPUI_MULTIEQUAL" "code (obank fd d) \<noteq> Some CPUI_INDIRECT"
            "code (obank fd d) \<noteq> Some CPUI_COPY" "code (obank fd d) \<noteq> Some CPUI_PIECE"
            "code (obank fd d) \<noteq> Some CPUI_SUBPIECE" "code (obank fd d) \<noteq> Some CPUI_CALL"
            "code (obank fd d) \<noteq> Some CPUI_CALLIND"
        by blast
      then show ?thesis
      proof cases
        case marker
        show ?thesis
          unfolding ancestorOpUse_marker [OF nz Some marker]
          using ancestorOpUse_inputs_returns [OF ih Suc.prems(1) ins, of trial]
          by (simp add: sameLinks_refl)
      next
        case copy
        show ?thesis
        proof (cases "getIn (obank fd d) 0")
          case None
          then show ?thesis
            unfolding ancestorOpUse_copy [OF nz Some copy] using only [of trial] by simp
        next
          case in0: (Some in0)
          have "in0 < create_index fd" using ins getIn_mem [OF in0] by blast
          then show ?thesis
            unfolding ancestorOpUse_copy [OF nz Some copy]
            using only [of trial] ih [OF Suc.prems(1), of in0 trial] in0 by simp
        qed
      next
        case piece
        show ?thesis
        proof (cases "getIn (obank fd d) 1")
          case None
          then show ?thesis unfolding ancestorOpUse_piece [OF nz Some piece] by simp
        next
          case in1: (Some in1)
          have "in1 < create_index fd" using ins getIn_mem [OF in1] by blast
          then show ?thesis
            unfolding ancestorOpUse_piece [OF nz Some piece]
            using ih [OF Suc.prems(1), of in1 trial] in1 by simp
        qed
      next
        case subpiece
        show ?thesis
        proof (cases "subpieceOfRem fd d")
          case (Inl e)
          then show ?thesis unfolding ancestorOpUse_subpiece [OF nz Some subpiece] by simp
        next
          case (Inr rem)
          then show ?thesis
            unfolding ancestorOpUse_subpiece [OF nz Some subpiece]
            using only [of "if rem then setRemFormed trial else trial"] by simp
        qed
      next
        case call
        show ?thesis
          unfolding ancestorOpUse_call [OF nz Some call] by (simp add: sameLinks_refl)
      next
        case other
        show ?thesis
          unfolding ancestorOpUse_other [OF nz Some other] by (rule only)
      qed
    qed
  qed
qed


lemma fd_cycle_closed: "closedStore fd_cycle"
  by code_simp

text \<open>
  Claim C8.  ancestorOpUse returns for every trial Varnode of a closed store, also when
  the data-flow has cycles: a call with \<open>maxlevel\<close> 0 returns false at once, without
  any recursive call, and every recursive call passes \<open>maxlevel - 1\<close>, so a run never
  nests more recursive calls than the initial \<open>maxlevel\<close> (a 32-bit counter, read as
  an unsigned number).  The work-list loop of onlyOpUse that it calls returns as well.
\<close>

theorem C8_ancestorOpUse_terminates:
  assumes "closedStore fd" "invn < create_index fd" "unat maxlevel \<le> depth"
  shows "(\<exists>r. ancestorOpUse depth maxlevel invn op trial fd = Some r)
     \<and> ancestorOpUse 0 0 invn op trial fd = Some (Inr (False, trial, fd))"
  using ancestorOpUse_returns [OF assms, of op trial] ancestorOpUse_zero [of 0 invn op trial fd]
  by blast

theorem C8_ancestorOpUse_terminates_witness:
  "closedStore fd_cycle \<and> (0 :: nat) < create_index fd_cycle \<and> unat (2 :: int4) \<le> 2
   \<and> vn_def (vbank fd_cycle 0) = Some 0
   \<and> getIn (obank fd_cycle 0) 0 = Some 0
   \<and> (\<exists>r. ancestorOpUse 2 2 0 1 trial1 fd_cycle = Some r)"
proof -
  have c: "(0 :: nat) < create_index fd_cycle" by code_simp
  have u: "unat (2 :: int4) \<le> 2" by simp
  have d: "vn_def (vbank fd_cycle 0) = Some 0" "getIn (obank fd_cycle 0) 0 = Some 0"
    by code_simp+
  from C8_ancestorOpUse_terminates [OF fd_cycle_closed c u, of 1 trial1] fd_cycle_closed c u d
  show ?thesis by blast
qed

section \<open>The ancestry walk of a parameter trial\<close>






















lemma multiAbove_single [simp]: "multiAbove fd [s] = 0"
  by (simp add: multiAbove_def)



















lemma fd_cond_rounds:
  "map_option (map_sum id (\<lambda>(c, ar, fd). (c, ar)))
     (execute_rounds 1 enter_node (execute_start 3 1 trial1 True fd_cond) fd_cond)
   = Some (Inr (enter_node, ar_cond))"
  by code_simp









end
